(* ===== verification/Sponge_Prelude.thy ===== *)
theory Sponge_Prelude
  imports Main "HOL-Library.Word"
begin

text \<open>
  Shared types, exceptions and arithmetic of the development.

  A \<^verbatim>\<open>std::string\<close> is a list of bytes. An operation that may throw returns a value of
  \<open>exn + 'a\<close>: \<open>Inl e\<close> when the exception \<open>e\<close> escapes, \<open>Inr x\<close> when the call returns
  \<open>x\<close>; \<open>bind_res\<close> sequences two such calls the way a C++ statement list does.

  A \<^verbatim>\<open>size_t\<close> is a natural number below \<open>2 ^ 64\<close>, and \<open>add64\<close> and \<open>sub64\<close> are its
  wrapping addition and subtraction. Sequence numbers, header fields and addresses are words of
  their C++ width.
\<close>

type_synonym byte = "8 word"
type_synonym bytes = "byte list"
type_synonym size_t = nat

datatype exn =
    OutOfRange
  | RuntimeError
  | BadOptionalAccess
  | UndefinedBehaviour

type_synonym 'a res = "exn + 'a"

definition bind_res :: "'a res \<Rightarrow> ('a \<Rightarrow> 'b res) \<Rightarrow> 'b res" where
  "bind_res m f = (case m of Inl e \<Rightarrow> Inl e | Inr x \<Rightarrow> f x)"

definition size_max :: nat where
  "size_max = 2 ^ 64"

definition add64 :: "size_t \<Rightarrow> size_t \<Rightarrow> size_t" where
  "add64 a b = (a + b) mod size_max"

definition sub64 :: "size_t \<Rightarrow> size_t \<Rightarrow> size_t" where
  "sub64 a b = (a + (size_max - b mod size_max)) mod size_max"

named_theorems res_simps \<open>evaluation of calls that may throw\<close>

section \<open>Calls that may throw\<close>

lemma bind_res_Inl [simp, res_simps]: "bind_res (Inl e) f = Inl e"
  by (simp add: bind_res_def)

lemma bind_res_Inr [simp, res_simps]: "bind_res (Inr x) f = f x"
  by (simp add: bind_res_def)

lemma bind_res_cong [fundef_cong]:
  "m = m' \<Longrightarrow> (\<And>x. m' = Inr x \<Longrightarrow> f x = f' x) \<Longrightarrow> bind_res m f = bind_res m' f'"
  by (cases m') simp_all

lemma bind_res_assoc: "bind_res (bind_res m f) g = bind_res m (\<lambda>x. bind_res (f x) g)"
  by (cases m) simp_all

lemma bind_res_eq_Inr:
  "bind_res m f = Inr y \<longleftrightarrow> (\<exists>x. m = Inr x \<and> f x = Inr y)"
  by (cases m) auto

lemma bind_res_eq_InrE [elim]:
  assumes "bind_res m f = Inr y"
  obtains x where "m = Inr x" and "f x = Inr y"
  using assms by (auto simp: bind_res_eq_Inr)

section \<open>64-bit unsigned arithmetic\<close>

lemma size_max_pos [simp]: "0 < size_max"
  by (simp add: size_max_def)

lemma add64_less [simp]: "add64 a b < size_max"
  by (simp add: add64_def)

lemma sub64_less [simp]: "sub64 a b < size_max"
  by (simp add: sub64_def)

lemma add64_eq: "a + b < size_max \<Longrightarrow> add64 a b = a + b"
  by (simp add: add64_def)

lemma sub64_eq:
  assumes "b \<le> a" and "a < size_max"
  shows "sub64 a b = a - b"
proof -
  have "sub64 a b = (size_max + (a - b)) mod size_max"
    using assms by (simp add: sub64_def add.commute)
  also have "\<dots> = a - b"
    using assms by (simp only: mod_add_self1) simp
  finally show ?thesis .
qed

lemma sub64_wrap:
  assumes "a < b" and "b < size_max"
  shows "sub64 a b = size_max + a - b"
  using assms by (simp add: sub64_def)

lemma sub64_add64_cancel:
  assumes a: "a < size_max"
  shows "sub64 (add64 a b) b = a"
proof -
  have "sub64 (add64 a b) b = (a + b + (size_max - b mod size_max)) mod size_max"
    unfolding sub64_def add64_def by (rule mod_add_left_eq)
  also have "\<dots> = (a + (b mod size_max + (size_max - b mod size_max))) mod size_max"
    by (metis add.assoc mod_add_left_eq mod_add_right_eq)
  also have "b mod size_max + (size_max - b mod size_max) = size_max"
    using mod_less_divisor [OF size_max_pos, of b] by linarith
  finally show ?thesis using a by simp
qed

end
