(* ===== verification/Buffers.thy ===== *)
theory Buffers
  imports Sponge_Prelude
begin

text \<open>
  The byte containers of \<^verbatim>\<open>libsponge/util/buffer.hh\<close> and \<^verbatim>\<open>buffer.cc\<close>: the reference-counted
  \<^verbatim>\<open>Buffer\<close>, the \<^verbatim>\<open>BufferList\<close> that chains several of them and the non-owning
  \<^verbatim>\<open>BufferViewList\<close>. The three share one contract, the locale \<open>prefix_buffer\<close>: removing a prefix
  drops exactly that many bytes, or throws \<^verbatim>\<open>out_of_range\<close> when there are not enough of them.
\<close>

section \<open>Buffer\<close>

record Buffer =
  buf_storage :: "bytes option"
  buf_starting_offset :: size_t

definition Buffer_default :: Buffer where
  "Buffer_default = \<lparr>buf_storage = None, buf_starting_offset = 0\<rparr>"

definition Buffer_of_string :: "bytes \<Rightarrow> Buffer" where
  "Buffer_of_string s = \<lparr>buf_storage = Some s, buf_starting_offset = 0\<rparr>"

definition Buffer_str :: "Buffer \<Rightarrow> bytes" where
  "Buffer_str b =
     (case buf_storage b of
        None \<Rightarrow> []
      | Some s \<Rightarrow> drop (buf_starting_offset b) s)"

definition Buffer_at :: "Buffer \<Rightarrow> size_t \<Rightarrow> byte res" where
  "Buffer_at b n = (if n < length (Buffer_str b) then Inr (Buffer_str b ! n) else Inl OutOfRange)"

definition Buffer_size :: "Buffer \<Rightarrow> size_t" where
  "Buffer_size b = length (Buffer_str b)"

definition Buffer_copy :: "Buffer \<Rightarrow> bytes" where
  "Buffer_copy b = Buffer_str b"

definition Buffer_remove_prefix :: "size_t \<Rightarrow> Buffer \<Rightarrow> Buffer res" where
  "Buffer_remove_prefix n b =
     (if n > length (Buffer_str b) then Inl OutOfRange
      else
        let off = buf_starting_offset b + n;
            b' = b\<lparr>buf_starting_offset := off\<rparr>
        in case buf_storage b of
             None \<Rightarrow> Inr b'
           | Some s \<Rightarrow> if off = length s then Inr (b'\<lparr>buf_storage := None\<rparr>) else Inr b')"

section \<open>BufferList\<close>

type_synonym BufferList = "Buffer list"

definition BufferList_of_Buffer :: "Buffer \<Rightarrow> BufferList" where
  "BufferList_of_Buffer b = [b]"

definition BufferList_append :: "BufferList \<Rightarrow> BufferList \<Rightarrow> BufferList" where
  "BufferList_append bl other = fold (\<lambda>buf acc. acc @ [buf]) other bl"

definition BufferList_of_string :: "bytes \<Rightarrow> BufferList" where
  "BufferList_of_string s = BufferList_append [] (BufferList_of_Buffer (Buffer_of_string s))"

definition BufferList_to_Buffer :: "BufferList \<Rightarrow> Buffer res" where
  "BufferList_to_Buffer bl =
     (case bl of
        [] \<Rightarrow> Inr Buffer_default
      | [b] \<Rightarrow> Inr b
      | _ \<Rightarrow> Inl RuntimeError)"

definition BufferList_concatenate :: "BufferList \<Rightarrow> bytes" where
  "BufferList_concatenate bl = fold (\<lambda>buf ret. ret @ Buffer_str buf) bl []"

definition BufferList_size :: "BufferList \<Rightarrow> size_t" where
  "BufferList_size bl = fold (\<lambda>buf ret. ret + Buffer_size buf) bl 0"

fun BufferList_remove_prefix :: "size_t \<Rightarrow> BufferList \<Rightarrow> BufferList res" where
  "BufferList_remove_prefix n [] = (if n > 0 then Inl OutOfRange else Inr [])"
| "BufferList_remove_prefix n (b # bl) =
     (if n > 0 then
        if n < length (Buffer_str b)
        then bind_res (Buffer_remove_prefix n b) (\<lambda>b'. Inr (b' # bl))
        else BufferList_remove_prefix (n - length (Buffer_str b)) bl
      else Inr (b # bl))"

section \<open>BufferViewList\<close>

type_synonym BufferViewList = "bytes list"

definition BufferViewList_of_string :: "bytes \<Rightarrow> BufferViewList" where
  "BufferViewList_of_string s = [s]"

definition BufferViewList_of_BufferList :: "BufferList \<Rightarrow> BufferViewList" where
  "BufferViewList_of_BufferList bl = fold (\<lambda>x vs. vs @ [Buffer_str x]) bl []"

definition BufferViewList_size :: "BufferViewList \<Rightarrow> size_t" where
  "BufferViewList_size vs = fold (\<lambda>v ret. ret + length v) vs 0"

fun BufferViewList_remove_prefix :: "size_t \<Rightarrow> BufferViewList \<Rightarrow> BufferViewList res" where
  "BufferViewList_remove_prefix n [] = (if n > 0 then Inl OutOfRange else Inr [])"
| "BufferViewList_remove_prefix n (v # vs) =
     (if n > 0 then
        if n < length v then Inr (drop n v # vs)
        else BufferViewList_remove_prefix (n - length v) vs
      else Inr (v # vs))"

definition BufferViewList_as_iovecs :: "BufferViewList \<Rightarrow> (bytes \<times> size_t) list" where
  "BufferViewList_as_iovecs vs = fold (\<lambda>x ret. ret @ [(x, length x)]) vs []"

section \<open>Well-formedness\<close>

definition Buffer_wf :: "Buffer \<Rightarrow> bool" where
  "Buffer_wf b =
     (case buf_storage b of None \<Rightarrow> True | Some s \<Rightarrow> buf_starting_offset b \<le> length s)"

definition BufferList_wf :: "BufferList \<Rightarrow> bool" where
  "BufferList_wf bl = list_all Buffer_wf bl"

section \<open>The contract of a container that discards bytes from the front\<close>

locale prefix_buffer =
  fixes invar :: "'b \<Rightarrow> bool"
    and contents :: "'b \<Rightarrow> bytes"
    and size_of :: "'b \<Rightarrow> size_t"
    and remove_prefix :: "size_t \<Rightarrow> 'b \<Rightarrow> 'b res"
  assumes size_contents: "size_of b = length (contents b)"
    and remove_enough: "invar b \<Longrightarrow> n \<le> length (contents b) \<Longrightarrow>
      \<exists>b'. remove_prefix n b = Inr b' \<and> invar b' \<and> contents b' = drop n (contents b)"
    and remove_short: "length (contents b) < n \<Longrightarrow> remove_prefix n b = Inl OutOfRange"
begin

lemma remove_prefixE:
  assumes "invar b" and "n \<le> size_of b"
  obtains b' where "remove_prefix n b = Inr b'" and "invar b'"
    and "contents b' = drop n (contents b)" and "size_of b' = size_of b - n"
proof -
  from assms obtain b' where "remove_prefix n b = Inr b'" "invar b'"
    "contents b' = drop n (contents b)"
    using remove_enough size_contents by metis
  then show thesis
    using that by (simp add: size_contents)
qed

lemma remove_prefix_throws_iff:
  assumes "invar b"
  shows "remove_prefix n b = Inl OutOfRange \<longleftrightarrow> size_of b < n"
  using assms remove_enough [of b n] remove_short [of b n] size_contents [of b]
  by (cases "n \<le> size_of b") auto

lemma remove_prefix_InrD:
  assumes "remove_prefix n b = Inr b'" and "invar b"
  shows "n \<le> size_of b" and "invar b'" and "contents b' = drop n (contents b)"
proof -
  have "n \<le> size_of b"
    using assms remove_prefix_throws_iff [of b n] by (cases "size_of b < n") auto
  with assms show "n \<le> size_of b" and "invar b'" and "contents b' = drop n (contents b)"
    by (auto elim!: remove_prefixE [of b n])
qed

lemma remove_prefix_twice:
  assumes "invar b" and "m + n \<le> size_of b"
  shows "map_sum id contents (bind_res (remove_prefix m b) (remove_prefix n))
    = map_sum id contents (remove_prefix (m + n) b)"
proof -
  obtain b1 where b1: "remove_prefix m b = Inr b1" "invar b1" "contents b1 = drop m (contents b)"
    "size_of b1 = size_of b - m"
    using assms by (auto elim: remove_prefixE [of b m])
  obtain b2 where b2: "remove_prefix n b1 = Inr b2" "contents b2 = drop n (contents b1)"
    using assms b1 by (auto elim: remove_prefixE [of b1 n])
  obtain b3 where b3: "remove_prefix (m + n) b = Inr b3" "contents b3 = drop (m + n) (contents b)"
    using assms by (auto elim: remove_prefixE [of b "m + n"])
  show ?thesis
    using b1 b2 b3 by (simp add: add.commute)
qed

end

section \<open>Buffer meets the contract\<close>

lemma Buffer_str_default [simp]: "Buffer_str Buffer_default = []"
  by (simp add: Buffer_default_def Buffer_str_def)

lemma Buffer_str_of_string [simp]: "Buffer_str (Buffer_of_string s) = s"
  by (simp add: Buffer_of_string_def Buffer_str_def)

lemma Buffer_wf_of_string [simp]: "Buffer_wf (Buffer_of_string s)"
  by (simp add: Buffer_of_string_def Buffer_wf_def)

lemma Buffer_wf_default [simp]: "Buffer_wf Buffer_default"
  by (simp add: Buffer_default_def Buffer_wf_def)

interpretation buf: prefix_buffer Buffer_wf Buffer_str Buffer_size Buffer_remove_prefix
proof unfold_locales
  fix b n
  show "Buffer_size b = length (Buffer_str b)"
    by (simp add: Buffer_size_def)
  show "length (Buffer_str b) < n \<Longrightarrow> Buffer_remove_prefix n b = Inl OutOfRange"
    by (simp add: Buffer_remove_prefix_def)
  show "Buffer_wf b \<Longrightarrow> n \<le> length (Buffer_str b) \<Longrightarrow>
      \<exists>b'. Buffer_remove_prefix n b = Inr b' \<and> Buffer_wf b' \<and> Buffer_str b' = drop n (Buffer_str b)"
    by (cases "buf_storage b")
      (auto simp: Buffer_remove_prefix_def Buffer_wf_def Buffer_str_def Let_def add.commute)
qed

section \<open>BufferList meets the contract\<close>

lemma BufferList_append_eq [simp]: "BufferList_append bl other = bl @ other"
  unfolding BufferList_append_def by (induction other arbitrary: bl) simp_all

lemma BufferList_of_string_eq [simp]: "BufferList_of_string s = [Buffer_of_string s]"
  by (simp add: BufferList_of_string_def BufferList_of_Buffer_def)

lemma BufferList_concatenate_acc:
  "fold (\<lambda>buf ret. ret @ Buffer_str buf) bl acc = acc @ concat (map Buffer_str bl)"
  by (induction bl arbitrary: acc) simp_all

lemma BufferList_concatenate_eq: "BufferList_concatenate bl = concat (map Buffer_str bl)"
  by (simp add: BufferList_concatenate_def BufferList_concatenate_acc)

lemma BufferList_concatenate_simps [simp]:
  "BufferList_concatenate [] = []"
  "BufferList_concatenate (b # bl) = Buffer_str b @ BufferList_concatenate bl"
  "BufferList_concatenate (bl @ bl') = BufferList_concatenate bl @ BufferList_concatenate bl'"
  by (simp_all add: BufferList_concatenate_eq)

lemma BufferList_size_acc:
  "fold (\<lambda>buf ret. ret + Buffer_size buf) bl acc = acc + length (BufferList_concatenate bl)"
  by (induction bl arbitrary: acc) (simp_all add: Buffer_size_def)

lemma BufferList_wf_simps [simp]:
  "BufferList_wf []"
  "BufferList_wf (b # bl) \<longleftrightarrow> Buffer_wf b \<and> BufferList_wf bl"
  "BufferList_wf (bl @ bl') \<longleftrightarrow> BufferList_wf bl \<and> BufferList_wf bl'"
  by (auto simp: BufferList_wf_def)

interpretation bufl:
  prefix_buffer BufferList_wf BufferList_concatenate BufferList_size BufferList_remove_prefix
proof unfold_locales
  fix b n
  show "BufferList_size b = length (BufferList_concatenate b)"
    by (simp add: BufferList_size_def BufferList_size_acc)
  show "length (BufferList_concatenate b) < n \<Longrightarrow> BufferList_remove_prefix n b = Inl OutOfRange"
    by (induction n b rule: BufferList_remove_prefix.induct) auto
  show "BufferList_wf b \<Longrightarrow> n \<le> length (BufferList_concatenate b) \<Longrightarrow>
      \<exists>b'. BufferList_remove_prefix n b = Inr b' \<and> BufferList_wf b' \<and>
        BufferList_concatenate b' = drop n (BufferList_concatenate b)"
  proof (induction n b rule: BufferList_remove_prefix.induct)
    case (2 n b bl)
    then show ?case
      by (cases "n < length (Buffer_str b)")
        (auto elim!: buf.remove_prefixE [of b n] simp: buf.size_contents)
  qed auto
qed

section \<open>BufferViewList meets the contract\<close>

lemma BufferViewList_size_acc:
  "fold (\<lambda>v ret. ret + length v) vs acc = acc + length (concat vs)"
  by (induction vs arbitrary: acc) simp_all

lemma BufferViewList_of_BufferList_acc:
  "fold (\<lambda>x vs. vs @ [Buffer_str x]) bl acc = acc @ map Buffer_str bl"
  by (induction bl arbitrary: acc) simp_all

interpretation bufv:
  prefix_buffer "\<lambda>_. True" concat BufferViewList_size BufferViewList_remove_prefix
proof unfold_locales
  fix b n
  show "BufferViewList_size b = length (concat b)"
    by (simp add: BufferViewList_size_def BufferViewList_size_acc)
  show "length (concat b) < n \<Longrightarrow> BufferViewList_remove_prefix n b = Inl OutOfRange"
    by (induction n b rule: BufferViewList_remove_prefix.induct) auto
  show "\<exists>b'. BufferViewList_remove_prefix n b = Inr b' \<and> True \<and> concat b' = drop n (concat b)"
    if "n \<le> length (concat b)"
    using that by (induction n b rule: BufferViewList_remove_prefix.induct) auto
qed

lemma BufferViewList_of_BufferList_contents:
  "concat (BufferViewList_of_BufferList bl) = BufferList_concatenate bl"
  by (simp add: BufferViewList_of_BufferList_def BufferViewList_of_BufferList_acc
      BufferList_concatenate_eq)

end
