(* ===== verification/Byte_Stream.thy ===== *)
theory Byte_Stream
  imports Buffers
begin

text \<open>
  The in-order byte stream of \<^verbatim>\<open>libsponge/byte_stream.hh\<close> and \<^verbatim>\<open>byte_stream.cc\<close>: a bounded
  queue of bytes with an end-of-input mark, an error mark and two running totals. The locale
  \<open>bounded_pipe\<close> is what its clients (the reassembler, the sender, the connection) rely on.
\<close>

section \<open>State and operations\<close>

record ByteStream =
  bs_error :: bool
  bs_buffer :: BufferList
  bs_capacity :: size_t
  bs_input_ended_flag :: bool
  bs_write_count :: size_t
  bs_read_count :: size_t

definition ByteStream_init :: "size_t \<Rightarrow> ByteStream" where
  "ByteStream_init cap =
     \<lparr>bs_error = False, bs_buffer = [], bs_capacity = cap, bs_input_ended_flag = False,
      bs_write_count = 0, bs_read_count = 0\<rparr>"

definition ByteStream_remaining_capacity :: "ByteStream \<Rightarrow> size_t" where
  "ByteStream_remaining_capacity s = sub64 (bs_capacity s) (BufferList_size (bs_buffer s))"

definition ByteStream_write :: "bytes \<Rightarrow> ByteStream \<Rightarrow> size_t \<times> ByteStream" where
  "ByteStream_write data s =
     (let len = min (length data) (ByteStream_remaining_capacity s);
          s1 = (if length data \<noteq> 0
                then s\<lparr>bs_buffer :=
                         BufferList_append (bs_buffer s) (BufferList_of_string (take len data))\<rparr>
                else s);
          s2 = s1\<lparr>bs_write_count := add64 (bs_write_count s1) len\<rparr>
      in (len, s2))"

definition ByteStream_set_error :: "ByteStream \<Rightarrow> ByteStream" where
  "ByteStream_set_error s = s\<lparr>bs_error := True\<rparr>"

definition ByteStream_error :: "ByteStream \<Rightarrow> bool" where
  "ByteStream_error s = bs_error s"

definition ByteStream_peek_output :: "size_t \<Rightarrow> ByteStream \<Rightarrow> bytes" where
  "ByteStream_peek_output len s = take len (BufferList_concatenate (bs_buffer s))"

definition ByteStream_pop_output :: "size_t \<Rightarrow> ByteStream \<Rightarrow> ByteStream res" where
  "ByteStream_pop_output len s =
     (let n = min (BufferList_size (bs_buffer s)) len
      in bind_res (BufferList_remove_prefix n (bs_buffer s))
           (\<lambda>bl. Inr (s\<lparr>bs_buffer := bl, bs_read_count := add64 (bs_read_count s) n\<rparr>)))"

definition ByteStream_read :: "size_t \<Rightarrow> ByteStream \<Rightarrow> (bytes \<times> ByteStream) res" where
  "ByteStream_read len s =
     (let ret = ByteStream_peek_output len s
      in bind_res (ByteStream_pop_output len s) (\<lambda>s'. Inr (ret, s')))"

definition ByteStream_end_input :: "ByteStream \<Rightarrow> ByteStream" where
  "ByteStream_end_input s = s\<lparr>bs_input_ended_flag := True\<rparr>"

definition ByteStream_input_ended :: "ByteStream \<Rightarrow> bool" where
  "ByteStream_input_ended s = bs_input_ended_flag s"

definition ByteStream_buffer_size :: "ByteStream \<Rightarrow> size_t" where
  "ByteStream_buffer_size s = BufferList_size (bs_buffer s)"

definition ByteStream_buffer_empty :: "ByteStream \<Rightarrow> bool" where
  "ByteStream_buffer_empty s = (BufferList_size (bs_buffer s) = 0)"

definition ByteStream_eof :: "ByteStream \<Rightarrow> bool" where
  "ByteStream_eof s = (ByteStream_input_ended s \<and> ByteStream_buffer_empty s)"

definition ByteStream_bytes_written :: "ByteStream \<Rightarrow> size_t" where
  "ByteStream_bytes_written s = bs_write_count s"

definition ByteStream_bytes_read :: "ByteStream \<Rightarrow> size_t" where
  "ByteStream_bytes_read s = bs_read_count s"

section \<open>Invariant and abstraction\<close>

definition ByteStream_contents :: "ByteStream \<Rightarrow> bytes" where
  "ByteStream_contents s = BufferList_concatenate (bs_buffer s)"

definition ByteStream_wf :: "ByteStream \<Rightarrow> bool" where
  "ByteStream_wf s \<longleftrightarrow>
     BufferList_wf (bs_buffer s) \<and>
     length (ByteStream_contents s) \<le> bs_capacity s \<and> bs_capacity s < size_max \<and>
     bs_write_count s = add64 (bs_read_count s) (length (ByteStream_contents s)) \<and>
     bs_read_count s < size_max"

text \<open>Calls of a stream's two ends, and what a sequence of them accepts and delivers.\<close>

datatype bs_call = BsWrite bytes | BsRead size_t | BsPop size_t | BsEndInput | BsSetError

record bs_trace =
  bt_stream :: ByteStream
  bt_accepted :: bytes
  bt_delivered :: bytes

fun bs_step :: "bs_call \<Rightarrow> bs_trace \<Rightarrow> bs_trace res" where
  "bs_step (BsWrite d) t =
     (let (n, s) = ByteStream_write d (bt_stream t)
      in Inr (t\<lparr>bt_stream := s, bt_accepted := bt_accepted t @ take n d\<rparr>))"
| "bs_step (BsRead n) t =
     bind_res (ByteStream_read n (bt_stream t))
       (\<lambda>(d, s). Inr (t\<lparr>bt_stream := s, bt_delivered := bt_delivered t @ d\<rparr>))"
| "bs_step (BsPop n) t =
     bind_res (ByteStream_pop_output n (bt_stream t))
       (\<lambda>s. Inr (t\<lparr>bt_stream := s,
                   bt_delivered := bt_delivered t @ ByteStream_peek_output n (bt_stream t)\<rparr>))"
| "bs_step BsEndInput t = Inr (t\<lparr>bt_stream := ByteStream_end_input (bt_stream t)\<rparr>)"
| "bs_step BsSetError t = Inr (t\<lparr>bt_stream := ByteStream_set_error (bt_stream t)\<rparr>)"

fun bs_run :: "bs_call list \<Rightarrow> bs_trace \<Rightarrow> bs_trace res" where
  "bs_run [] t = Inr t"
| "bs_run (c # cs) t = bind_res (bs_step c t) (bs_run cs)"

section \<open>The contract of a bounded byte pipe\<close>

locale bounded_pipe =
  fixes invar :: "'s \<Rightarrow> bool"
    and contents :: "'s \<Rightarrow> bytes"
    and capacity :: "'s \<Rightarrow> size_t"
    and push :: "bytes \<Rightarrow> 's \<Rightarrow> size_t \<times> 's"
    and pull :: "size_t \<Rightarrow> 's \<Rightarrow> (bytes \<times> 's) res"
  assumes within_capacity: "invar s \<Longrightarrow> length (contents s) \<le> capacity s"
    and push_law: "invar s \<Longrightarrow> push d s = (n, s') \<Longrightarrow>
      n = min (length d) (capacity s - length (contents s)) \<and>
      contents s' = contents s @ take n d \<and> capacity s' = capacity s \<and> invar s'"
    and pull_law: "invar s \<Longrightarrow>
      \<exists>s'. pull n s = Inr (take n (contents s), s') \<and> contents s' = drop n (contents s) \<and>
        capacity s' = capacity s \<and> invar s'"
begin

lemma pushE:
  assumes "invar s"
  obtains s' where "push d s = (min (length d) (capacity s - length (contents s)), s')"
    and "contents s' = contents s @ take (capacity s - length (contents s)) d"
    and "capacity s' = capacity s" and "invar s'"
proof -
  obtain n s' where w: "push d s = (n, s')"
    by (cases "push d s")
  then have "take n d = take (capacity s - length (contents s)) d"
    using push_law [OF assms w] by (cases "length d \<le> capacity s - length (contents s)") auto
  then show thesis
    using that w push_law [OF assms w] by metis
qed

lemma pullE:
  assumes "invar s"
  obtains s' where "pull n s = Inr (take n (contents s), s')"
    and "contents s' = drop n (contents s)" and "capacity s' = capacity s" and "invar s'"
  using pull_law [OF assms] by metis

lemma push_fits:
  assumes "invar s" and "length d \<le> capacity s - length (contents s)" and "push d s = (n, s')"
  shows "n = length d \<and> contents s' = contents s @ d"
  using push_law [OF assms(1,3)] assms(2) by simp

lemma push_pull_back:
  assumes "invar s" and "contents s = []" and "length d \<le> capacity s"
  shows "\<exists>s'. pull (length d) (snd (push d s)) = Inr (d, s') \<and> contents s' = []"
proof -
  obtain n s1 where w: "push d s = (n, s1)"
    by (cases "push d s")
  have "contents s1 = d" and "invar s1"
    using push_law [OF assms(1) w] assms(2,3) by auto
  then show ?thesis
    using w by (auto elim: pullE [of s1 "length d"])
qed

end

section \<open>The byte stream meets the contract\<close>

lemma ByteStream_contents_init [simp]: "ByteStream_contents (ByteStream_init cap) = []"
  by (simp add: ByteStream_init_def ByteStream_contents_def)

lemma ByteStream_wf_init: "cap < size_max \<Longrightarrow> ByteStream_wf (ByteStream_init cap)"
  by (simp add: ByteStream_wf_def) (simp add: ByteStream_init_def add64_def)

lemma ByteStream_remaining_capacity_eq:
  "ByteStream_wf s \<Longrightarrow>
     ByteStream_remaining_capacity s = bs_capacity s - length (ByteStream_contents s)"
  by (simp add: ByteStream_remaining_capacity_def ByteStream_wf_def bufl.size_contents
      ByteStream_contents_def sub64_eq)

lemma ByteStream_write_contents:
  assumes "ByteStream_write d s = (n, s')"
  shows "ByteStream_contents s' = ByteStream_contents s @ take n d"
  using assms by (auto simp: ByteStream_write_def ByteStream_contents_def Let_def)

lemma add64_assoc: "add64 (add64 a b) c = add64 a (b + c)"
  by (simp add: add64_def mod_add_left_eq add.assoc)

lemma ByteStream_write_wf:
  assumes "ByteStream_wf s" and "ByteStream_write d s = (n, s')"
  shows "ByteStream_wf s'"
proof -
  have n: "n = min (length d) (bs_capacity s - length (ByteStream_contents s))"
    using assms by (auto simp: ByteStream_write_def Let_def ByteStream_remaining_capacity_eq)
  have fields: "bs_capacity s' = bs_capacity s" "bs_read_count s' = bs_read_count s"
    "bs_write_count s' = add64 (bs_write_count s) n" "BufferList_wf (bs_buffer s')"
    using assms by (auto simp: ByteStream_write_def Let_def ByteStream_wf_def)
  show ?thesis
    using assms(1) n fields ByteStream_write_contents [OF assms(2)]
    by (auto simp: ByteStream_wf_def add64_assoc)
qed

lemma ByteStream_pop_outputE:
  assumes "ByteStream_wf s"
  obtains s' where "ByteStream_pop_output n s = Inr s'" and "ByteStream_wf s'"
    and "ByteStream_contents s' = drop n (ByteStream_contents s)"
    and "bs_capacity s' = bs_capacity s" and "bs_error s' = bs_error s"
    and "bs_input_ended_flag s' = bs_input_ended_flag s" and "bs_write_count s' = bs_write_count s"
proof -
  let ?c = "ByteStream_contents s"
  let ?n = "min (BufferList_size (bs_buffer s)) n"
  have wf: "BufferList_wf (bs_buffer s)" and sz: "BufferList_size (bs_buffer s) = length ?c"
    using assms by (simp_all add: ByteStream_wf_def bufl.size_contents ByteStream_contents_def)
  obtain bl where bl: "BufferList_remove_prefix ?n (bs_buffer s) = Inr bl" "BufferList_wf bl"
    "BufferList_concatenate bl = drop ?n ?c"
    using bufl.remove_prefixE [OF wf, of ?n] unfolding ByteStream_contents_def by auto
  let ?s = "s\<lparr>bs_buffer := bl, bs_read_count := add64 (bs_read_count s) ?n\<rparr>"
  have drop: "ByteStream_contents ?s = drop n ?c"
    using bl sz by (simp add: ByteStream_contents_def min_def)
  have "ByteStream_wf ?s"
    using assms bl(2) drop sz by (auto simp: ByteStream_wf_def add64_assoc min_def)
  then show thesis
    using that [of ?s] bl(1) drop by (simp add: ByteStream_pop_output_def)
qed

lemma ByteStream_readE:
  assumes "ByteStream_wf s"
  obtains s' where "ByteStream_read n s = Inr (take n (ByteStream_contents s), s')"
    and "ByteStream_wf s'" and "ByteStream_contents s' = drop n (ByteStream_contents s)"
    and "bs_capacity s' = bs_capacity s" and "bs_error s' = bs_error s"
    and "bs_input_ended_flag s' = bs_input_ended_flag s" and "bs_write_count s' = bs_write_count s"
  using assms that
  by (auto elim!: ByteStream_pop_outputE [of s n]
      simp: ByteStream_read_def ByteStream_peek_output_def ByteStream_contents_def)

interpretation pipe:
  bounded_pipe ByteStream_wf ByteStream_contents bs_capacity ByteStream_write ByteStream_read
proof unfold_locales
  fix s d n s'
  assume wf: "ByteStream_wf s"
  show "length (ByteStream_contents s) \<le> bs_capacity s"
    using wf by (simp add: ByteStream_wf_def)
  show "\<exists>s'. ByteStream_read n s = Inr (take n (ByteStream_contents s), s') \<and>
      ByteStream_contents s' = drop n (ByteStream_contents s) \<and> bs_capacity s' = bs_capacity s \<and>
      ByteStream_wf s'"
    using wf by (auto elim!: ByteStream_readE [of s n])
  assume w: "ByteStream_write d s = (n, s')"
  have "n = min (length d) (bs_capacity s - length (ByteStream_contents s))"
    and "bs_capacity s' = bs_capacity s"
    using w wf by (auto simp: ByteStream_write_def Let_def ByteStream_remaining_capacity_eq)
  then show "n = min (length d) (bs_capacity s - length (ByteStream_contents s)) \<and>
      ByteStream_contents s' = ByteStream_contents s @ take n d \<and>
      bs_capacity s' = bs_capacity s \<and> ByteStream_wf s'"
    using ByteStream_write_contents [OF w] ByteStream_write_wf [OF wf w] by simp
qed

section \<open>Frame facts of the operations\<close>

lemma ByteStream_end_input_simps [simp]:
  "ByteStream_contents (ByteStream_end_input s) = ByteStream_contents s"
  "ByteStream_wf (ByteStream_end_input s) = ByteStream_wf s"
  "bs_capacity (ByteStream_end_input s) = bs_capacity s"
  "bs_error (ByteStream_end_input s) = bs_error s"
  "ByteStream_input_ended (ByteStream_end_input s)"
  by (simp_all add: ByteStream_end_input_def ByteStream_contents_def ByteStream_wf_def
      ByteStream_input_ended_def)

lemma ByteStream_set_error_simps [simp]:
  "ByteStream_contents (ByteStream_set_error s) = ByteStream_contents s"
  "ByteStream_wf (ByteStream_set_error s) = ByteStream_wf s"
  "bs_capacity (ByteStream_set_error s) = bs_capacity s"
  "bs_error (ByteStream_set_error s)"
  "ByteStream_input_ended (ByteStream_set_error s) = ByteStream_input_ended s"
  by (simp_all add: ByteStream_set_error_def ByteStream_contents_def ByteStream_wf_def
      ByteStream_input_ended_def)

lemma ByteStream_write_flags:
  assumes "ByteStream_write d s = (n, s')"
  shows "bs_error s' = bs_error s" and "bs_input_ended_flag s' = bs_input_ended_flag s"
  using assms by (auto simp: ByteStream_write_def Let_def split: if_splits)

lemma ByteStream_buffer_empty_iff:
  "ByteStream_buffer_empty s \<longleftrightarrow> ByteStream_contents s = []"
  by (simp add: ByteStream_buffer_empty_def bufl.size_contents ByteStream_contents_def)

lemma ByteStream_buffer_size_eq:
  "ByteStream_buffer_size s = length (ByteStream_contents s)"
  by (simp add: ByteStream_buffer_size_def bufl.size_contents ByteStream_contents_def)

lemma ByteStream_wf_counts:
  "ByteStream_wf s \<Longrightarrow>
     ByteStream_bytes_written s = add64 (ByteStream_bytes_read s) (ByteStream_buffer_size s)"
  by (simp add: ByteStream_wf_def ByteStream_bytes_written_def ByteStream_bytes_read_def
      ByteStream_buffer_size_eq)

section \<open>First in, first out\<close>

text \<open>
  The specification: the bytes accepted and delivered so far, and the two marks. A write takes what fits
  beside the bytes that wait, a read takes the oldest of these.
\<close>

record bs_spec =
  sp_accepted :: bytes
  sp_delivered :: bytes
  sp_ended :: bool
  sp_failed :: bool

fun bs_spec_step :: "size_t \<Rightarrow> bs_call \<Rightarrow> bs_spec \<Rightarrow> bs_spec" where
  "bs_spec_step cap (BsWrite d) a =
     a\<lparr>sp_accepted := sp_accepted a @ take (cap - (length (sp_accepted a) - length (sp_delivered a))) d\<rparr>"
| "bs_spec_step cap (BsRead n) a =
     a\<lparr>sp_delivered := sp_delivered a @ take n (drop (length (sp_delivered a)) (sp_accepted a))\<rparr>"
| "bs_spec_step cap (BsPop n) a =
     a\<lparr>sp_delivered := sp_delivered a @ take n (drop (length (sp_delivered a)) (sp_accepted a))\<rparr>"
| "bs_spec_step cap BsEndInput a = a\<lparr>sp_ended := True\<rparr>"
| "bs_spec_step cap BsSetError a = a\<lparr>sp_failed := True\<rparr>"

definition bs_spec_run :: "size_t \<Rightarrow> bs_call list \<Rightarrow> bs_spec" where
  "bs_spec_run cap cs = fold (bs_spec_step cap) cs \<lparr>sp_accepted = [], sp_delivered = [], sp_ended = False, sp_failed = False\<rparr>"

text \<open>A trace of the code stands for a state of the specification.\<close>

definition bs_trace_ok :: "size_t \<Rightarrow> bs_spec \<Rightarrow> bs_trace \<Rightarrow> bool" where
  "bs_trace_ok cap a t \<longleftrightarrow>
     ByteStream_wf (bt_stream t) \<and> bs_capacity (bt_stream t) = cap \<and>
     bt_accepted t = sp_accepted a \<and> bt_delivered t = sp_delivered a \<and>
     sp_accepted a = sp_delivered a @ ByteStream_contents (bt_stream t) \<and>
     bs_read_count (bt_stream t) = length (sp_delivered a) mod size_max \<and>
     ByteStream_input_ended (bt_stream t) = sp_ended a \<and> ByteStream_error (bt_stream t) = sp_failed a"

lemma ByteStream_write_frame:
  assumes "ByteStream_write d s = (n, s')"
  shows "bs_read_count s' = bs_read_count s" and "ByteStream_input_ended s' = ByteStream_input_ended s"
    and "ByteStream_error s' = ByteStream_error s"
  using assms by (auto simp: ByteStream_write_def Let_def ByteStream_input_ended_def ByteStream_error_def split: if_splits)

lemma ByteStream_pop_frame:
  assumes "ByteStream_pop_output n s = Inr s'"
  shows "bs_read_count s' = add64 (bs_read_count s) (min (length (ByteStream_contents s)) n)"
    and "ByteStream_input_ended s' = ByteStream_input_ended s" and "ByteStream_error s' = ByteStream_error s"
  using assms
  by (auto simp: ByteStream_pop_output_def Let_def bind_res_eq_Inr ByteStream_input_ended_def ByteStream_error_def
      ByteStream_contents_def bufl.size_contents)

text \<open>Reading and popping remove the same bytes.\<close>

lemma bs_pop_ok:
  assumes "bs_trace_ok cap a t"
  shows "\<exists>s. ByteStream_pop_output n (bt_stream t) = Inr s \<and>
    bs_trace_ok cap (bs_spec_step cap (BsPop n) a)
      (t\<lparr>bt_stream := s, bt_delivered := bt_delivered t @ ByteStream_peek_output n (bt_stream t)\<rparr>)"
proof -
  have t: "ByteStream_wf (bt_stream t)" "bs_read_count (bt_stream t) = length (sp_delivered a) mod size_max"
    using assms by (simp_all add: bs_trace_ok_def)
  obtain s where s: "ByteStream_pop_output n (bt_stream t) = Inr s" "ByteStream_wf s"
    "ByteStream_contents s = drop n (ByteStream_contents (bt_stream t))" "bs_capacity s = bs_capacity (bt_stream t)"
    using ByteStream_pop_outputE [OF t(1)] by metis
  have "bs_read_count s = (length (sp_delivered a) + min (length (ByteStream_contents (bt_stream t))) n) mod size_max"
    using ByteStream_pop_frame(1) [OF s(1)] t(2) by (simp add: add64_def mod_add_left_eq)
  then show ?thesis
    using assms s ByteStream_pop_frame(2,3) [OF s(1)]
    by (auto simp: bs_trace_ok_def ByteStream_peek_output_def ByteStream_contents_def)
qed

lemma bs_step_ok:
  assumes "bs_trace_ok cap a t"
  shows "\<exists>t'. bs_step c t = Inr t' \<and> bs_trace_ok cap (bs_spec_step cap c a) t'"
proof (cases c)
  case (BsWrite d)
  obtain n s where w: "ByteStream_write d (bt_stream t) = (n, s)"
    by (cases "ByteStream_write d (bt_stream t)")
  have "take n d = take (cap - length (ByteStream_contents (bt_stream t))) d"
    using assms pipe.push_law [OF _ w] by (auto simp: bs_trace_ok_def min_def)
  then show ?thesis
    using assms BsWrite w pipe.push_law [OF _ w] ByteStream_write_frame [OF w] by (auto simp: bs_trace_ok_def)
next
  case (BsRead n)
  then show ?thesis
    using bs_pop_ok [OF assms, of n] by (auto simp: ByteStream_read_def Let_def)
next
  case (BsPop n)
  then show ?thesis
    using bs_pop_ok [OF assms, of n] by auto
qed (use assms in \<open>auto simp: bs_trace_ok_def ByteStream_input_ended_def ByteStream_error_def ByteStream_end_input_def
    ByteStream_set_error_def ByteStream_wf_def ByteStream_contents_def\<close>)

lemma bs_run_ok:
  "bs_trace_ok cap a t \<Longrightarrow> \<exists>t'. bs_run cs t = Inr t' \<and> bs_trace_ok cap (fold (bs_spec_step cap) cs a) t'"
proof (induction cs arbitrary: a t)
  case (Cons c cs)
  from bs_step_ok [OF Cons.prems] obtain t1 where "bs_step c t = Inr t1" "bs_trace_ok cap (bs_spec_step cap c a) t1"
    by blast
  then show ?case
    using Cons.IH by simp
qed simp

lemma bs_spec_marks:
  "sp_ended (fold (bs_spec_step cap) cs a) \<longleftrightarrow> sp_ended a \<or> BsEndInput \<in> set cs"
  "sp_failed (fold (bs_spec_step cap) cs a) \<longleftrightarrow> sp_failed a \<or> BsSetError \<in> set cs"
proof (induction cs arbitrary: a)
  case (Cons c cs)
  case 1
  then show ?case
    using Cons by (cases c) auto
  case 2
  then show ?case
    using Cons by (cases c) auto
qed simp_all

text \<open>
  C6. A byte stream is a first-in first-out queue of bounded size. Whatever sequence of writes, reads,
  pops, end-of-input and error marks its users issue, no call throws, and the bytes accepted and delivered
  are those of the specification. The bytes delivered so far followed by the bytes still buffered are the
  bytes accepted so far; the buffer stays within the capacity, and the rest of it is what is offered to
  the writer; the two counters are the numbers of bytes accepted and delivered, modulo \<open>2 ^ 64\<close>; each
  mark is set exactly when it was requested, and the end of the stream is reported exactly when the input
  ended and everything accepted was delivered.
\<close>

theorem ByteStream_fifo:
  assumes "cap < size_max"
  shows "\<exists>t. bs_run cs \<lparr>bt_stream = ByteStream_init cap, bt_accepted = [], bt_delivered = []\<rparr> = Inr t \<and>
    bt_accepted t = sp_accepted (bs_spec_run cap cs) \<and> bt_delivered t = sp_delivered (bs_spec_run cap cs) \<and>
    bt_accepted t = bt_delivered t @ ByteStream_contents (bt_stream t) \<and>
    ByteStream_buffer_size (bt_stream t) \<le> cap \<and>
    ByteStream_remaining_capacity (bt_stream t) = cap - ByteStream_buffer_size (bt_stream t) \<and>
    ByteStream_bytes_written (bt_stream t) = length (bt_accepted t) mod size_max \<and>
    ByteStream_bytes_read (bt_stream t) = length (bt_delivered t) mod size_max \<and>
    (ByteStream_input_ended (bt_stream t) \<longleftrightarrow> BsEndInput \<in> set cs) \<and>
    (ByteStream_error (bt_stream t) \<longleftrightarrow> BsSetError \<in> set cs) \<and>
    (ByteStream_eof (bt_stream t) \<longleftrightarrow> BsEndInput \<in> set cs \<and> bt_delivered t = bt_accepted t)"
proof -
  let ?a = "\<lparr>sp_accepted = [], sp_delivered = [], sp_ended = False, sp_failed = False\<rparr>"
  have "bs_trace_ok cap ?a \<lparr>bt_stream = ByteStream_init cap, bt_accepted = [], bt_delivered = []\<rparr>"
    using ByteStream_wf_init [OF assms] by (simp add: bs_trace_ok_def)
      (simp add: ByteStream_init_def ByteStream_input_ended_def ByteStream_error_def)
  from bs_run_ok [OF this, of cs] obtain t
    where t: "bs_run cs \<lparr>bt_stream = ByteStream_init cap, bt_accepted = [], bt_delivered = []\<rparr> = Inr t"
      "bs_trace_ok cap (bs_spec_run cap cs) t"
    by (auto simp: bs_spec_run_def)
  have wf: "ByteStream_wf (bt_stream t)"
    using t(2) by (simp add: bs_trace_ok_def)
  have "ByteStream_bytes_written (bt_stream t) = length (bt_accepted t) mod size_max"
    using wf t(2) by (simp add: bs_trace_ok_def ByteStream_wf_def ByteStream_bytes_written_def add64_def mod_add_left_eq)
  moreover have "sp_ended (bs_spec_run cap cs) \<longleftrightarrow> BsEndInput \<in> set cs" "sp_failed (bs_spec_run cap cs) \<longleftrightarrow> BsSetError \<in> set cs"
    by (simp_all add: bs_spec_run_def bs_spec_marks)
  ultimately show ?thesis
    using t pipe.within_capacity [OF wf] ByteStream_remaining_capacity_eq [OF wf]
    by (auto simp: bs_trace_ok_def ByteStream_buffer_size_eq ByteStream_bytes_read_def ByteStream_eof_def
        ByteStream_buffer_empty_def ByteStream_contents_def bufl.size_contents)
qed

theorem ByteStream_fifo_witness:
  "\<exists>t. bs_run [BsWrite [1, 2, 3], BsRead 1, BsWrite [4, 5], BsEndInput, BsPop 3]
      \<lparr>bt_stream = ByteStream_init 3, bt_accepted = [], bt_delivered = []\<rparr> = Inr t \<and>
    bt_accepted t = [1, 2, 3, 4] \<and> bt_delivered t = [1, 2, 3, 4] \<and>
    ByteStream_bytes_read (bt_stream t) = 4 \<and> ByteStream_eof (bt_stream t) \<and> \<not> ByteStream_error (bt_stream t)"
proof -
  let ?cs = "[BsWrite [1, 2, 3], BsRead 1, BsWrite [4, 5], BsEndInput, BsPop 3]"
  have spec: "sp_accepted (bs_spec_run 3 ?cs) = [1, 2, 3, 4]" "sp_delivered (bs_spec_run 3 ?cs) = [1, 2, 3, 4]"
    "BsEndInput \<in> set ?cs" "BsSetError \<notin> set ?cs" "length [1, 2, 3, 4 :: 8 word] mod size_max = 4" "3 < size_max"
    by (simp_all add: bs_spec_run_def size_max_def)
  from ByteStream_fifo [OF spec(6), of ?cs] show ?thesis
    unfolding spec(1,2) by - (elim exE conjE, intro exI conjI, assumption, simp_all only: spec simp_thms)
qed

text \<open>
  Writing to a stream and reading from it: a write accepts as many leading bytes as fit, stores
  exactly these behind the buffered ones, adds their number to the running total and keeps the
  stream well formed; a read returns and removes the oldest bytes and never throws.
\<close>

lemma ByteStream_write_read_spec:
  assumes "ByteStream_wf s"
  shows "fst (ByteStream_write d s) = min (length d) (bs_capacity s - ByteStream_buffer_size s) \<and>
    ByteStream_contents (snd (ByteStream_write d s)) =
      ByteStream_contents s @ take (fst (ByteStream_write d s)) d \<and>
    ByteStream_wf (snd (ByteStream_write d s)) \<and>
    ByteStream_bytes_written (snd (ByteStream_write d s)) =
      add64 (ByteStream_bytes_written s) (fst (ByteStream_write d s)) \<and>
    (\<exists>s'. ByteStream_read n s = Inr (take n (ByteStream_contents s), s') \<and> ByteStream_wf s' \<and>
      ByteStream_contents s' = drop n (ByteStream_contents s) \<and>
      ByteStream_bytes_written s' = add64 (ByteStream_bytes_read s') (ByteStream_buffer_size s'))"
proof -
  obtain k s1 where w: "ByteStream_write d s = (k, s1)"
    by (cases "ByteStream_write d s")
  have "ByteStream_bytes_written s1 = add64 (ByteStream_bytes_written s) k"
    using w by (auto simp: ByteStream_write_def Let_def ByteStream_bytes_written_def)
  moreover have "\<exists>s'. ByteStream_read n s = Inr (take n (ByteStream_contents s), s') \<and>
      ByteStream_wf s' \<and> ByteStream_contents s' = drop n (ByteStream_contents s) \<and>
      ByteStream_bytes_written s' = add64 (ByteStream_bytes_read s') (ByteStream_buffer_size s')"
    by (rule ByteStream_readE [OF assms, of n]) (use ByteStream_wf_counts in blast)
  ultimately show ?thesis
    using w pipe.push_law [OF assms w] by (simp add: ByteStream_buffer_size_eq)
qed

lemma ByteStream_write_read_spec_witness:
  "fst (ByteStream_write [7, 8, 9] (ByteStream_init 2)) = 2 \<and>
    ByteStream_contents (snd (ByteStream_write [7, 8, 9] (ByteStream_init 2))) = [7, 8]"
proof -
  have "ByteStream_wf (ByteStream_init 2)"
    by (rule ByteStream_wf_init) (simp add: size_max_def)
  from ByteStream_write_read_spec [OF this, of "[7, 8, 9]" 0] show ?thesis
    by (simp add: ByteStream_buffer_size_def ByteStream_init_def BufferList_size_def
        ByteStream_contents_def)
qed

end
