(* ===== verification/Stream_Reassembler.thy ===== *)
theory Stream_Reassembler
  imports Byte_Stream
begin

text \<open>
  The reassembler of \<^verbatim>\<open>libsponge/stream_reassembler.hh\<close> and \<^verbatim>\<open>stream_reassembler.cc\<close>.

  \<^verbatim>\<open>_unassembled\<close> is the list of the map's entries \<open>(start_index, end_index, bytes)\<close> in key order.
  An iterator splits that list: the entries before it and the entries from it on, so that the end
  iterator is the split with an empty second part. \<^verbatim>\<open>push_substring\<close> reads \<^verbatim>\<open>it->first\<close> without
  comparing \<^verbatim>\<open>it\<close> to the end iterator first; the value such a read yields is not the program's, and
  the parameter \<open>end_key\<close> stands for it. Reading further through the end iterator is
  \<open>UndefinedBehaviour\<close>.
\<close>

section \<open>State and operations\<close>

type_synonym sr_entry = "size_t \<times> size_t \<times> BufferList"
type_synonym sr_map = "sr_entry list"

record StreamReassembler =
  sr_output :: ByteStream
  sr_capacity :: size_t
  sr_unassembled :: sr_map
  sr_unassembled_bytes :: size_t
  sr_first_index :: size_t
  sr_eof_index :: size_t
  sr_eof :: bool
  sr_eofed :: bool

definition StreamReassembler_init :: "size_t \<Rightarrow> StreamReassembler" where
  "StreamReassembler_init capacity =
     \<lparr>sr_output = ByteStream_init capacity, sr_capacity = capacity, sr_unassembled = [],
      sr_unassembled_bytes = 0, sr_first_index = 0, sr_eof_index = 0, sr_eof = False,
      sr_eofed = False\<rparr>"

definition sr_lower_bound :: "size_t \<Rightarrow> sr_map \<Rightarrow> sr_map \<times> sr_map" where
  "sr_lower_bound k m = (takeWhile (\<lambda>e. fst e < k) m, dropWhile (\<lambda>e. fst e < k) m)"

definition string_substr :: "bytes \<Rightarrow> size_t \<Rightarrow> size_t \<Rightarrow> bytes res" where
  "string_substr s pos len = (if pos > length s then Inl OutOfRange else Inr (take len (drop pos s)))"

text \<open>The closing test of \<^verbatim>\<open>push_substring\<close>, on both of its exits.\<close>

definition sr_finish :: "StreamReassembler \<Rightarrow> StreamReassembler" where
  "sr_finish r =
     (if sr_eof r \<and> sr_first_index r = sr_eof_index r
      then r\<lparr>sr_output := ByteStream_end_input (sr_output r), sr_eofed := True\<rparr>
      else r)"

text \<open>
  Where the candidate goes: \<open>(finish, merged, entries before it, entries from it on, bytes)\<close> after
  the look at the entry that starts at or before the candidate.
\<close>

definition sr_place ::
  "(sr_map \<Rightarrow> size_t) \<Rightarrow> size_t \<Rightarrow> size_t \<Rightarrow> size_t \<Rightarrow> BufferList \<Rightarrow> sr_map \<Rightarrow> size_t \<Rightarrow>
     (bool \<times> bool \<times> sr_map \<times> sr_map \<times> size_t) res" where
  "sr_place end_key index_c length_c end_index buf m bytes =
     (let (pre, from_it) = sr_lower_bound index_c m
      in if pre \<noteq> [] \<or> (from_it \<noteq> [] \<and> fst (hd from_it) = index_c) then
           let it_first = (case from_it of [] \<Rightarrow> end_key m | e # _ \<Rightarrow> fst e);
               (pre', from_it') =
                 (if index_c \<noteq> it_first then (butlast pre, last pre # from_it)
                  else (pre, from_it))
           in case from_it' of
                [] \<Rightarrow> Inl UndefinedBehaviour
              | (k, e, b) # rest \<Rightarrow>
                  if add64 e 1 \<ge> index_c then
                    if add64 (sub64 e index_c) 1 \<ge> length_c
                    then Inr (True, False, pre', from_it', bytes)
                    else
                      bind_res (BufferList_remove_prefix (add64 (sub64 e index_c) 1) buf)
                        (\<lambda>buf'. Inr (False, True, pre',
                                     (k, end_index, BufferList_append b buf') # rest,
                                     add64 bytes (BufferList_size buf')))
                  else Inr (False, False, pre', from_it', bytes)
         else Inr (False, False, pre, from_it, bytes))"

text \<open>\<^verbatim>\<open>std::map::insert\<close>: an entry with the same key stays as it is.\<close>

definition sr_insert :: "sr_entry \<Rightarrow> sr_map \<Rightarrow> sr_map \<times> sr_map" where
  "sr_insert x m =
     (let (pre, from_it) = sr_lower_bound (fst x) m
      in case from_it of
           [] \<Rightarrow> (pre, [x])
         | e # rest \<Rightarrow> if fst e = fst x then (pre, e # rest) else (pre, x # e # rest))"

text \<open>The loop over the entries behind the inserted or extended one.\<close>

fun sr_absorb ::
  "size_t \<Rightarrow> BufferList \<Rightarrow> sr_map \<Rightarrow> size_t \<Rightarrow> (size_t \<times> BufferList \<times> sr_map \<times> size_t) res" where
  "sr_absorb ins_end ins_buf [] bytes = Inr (ins_end, ins_buf, [], bytes)"
| "sr_absorb ins_end ins_buf ((k, e, b) # m) bytes =
     (if ins_end \<ge> e then sr_absorb ins_end ins_buf m (sub64 bytes (BufferList_size b))
      else if add64 ins_end 1 \<ge> k then
        bind_res (BufferList_remove_prefix (add64 (sub64 ins_end k) 1) b)
          (\<lambda>b'. Inr (e, BufferList_append ins_buf b', m,
                     sub64 bytes (add64 (sub64 ins_end k) 1)))
      else Inr (ins_end, ins_buf, (k, e, b) # m, bytes))"

text \<open>Writing the entry that starts at the first missing byte into the output.\<close>

definition sr_flush :: "sr_map \<Rightarrow> sr_entry \<Rightarrow> sr_map \<Rightarrow> StreamReassembler \<Rightarrow> StreamReassembler" where
  "sr_flush pre ins rest r =
     (let (k, e, b) = ins
      in if k = sr_first_index r then
           let seg_len = BufferList_size b
           in r\<lparr>sr_first_index := add64 (sr_first_index r) seg_len,
                sr_unassembled_bytes := sub64 (sr_unassembled_bytes r) seg_len,
                sr_output := snd (ByteStream_write (BufferList_concatenate b) (sr_output r)),
                sr_unassembled := pre @ rest\<rparr>
         else r\<lparr>sr_unassembled := pre @ ins # rest\<rparr>)"

definition sr_store ::
  "(sr_map \<Rightarrow> size_t) \<Rightarrow> size_t \<Rightarrow> size_t \<Rightarrow> size_t \<Rightarrow> BufferList \<Rightarrow> StreamReassembler \<Rightarrow>
     StreamReassembler res" where
  "sr_store end_key index_c length_c end_index buf r =
     bind_res (sr_place end_key index_c length_c end_index buf (sr_unassembled r)
                 (sr_unassembled_bytes r))
       (\<lambda>(fin, merged, pre, from_it, bytes).
          if fin then
            (case from_it of
               [] \<Rightarrow> Inl UndefinedBehaviour
             | ins # rest \<Rightarrow> Inr (sr_finish (sr_flush pre ins rest r)))
          else
            let (pre', from_it') =
                  (if merged then (pre, from_it)
                   else sr_insert (index_c, end_index, buf) (pre @ from_it));
                bytes' = (if merged then bytes else add64 bytes (BufferList_size buf))
            in case from_it' of
                 [] \<Rightarrow> Inl UndefinedBehaviour
               | (k, e, b) # rest \<Rightarrow>
                   bind_res (sr_absorb e b rest bytes')
                     (\<lambda>(e', b', rest', bytes'').
                        Inr (sr_finish (sr_flush pre' (k, e', b') rest'
                               (r\<lparr>sr_unassembled_bytes := bytes''\<rparr>)))))"

definition sr_mark_eof :: "bytes \<Rightarrow> size_t \<Rightarrow> bool \<Rightarrow> StreamReassembler \<Rightarrow> StreamReassembler" where
  "sr_mark_eof data index eof r =
     (if eof \<and> \<not> sr_eof r
      then r\<lparr>sr_eof := True, sr_eof_index := add64 index (length data)\<rparr> else r)"

definition push_substring ::
  "(sr_map \<Rightarrow> size_t) \<Rightarrow> bytes \<Rightarrow> size_t \<Rightarrow> bool \<Rightarrow> StreamReassembler \<Rightarrow> StreamReassembler res" where
  "push_substring end_key data index eof r =
     (if sr_eofed r then Inr r
      else
        let r1 = sr_mark_eof data index eof r;
            end_index = sub64 (add64 index (length data)) 1;
            max_acindex = add64 (sr_first_index r1) (ByteStream_remaining_capacity (sr_output r1))
        in if end_index < sr_first_index r1 \<or> index \<ge> max_acindex \<or> length data = 0
           then Inr (sr_finish r1)
           else
             let (index_c, offset, length_c) =
                   (if index < sr_first_index r1
                    then (sr_first_index r1, sub64 (sr_first_index r1) index,
                          sub64 (length data) (sub64 (sr_first_index r1) index))
                    else (index, 0, length data));
                 (length_c, end_index) =
                   (if add64 index_c length_c > max_acindex
                    then (sub64 max_acindex index_c,
                          sub64 (add64 index_c (sub64 max_acindex index_c)) 1)
                    else (length_c, end_index))
             in bind_res (string_substr data offset length_c)
                  (\<lambda>s. sr_store end_key index_c length_c end_index (BufferList_of_string s) r1))"

definition unassembled_bytes :: "StreamReassembler \<Rightarrow> size_t" where
  "unassembled_bytes r = sr_unassembled_bytes r"

definition StreamReassembler_empty :: "StreamReassembler \<Rightarrow> bool" where
  "StreamReassembler_empty r = (sr_unassembled_bytes r = 0)"

definition first_unassembled :: "StreamReassembler \<Rightarrow> size_t" where
  "first_unassembled r = sr_first_index r"

definition StreamReassembler_eof :: "StreamReassembler \<Rightarrow> bool" where
  "StreamReassembler_eof r = sr_eofed r"

section \<open>Excerpts of the logical stream\<close>

definition excerpt :: "bytes \<Rightarrow> size_t \<Rightarrow> size_t \<Rightarrow> bytes" where
  "excerpt S i n = take n (drop i S)"

definition sr_entry_ok :: "bytes \<Rightarrow> sr_entry \<Rightarrow> bool" where
  "sr_entry_ok S x \<longleftrightarrow>
     (case x of (k, e, b) \<Rightarrow>
        k \<le> e \<and> e < length S \<and> BufferList_wf b \<and>
        BufferList_concatenate b = excerpt S k (e + 1 - k))"

definition sr_gap :: "sr_entry \<Rightarrow> sr_entry \<Rightarrow> bool" where
  "sr_gap x y \<longleftrightarrow> fst (snd x) + 1 < fst y"

definition sr_map_ok :: "bytes \<Rightarrow> sr_map \<Rightarrow> bool" where
  "sr_map_ok S m \<longleftrightarrow> sorted_wrt sr_gap m \<and> (\<forall>x \<in> set m. sr_entry_ok S x)"

definition sr_cov :: "sr_map \<Rightarrow> nat set" where
  "sr_cov m = (\<Union>x \<in> set m. {fst x..fst (snd x)})"

definition sr_bytes :: "sr_map \<Rightarrow> nat" where
  "sr_bytes m = sum_list (map (\<lambda>x. BufferList_size (snd (snd x))) m)"

lemma sub64_succ:
  assumes "k \<le> e + 1" and "e + 1 < size_max"
  shows "add64 (sub64 e k) 1 = e + 1 - k"
proof (cases "k \<le> e")
  case True
  then show ?thesis using assms by (simp add: sub64_eq add64_eq)
next
  case False
  then have "k = e + 1" using assms by simp
  then show ?thesis using assms sub64_wrap [of e "e + 1"] by (simp add: add64_def)
qed

lemma excerpt_append: "excerpt S i n @ excerpt S (i + n) p = excerpt S i (n + p)"
  by (simp add: excerpt_def take_add add.commute)

lemma drop_excerpt: "drop j (excerpt S i n) = excerpt S (i + j) (n - j)"
  by (simp add: excerpt_def drop_take add.commute)

lemma length_excerpt: "i + n \<le> length S \<Longrightarrow> length (excerpt S i n) = n"
  by (simp add: excerpt_def)

lemma sr_entry_ok_size:
  "sr_entry_ok S (k, e, b) \<Longrightarrow> BufferList_size b = e + 1 - k"
  by (simp add: sr_entry_ok_def bufl.size_contents length_excerpt)

lemma sr_simps [simp]:
  "sr_cov [] = {}" "sr_cov (x # m) = {fst x..fst (snd x)} \<union> sr_cov m"
  "sr_cov (m @ m') = sr_cov m \<union> sr_cov m'"
  "sr_bytes [] = 0" "sr_bytes (x # m) = BufferList_size (snd (snd x)) + sr_bytes m"
  "sr_bytes (m @ m') = sr_bytes m + sr_bytes m'"
  "sr_map_ok S []"
  by (auto simp: sr_cov_def sr_bytes_def sr_map_ok_def)

lemma sr_map_ok_Cons:
  "sr_map_ok S (x # m) \<longleftrightarrow> sr_entry_ok S x \<and> (\<forall>y \<in> set m. sr_gap x y) \<and> sr_map_ok S m"
  by (auto simp: sr_map_ok_def)

lemma sr_map_ok_append:
  "sr_map_ok S (p @ q) \<longleftrightarrow> sr_map_ok S p \<and> sr_map_ok S q \<and> (\<forall>x \<in> set p. \<forall>y \<in> set q. sr_gap x y)"
  by (auto simp: sr_map_ok_def sorted_wrt_append)

text \<open>Extending one entry by the tail of another one that it touches.\<close>

lemma sr_entry_extend:
  assumes "sr_entry_ok S (k, e, b)" and "sr_entry_ok S (k', e', b')"
    and "k \<le> k'" and "k' \<le> e + 1" and "e < e'" and "length S < size_max"
  shows "\<exists>c. BufferList_remove_prefix (add64 (sub64 e k') 1) b' = Inr c \<and>
    sr_entry_ok S (k, e', BufferList_append b c) \<and> BufferList_size c = e' - e"
proof -
  have olap: "add64 (sub64 e k') 1 = e + 1 - k'"
    using assms by (intro sub64_succ) (auto simp: sr_entry_ok_def)
  have wf: "BufferList_wf b'" and size: "BufferList_size b' = e' + 1 - k'"
    using assms(2) sr_entry_ok_size by (auto simp: sr_entry_ok_def)
  have le: "e + 1 - k' \<le> BufferList_size b'"
    using size assms(3-5) by simp
  obtain c where c: "BufferList_remove_prefix (e + 1 - k') b' = Inr c" "BufferList_wf c"
    "BufferList_concatenate c = drop (e + 1 - k') (BufferList_concatenate b')"
    "BufferList_size c = BufferList_size b' - (e + 1 - k')"
    by (rule bufl.remove_prefixE [OF wf le])
  have "BufferList_concatenate c = excerpt S (e + 1) (e' - e)"
    using c(3) assms by (simp add: sr_entry_ok_def drop_excerpt)
  then have "BufferList_concatenate (BufferList_append b c) = excerpt S k (e' + 1 - k)"
    using assms excerpt_append [of S k "e + 1 - k" "e' - e"] by (simp add: sr_entry_ok_def)
  then show ?thesis
    using c olap size assms by (auto simp: sr_entry_ok_def)
qed

lemma sr_absorb_ok:
  assumes "sr_entry_ok S (k, e, b)" and "sr_map_ok S m" and "\<forall>x \<in> set m. k < fst x"
    and "length S < size_max" and "bytes = R + BufferList_size b + sr_bytes m" and "bytes < size_max"
  shows "\<exists>e' b' m' bytes'. sr_absorb e b m bytes = Inr (e', b', m', bytes') \<and>
    sr_entry_ok S (k, e', b') \<and> sr_map_ok S m' \<and> (\<forall>x \<in> set m'. e' + 1 < fst x) \<and>
    {k..e'} \<union> sr_cov m' = {k..e} \<union> sr_cov m \<and>
    bytes' = R + BufferList_size b' + sr_bytes m'"
  using assms
proof (induction m arbitrary: bytes)
  case Nil
  then show ?case by simp
next
  case (Cons x m)
  obtain k2 e2 b2 where x: "x = (k2, e2, b2)"
    by (cases x)
  have ok2: "sr_entry_ok S (k2, e2, b2)" and gap: "\<forall>y \<in> set m. e2 + 1 < fst y" and okm: "sr_map_ok S m"
    and k2: "k < k2"
    using Cons.prems by (auto simp: x sr_map_ok_Cons sr_gap_def)
  consider "e2 \<le> e" | "e < e2" "k2 \<le> e + 1" | "e < e2" "e + 1 < k2"
    by linarith
  then show ?case
  proof cases
    case 1
    have "sub64 bytes (BufferList_size b2) = R + BufferList_size b + sr_bytes m"
      using Cons.prems by (simp add: x sub64_eq)
    then have "\<exists>e' b' m' bytes'. sr_absorb e b m (sub64 bytes (BufferList_size b2)) =
        Inr (e', b', m', bytes') \<and>
      sr_entry_ok S (k, e', b') \<and> sr_map_ok S m' \<and> (\<forall>x \<in> set m'. e' + 1 < fst x) \<and>
      {k..e'} \<union> sr_cov m' = {k..e} \<union> sr_cov m \<and>
      bytes' = R + BufferList_size b' + sr_bytes m'"
      using Cons.prems okm by (intro Cons.IH) (auto simp: x)
    moreover have "{k..e} \<union> sr_cov (x # m) = {k..e} \<union> sr_cov m"
      using 1 k2 by (auto simp: x)
    ultimately show ?thesis
      using 1 by (simp add: x)
  next
    case 2
    obtain c where c: "BufferList_remove_prefix (add64 (sub64 e k2) 1) b2 = Inr c"
      "sr_entry_ok S (k, e2, BufferList_append b c)" "BufferList_size c = e2 - e"
      using sr_entry_extend [OF Cons.prems(1) ok2 _ _ _ Cons.prems(4)] 2 k2 by auto
    have olap: "add64 (sub64 e k2) 1 = e + 1 - k2"
      using 2 ok2 Cons.prems(4) by (intro sub64_succ) (auto simp: sr_entry_ok_def)
    have "add64 e 1 = e + 1"
      using 2 ok2 Cons.prems(4) by (intro add64_eq) (auto simp: sr_entry_ok_def)
    moreover have "{k..e2} \<union> sr_cov m = {k..e} \<union> sr_cov (x # m)"
      using 2 k2 by (auto simp: x)
    moreover have "sub64 bytes (e + 1 - k2) = R + BufferList_size (BufferList_append b c) + sr_bytes m"
      using Cons.prems 2 sr_entry_ok_size [OF ok2] c(3) by (simp add: x sub64_eq bufl.size_contents)
    ultimately show ?thesis
      using 2 c okm gap olap by (auto simp: x)
  next
    case 3
    have "add64 e 1 = e + 1"
      using 3 ok2 Cons.prems(4) by (intro add64_eq) (auto simp: sr_entry_ok_def)
    then show ?thesis
      using 3 Cons.prems gap ok2 by (auto simp: x sr_entry_ok_def)
  qed
qed

lemma sr_map_ok_sorted: "sr_map_ok S m \<Longrightarrow> sorted (map fst m)"
  by (induction m) (fastforce simp: sr_map_ok_Cons sr_gap_def sr_entry_ok_def)+

lemma sr_lower_bound_split:
  assumes "sr_map_ok S m" and "sr_lower_bound k m = (p, q)"
  shows "m = p @ q" and "\<forall>x \<in> set p. fst x < k" and "\<forall>x \<in> set q. k \<le> fst x"
proof -
  show "m = p @ q" and "\<forall>x \<in> set p. fst x < k"
    using assms(2) by (auto simp: sr_lower_bound_def dest: set_takeWhileD)
  show "\<forall>x \<in> set q. k \<le> fst x"
  proof (cases q)
    case (Cons y ys)
    then have "\<not> fst y < k"
      using assms(2) hd_dropWhile [of "\<lambda>e. fst e < k" m] by (auto simp: sr_lower_bound_def)
    moreover have "sorted (map fst q)"
      using sr_map_ok_sorted [OF assms(1)] \<open>m = p @ q\<close> by (simp add: sorted_append)
    ultimately show ?thesis
      using Cons by auto
  qed simp
qed

text \<open>The candidate's place among the stored entries.\<close>

definition sr_seated ::
  "bytes \<Rightarrow> sr_map \<Rightarrow> nat \<Rightarrow> nat \<Rightarrow> sr_map \<Rightarrow> size_t \<Rightarrow> BufferList \<Rightarrow> sr_map \<Rightarrow> bool" where
  "sr_seated S m i e p k b q \<longleftrightarrow>
     sr_entry_ok S (k, e, b) \<and> sr_map_ok S p \<and> sr_map_ok S q \<and>
     (\<forall>x \<in> set p. fst (snd x) + 1 < k) \<and> (\<forall>x \<in> set q. k < fst x) \<and>
     (\<forall>x \<in> set p. \<forall>y \<in> set q. sr_gap x y) \<and> k \<le> i \<and>
     sr_cov p \<union> {k..e} \<union> sr_cov q = sr_cov m \<union> {i..e} \<and> set p \<subseteq> set m \<and> set q \<subseteq> set m \<and>
     (k = i \<or> k \<in> fst ` set m)"

text \<open>The entry \<^verbatim>\<open>push_substring\<close> compares the candidate with, if it looks at one.\<close>

lemma sr_place_cursor:
  assumes m: "sr_map_ok S m" and split: "sr_lower_bound i m = (pre, from_it)"
    and look: "pre \<noteq> [] \<or> (from_it \<noteq> [] \<and> fst (hd from_it) = i)"
    and key: "m \<noteq> [] \<and> (\<forall>x \<in> set m. fst x < i) \<longrightarrow> end_key m \<noteq> i"
  obtains p k e' b q where "m = p @ (k, e', b) # q" and "k \<le> i" and "\<forall>x \<in> set q. i < fst x"
    and "k = i \<or> pre = p @ [(k, e', b)] \<and> from_it = q"
    and "sr_place end_key i l e buf m bytes =
      (if add64 e' 1 \<ge> i then
         if add64 (sub64 e' i) 1 \<ge> l then Inr (True, False, p, (k, e', b) # q, bytes)
         else bind_res (BufferList_remove_prefix (add64 (sub64 e' i) 1) buf)
                (\<lambda>c. Inr (False, True, p, (k, e, BufferList_append b c) # q,
                          add64 bytes (BufferList_size c)))
       else Inr (False, False, p, (k, e', b) # q, bytes))"
proof -
  note sp = sr_lower_bound_split [OF m split]
  show thesis
  proof (cases "from_it \<noteq> [] \<and> fst (hd from_it) = i")
    case True
    then obtain e' b q where f: "from_it = (i, e', b) # q"
      by (cases from_it) auto
    have gt: "\<forall>x \<in> set q. i < fst x"
      using m by (fastforce simp: sp(1) f sr_map_ok_append sr_map_ok_Cons sr_gap_def sr_entry_ok_def)
    show thesis
    proof (rule that [of pre i e' b q])
      show "m = pre @ (i, e', b) # q"
        using sp(1) f by simp
      show "\<forall>x \<in> set q. i < fst x"
        by fact
    qed (simp_all add: sr_place_def split f)
  next
    case False
    then obtain p k e' b where pre: "pre = p @ [(k, e', b)]"
      using look by (cases pre rule: rev_cases) auto
    have ne: "i \<noteq> (case from_it of [] \<Rightarrow> end_key m | e # _ \<Rightarrow> fst e)"
      using False key sp pre by (cases from_it) auto
    have gt: "\<forall>x \<in> set from_it. i < fst x"
    proof (cases from_it)
      case (Cons y ys)
      then have "i < fst y"
        using False sp(3) by auto
      moreover have "sorted (map fst from_it)"
        using sr_map_ok_sorted [OF m] sp(1) by (simp add: sorted_append)
      ultimately show ?thesis
        using Cons by auto
    qed simp
    show thesis
    proof (rule that [of p k e' b from_it])
      show "m = p @ (k, e', b) # from_it"
        using sp(1) pre by simp
      show "k \<le> i"
        using sp(2) pre by auto
      show "\<forall>x \<in> set from_it. i < fst x"
        by fact
    qed (use ne in \<open>simp_all add: sr_place_def split pre\<close>)
  qed
qed

lemma sr_place_cases:
  assumes m: "sr_map_ok S m" and cand: "sr_entry_ok S (i, e, buf)" and len: "e + 1 = i + l"
    and key: "m \<noteq> [] \<and> (\<forall>x \<in> set m. fst x < i) \<longrightarrow> end_key m \<noteq> i" and S: "length S < size_max"
    and bytes: "bytes = sr_bytes m" "sr_bytes m + BufferList_size buf < size_max"
  obtains (covered) p k e' b q where "sr_place end_key i l e buf m bytes =
        Inr (True, False, p, (k, e', b) # q, bytes)"
      and "m = p @ (k, e', b) # q" and "k \<le> i" and "e \<le> e'"
  | (merged) p k b q where "sr_place end_key i l e buf m bytes =
        Inr (False, True, p, (k, e, b) # q, sr_bytes p + BufferList_size b + sr_bytes q)"
      and "sr_seated S m i e p k b q"
  | (apart) p q p' q' where "sr_place end_key i l e buf m bytes = Inr (False, False, p, q, bytes)"
      and "p @ q = m" and "sr_lower_bound i m = (p', q')" and "sr_seated S m i e p' i buf q'"
      and "\<forall>x \<in> set q'. i < fst x"
proof -
  obtain pre from_it where split: "sr_lower_bound i m = (pre, from_it)"
    by (cases "sr_lower_bound i m")
  note sp = sr_lower_bound_split [OF m split]
  show thesis
  proof (cases "pre \<noteq> [] \<or> (from_it \<noteq> [] \<and> fst (hd from_it) = i)")
    case False
    then have pre: "pre = []"
      by simp
    have gt: "\<forall>x \<in> set from_it. i < fst x"
    proof (cases from_it)
      case (Cons y ys)
      then have "i < fst y"
        using False sp(3) by auto
      moreover have "sorted (map fst from_it)"
        using sr_map_ok_sorted [OF m] sp(1) by (simp add: sorted_append)
      ultimately show ?thesis
        using Cons by auto
    qed simp
    have seated: "sr_seated S m i e pre i buf from_it"
      using cand m gt by (auto simp: sr_seated_def pre sp(1))
    show thesis
    proof (rule apart [of pre from_it pre from_it])
      show "sr_place end_key i l e buf m bytes = Inr (False, False, pre, from_it, bytes)"
        by (simp only: sr_place_def split Let_def prod.case if_not_P [OF False])
      show "pre @ from_it = m"
        by (rule sp(1) [symmetric])
    qed (fact split seated gt)+
  next
    case True
    obtain p k e' b q where cur: "m = p @ (k, e', b) # q" "k \<le> i" "\<forall>x \<in> set q. i < fst x"
      "k = i \<or> pre = p @ [(k, e', b)] \<and> from_it = q"
      "sr_place end_key i l e buf m bytes =
        (if add64 e' 1 \<ge> i then
           if add64 (sub64 e' i) 1 \<ge> l then Inr (True, False, p, (k, e', b) # q, bytes)
           else bind_res (BufferList_remove_prefix (add64 (sub64 e' i) 1) buf)
                  (\<lambda>c. Inr (False, True, p, (k, e, BufferList_append b c) # q,
                            add64 bytes (BufferList_size c)))
         else Inr (False, False, p, (k, e', b) # q, bytes))"
      by (rule sr_place_cursor [where end_key = end_key, OF m split True key])
    have okc: "sr_entry_ok S (k, e', b)" and okp: "sr_map_ok S p" and okq: "sr_map_ok S q"
      and gp: "\<forall>x \<in> set p. fst (snd x) + 1 < k" and gpq: "\<forall>x \<in> set p. \<forall>y \<in> set q. sr_gap x y"
      using m by (auto simp: cur(1) sr_map_ok_append sr_map_ok_Cons sr_gap_def)
    have e1: "add64 e' 1 = e' + 1"
      using okc S by (intro add64_eq) (auto simp: sr_entry_ok_def)
    consider "i \<le> e' + 1" "e \<le> e'" | "i \<le> e' + 1" "e' < e" | "e' + 1 < i"
      by linarith
    then show thesis
    proof cases
      case 1
      then have "add64 (sub64 e' i) 1 = e' + 1 - i"
        using okc S by (intro sub64_succ) (auto simp: sr_entry_ok_def)
      then show thesis
        using 1 len cur(1,2,5) e1 by (intro covered) auto
    next
      case 2
      then have olap: "add64 (sub64 e' i) 1 = e' + 1 - i"
        using okc S by (intro sub64_succ) (auto simp: sr_entry_ok_def)
      obtain c where c: "BufferList_remove_prefix (add64 (sub64 e' i) 1) buf = Inr c"
        "sr_entry_ok S (k, e, BufferList_append b c)" "BufferList_size c = e - e'"
        using sr_entry_extend [OF okc cand cur(2) 2 S] by blast
      have "{k..e} = {k..e'} \<union> {i..e}"
        using 2 cur(2) okc by (auto simp: sr_entry_ok_def)
      then have cov: "sr_cov p \<union> {k..e} \<union> sr_cov q = sr_cov m \<union> {i..e}"
        by (auto simp: cur(1))
      have "\<forall>x \<in> set q. k < fst x"
        using cur(2,3) by auto
      then have seated: "sr_seated S m i e p k (BufferList_append b c) q"
        unfolding sr_seated_def using c(2) okp okq gp gpq cur(2) cov by (simp add: cur(1)) blast
      have "add64 bytes (BufferList_size c) =
          sr_bytes p + BufferList_size (BufferList_append b c) + sr_bytes q"
        using bytes c(3) cand sr_entry_ok_size [OF cand] 2
        by (simp add: cur(1) add64_eq bufl.size_contents)
      then show thesis
        using 2 len seated cur(5) c(1) olap e1 by (intro merged) auto
    next
      case 3
      then have "pre = p @ [(k, e', b)]" and "from_it = q"
        using cur(4) okc by (auto simp: sr_entry_ok_def)
      moreover have "sr_seated S m i e pre i buf from_it"
        using m cand 3 gp cur(2,3) okc calculation
        by (fastforce simp: sr_seated_def cur(1) sr_map_ok_append sr_map_ok_Cons sr_entry_ok_def sr_gap_def)
      ultimately show thesis
        using 3 cur e1 split by (intro apart [of p "(k, e', b) # q" pre from_it]) auto
    qed
  qed
qed

section \<open>The invariant\<close>

text \<open>
  \<open>S\<close> is the logical stream the pushed substrings are excerpts of. The bytes from the first buffered
  one to the first missing one are in the output; the stored entries are excerpts of \<open>S\<close> in the
  window, in order, with a gap between any two of them and behind the first missing byte.
\<close>

definition sr_window_end :: "StreamReassembler \<Rightarrow> nat" where
  "sr_window_end r = sr_first_index r + (sr_capacity r - length (ByteStream_contents (sr_output r)))"

definition sr_out_ok :: "bytes \<Rightarrow> StreamReassembler \<Rightarrow> bool" where
  "sr_out_ok S r \<longleftrightarrow>
     ByteStream_wf (sr_output r) \<and> bs_capacity (sr_output r) = sr_capacity r \<and>
     2 * length S + sr_capacity r < size_max \<and> sr_first_index r \<le> length S \<and>
     length (ByteStream_contents (sr_output r)) \<le> sr_first_index r \<and>
     excerpt S (sr_first_index r - length (ByteStream_contents (sr_output r)))
       (length (ByteStream_contents (sr_output r))) = ByteStream_contents (sr_output r) \<and>
     bs_write_count (sr_output r) = sr_first_index r \<and>
     (sr_eof r \<longrightarrow> sr_eof_index r = length S) \<and>
     (sr_eofed r \<longrightarrow> sr_eof r \<and> sr_first_index r = length S) \<and>
     ByteStream_input_ended (sr_output r) = sr_eofed r"

definition sr_map_in :: "bytes \<Rightarrow> StreamReassembler \<Rightarrow> sr_map \<Rightarrow> bool" where
  "sr_map_in S r m \<longleftrightarrow>
     sr_map_ok S m \<and> (\<forall>x \<in> set m. sr_first_index r < fst x \<and> fst (snd x) < sr_window_end r)"

definition sr_inv0 :: "bytes \<Rightarrow> StreamReassembler \<Rightarrow> bool" where
  "sr_inv0 S r \<longleftrightarrow>
     sr_out_ok S r \<and> sr_map_in S r (sr_unassembled r) \<and>
     sr_unassembled_bytes r = sr_bytes (sr_unassembled r)"

definition sr_inv :: "bytes \<Rightarrow> StreamReassembler \<Rightarrow> bool" where
  "sr_inv S r \<longleftrightarrow> sr_inv0 S r \<and> (sr_eof r \<and> sr_first_index r = length S \<longrightarrow> sr_eofed r)"

definition sr_received :: "StreamReassembler \<Rightarrow> nat set" where
  "sr_received r = {..<sr_first_index r} \<union> sr_cov (sr_unassembled r)"

text \<open>Index of the oldest byte still buffered in the output: what the reader has consumed.\<close>

definition sr_consumed :: "StreamReassembler \<Rightarrow> nat" where
  "sr_consumed r = sr_first_index r - length (ByteStream_contents (sr_output r))"

lemma sr_finish_inv:
  assumes "sr_inv0 S r"
  shows "sr_inv S (sr_finish r)" and "sr_received (sr_finish r) = sr_received r"
    and "sr_consumed (sr_finish r) = sr_consumed r"
    and "sr_first_index (sr_finish r) = sr_first_index r"
    and "sr_eof (sr_finish r) = sr_eof r"
  using assms
  by (auto simp: sr_finish_def sr_inv_def sr_inv0_def sr_out_ok_def sr_map_in_def sr_window_end_def
      sr_received_def sr_consumed_def ByteStream_end_input_def ByteStream_wf_def ByteStream_contents_def
      ByteStream_input_ended_def)

lemma sr_bytes_card: "sr_map_ok S m \<Longrightarrow> sr_bytes m = card (sr_cov m)"
proof (induction m)
  case (Cons x m)
  obtain k e b where x: "x = (k, e, b)"
    by (cases x)
  have ok: "sr_entry_ok S (k, e, b)" and gap: "\<forall>y \<in> set m. e + 1 < fst y" and m: "sr_map_ok S m"
    using Cons.prems by (auto simp: x sr_map_ok_Cons sr_gap_def)
  have "{k..e} \<inter> sr_cov m = {}"
    using gap by (fastforce simp: sr_cov_def)
  moreover have "finite (sr_cov m)"
    by (simp add: sr_cov_def)
  ultimately show ?case
    using Cons.IH [OF m] sr_entry_ok_size [OF ok] by (simp add: x card_Un_disjoint)
qed simp

lemma sr_bytes_le:
  assumes "sr_map_ok S m"
  shows "sr_bytes m \<le> length S"
proof -
  have "sr_cov m \<subseteq> {..<length S}"
    using assms by (fastforce simp: sr_cov_def sr_map_ok_def sr_entry_ok_def)
  from card_mono [OF _ this] show ?thesis
    by (simp add: sr_bytes_card [OF assms])
qed

lemma sr_flush_ok:
  assumes out: "sr_out_ok S r" and eofed: "\<not> sr_eofed r" and p: "sr_map_in S r p" and q: "sr_map_in S r q"
    and ent: "sr_entry_ok S (k, e, b)" and k: "sr_first_index r \<le> k" and e: "e < sr_window_end r"
    and gp: "\<forall>x \<in> set p. fst (snd x) + 1 < k" and gq: "\<forall>x \<in> set q. e + 1 < fst x"
    and bytes: "sr_unassembled_bytes r = sr_bytes p + BufferList_size b + sr_bytes q"
       "sr_unassembled_bytes r < size_max"
  shows "sr_inv0 S (sr_flush p (k, e, b) q r) \<and>
    sr_received (sr_flush p (k, e, b) q r) =
      {..<sr_first_index r} \<union> sr_cov p \<union> {k..e} \<union> sr_cov q \<and>
    sr_consumed (sr_flush p (k, e, b) q r) = sr_consumed r \<and>
    sr_eof (sr_flush p (k, e, b) q r) = sr_eof r"
proof (cases "k = sr_first_index r")
  case False
  have "sr_map_ok S (p @ (k, e, b) # q)"
    using p q ent gp gq
    by (fastforce simp: sr_map_in_def sr_map_ok_append sr_map_ok_Cons sr_gap_def sr_entry_ok_def)
  then show ?thesis
    using False assms
    by (auto simp: sr_flush_def sr_inv0_def sr_out_ok_def sr_map_in_def sr_window_end_def
        sr_received_def sr_consumed_def)
next
  case True
  let ?out = "sr_output r" and ?f = "sr_first_index r" and ?d = "BufferList_concatenate b"
  have p0: "p = []"
    using p gp True ent by (cases p) (fastforce simp: sr_map_in_def sr_map_ok_Cons sr_entry_ok_def)+
  have wf: "ByteStream_wf ?out" and cap: "bs_capacity ?out = sr_capacity r"
    and S: "2 * length S + sr_capacity r < size_max"
    using out by (simp_all add: sr_out_ok_def)
  have d: "?d = excerpt S ?f (e + 1 - ?f)" and le: "?f \<le> e" "e < length S"
    using ent True by (auto simp: sr_entry_ok_def)
  have size: "BufferList_size b = e + 1 - ?f"
    using sr_entry_ok_size [OF ent] True by simp
  then have ld: "length ?d = e + 1 - ?f"
    by (simp add: bufl.size_contents)
  obtain n out' where w: "ByteStream_write ?d ?out = (n, out')"
    by (cases "ByteStream_write ?d ?out")
  have fits: "length ?d \<le> bs_capacity ?out - length (ByteStream_contents ?out)"
    using e le ld cap by (simp add: sr_window_end_def)
  have out': "ByteStream_wf out'" "bs_capacity out' = sr_capacity r"
    "ByteStream_contents out' = ByteStream_contents ?out @ ?d" "n = length ?d"
    using pipe.push_law [OF wf w] pipe.push_fits [OF wf fits w] cap by auto
  have wc: "bs_write_count out' = add64 (bs_write_count ?out) n"
    using w by (auto simp: ByteStream_write_def Let_def)
  have flags: "ByteStream_input_ended out' = ByteStream_input_ended ?out"
    using ByteStream_write_flags [OF w] by (simp add: ByteStream_input_ended_def)
  define r' where "r' = sr_flush p (k, e, b) q r"
  have first: "sr_first_index r' = e + 1"
    using True le S by (simp add: r'_def sr_flush_def size Let_def add64_eq)
  have r': "sr_output r' = out'" "sr_unassembled r' = q" "sr_capacity r' = sr_capacity r"
    "sr_eof r' = sr_eof r" "sr_eofed r' = sr_eofed r" "sr_eof_index r' = sr_eof_index r"
    "sr_unassembled_bytes r' = sr_bytes q"
    using True w bytes by (simp_all add: r'_def sr_flush_def Let_def p0 sub64_eq)
  let ?c = "length (ByteStream_contents ?out)"
  have lc: "?c \<le> ?f" "ByteStream_contents ?out = excerpt S (?f - ?c) ?c"
    using out by (simp_all add: sr_out_ok_def)
  have "ByteStream_contents out' = excerpt S (?f - ?c) (?c + (e + 1 - ?f))"
    using lc out'(3) d excerpt_append [of S "?f - ?c" ?c "e + 1 - ?f"] by simp
  moreover have len': "length (ByteStream_contents out') = ?c + (e + 1 - ?f)"
    using out'(3) ld by simp
  moreover have cons: "e + 1 - (?c + (e + 1 - ?f)) = ?f - ?c"
    using le lc(1) by simp
  ultimately have "sr_out_ok S r'"
    using out eofed out' wc flags le lc(1) ld S
    by (simp add: sr_out_ok_def r' first add64_eq)
  moreover have win: "sr_window_end r' = sr_window_end r"
    using fits ld le cap by (simp add: sr_window_end_def r' first len')
  moreover have "sr_map_in S r' q"
    using q gq win by (auto simp: sr_map_in_def first)
  moreover have "sr_received r' = {..<?f} \<union> sr_cov p \<union> {k..e} \<union> sr_cov q"
    using True le by (auto simp: sr_received_def r' first p0)
  moreover have "sr_consumed r' = sr_consumed r"
    using cons by (simp add: sr_consumed_def r' first len')
  ultimately show ?thesis
    unfolding r'_def [symmetric] by (simp add: sr_inv0_def r')
qed

lemma sr_store_ok:
  assumes inv: "sr_inv0 S r" and eofed: "\<not> sr_eofed r" and cand: "sr_entry_ok S (i, e, buf)"
    and len: "e + 1 = i + l" and i: "sr_first_index r \<le> i" and e: "e < sr_window_end r"
    and key: "sr_unassembled r \<noteq> [] \<and> (\<forall>x \<in> set (sr_unassembled r). fst x < i) \<longrightarrow>
      end_key (sr_unassembled r) \<noteq> i"
  shows "\<exists>r'. sr_store end_key i l e buf r = Inr r' \<and> sr_inv S r' \<and>
    sr_received r' = sr_received r \<union> {i..e} \<and> sr_consumed r' = sr_consumed r \<and>
    sr_eof r' = sr_eof r"
proof -
  let ?m = "sr_unassembled r" and ?n = "sr_unassembled_bytes r"
  have out: "sr_out_ok S r" and m_in: "sr_map_in S r ?m" and n: "?n = sr_bytes ?m"
    using inv by (simp_all add: sr_inv0_def)
  have m: "sr_map_ok S ?m"
    using m_in by (simp add: sr_map_in_def)
  have S: "2 * length S < size_max"
    using out by (simp add: sr_out_ok_def)
  then have S1: "length S < size_max"
    by simp
  have total: "sr_bytes ?m + BufferList_size buf < size_max"
    using sr_bytes_le [OF m] sr_entry_ok_size [OF cand] cand S by (auto simp: sr_entry_ok_def)
  have finish: "\<exists>r'. bind_res (sr_absorb e b q (sr_bytes p + BufferList_size b + sr_bytes q))
        (\<lambda>(e', b', q', n'). Inr (sr_finish (sr_flush p (k, e', b') q'
            (r\<lparr>sr_unassembled_bytes := n'\<rparr>)))) = Inr r' \<and> sr_inv S r' \<and>
      sr_received r' = sr_received r \<union> {i..e} \<and> sr_consumed r' = sr_consumed r \<and>
      sr_eof r' = sr_eof r"
    if seat: "sr_seated S ?m i e p k b q" for p k b q
  proof -
    have ent: "sr_entry_ok S (k, e, b)" and p: "sr_map_ok S p" and q: "sr_map_ok S q"
      and gp: "\<forall>x \<in> set p. fst (snd x) + 1 < k" and gq: "\<forall>x \<in> set q. k < fst x"
      and cov: "sr_cov p \<union> {k..e} \<union> sr_cov q = sr_cov ?m \<union> {i..e}"
      and sub: "set p \<subseteq> set ?m" "set q \<subseteq> set ?m" and ki: "k = i \<or> k \<in> fst ` set ?m"
      using seat by (simp_all add: sr_seated_def)
    have keys: "\<forall>x \<in> set ?m. sr_first_index r < fst x \<and> fst (snd x) < sr_window_end r"
      using m_in by (simp add: sr_map_in_def)
    have k: "sr_first_index r \<le> k"
      using ki i keys by auto
    have size: "BufferList_size b \<le> length S" "sr_bytes p + sr_bytes q \<le> length S"
      using sr_entry_ok_size [OF ent] ent sr_bytes_le [of S "p @ q"] seat p q
      by (auto simp: sr_entry_ok_def sr_seated_def sr_map_ok_append)
    obtain e' b' q' n' where ab:
      "sr_absorb e b q (sr_bytes p + BufferList_size b + sr_bytes q) = Inr (e', b', q', n')"
      "sr_entry_ok S (k, e', b')" "sr_map_ok S q'" "\<forall>x \<in> set q'. e' + 1 < fst x"
      "{k..e'} \<union> sr_cov q' = {k..e} \<union> sr_cov q"
      "n' = sr_bytes p + BufferList_size b' + sr_bytes q'"
      using sr_absorb_ok [OF ent q gq, of _ "sr_bytes p"] S size by fastforce
    have win: "x < sr_window_end r" if "x \<in> {k..e} \<union> sr_cov q" for x
      using that e keys sub(2) by (force simp: sr_cov_def)
    have e': "e' < sr_window_end r"
    proof -
      have "e' \<in> {k..e'} \<union> sr_cov q'"
        using ab(2) by (simp add: sr_entry_ok_def)
      then show ?thesis
        unfolding ab(5) by (rule win)
    qed
    have q': "sr_map_in S r q'"
    proof -
      have "fst (snd x) < sr_window_end r \<and> sr_first_index r < fst x" if x: "x \<in> set q'" for x
      proof -
        have "fst x \<le> fst (snd x)"
          using ab(3) x by (auto simp: sr_map_ok_def sr_entry_ok_def)
        then have "fst (snd x) \<in> sr_cov q'"
          using x by (auto simp: sr_cov_def)
        then show ?thesis
          using win ab(2,4,5) x k by (fastforce simp: sr_entry_ok_def)
      qed
      then show ?thesis
        using ab(3) by (simp add: sr_map_in_def)
    qed
    have size': "BufferList_size b' \<le> length S" "sr_bytes p + sr_bytes q' \<le> length S"
    proof -
      have "sr_map_ok S (p @ q')"
        using p ab(2-4) gp by (fastforce simp: sr_map_ok_append sr_gap_def sr_entry_ok_def)
      from sr_bytes_le [OF this] show "sr_bytes p + sr_bytes q' \<le> length S"
        by simp
      show "BufferList_size b' \<le> length S"
        using sr_entry_ok_size [OF ab(2)] ab(2) by (auto simp: sr_entry_ok_def)
    qed
    let ?r = "r\<lparr>sr_unassembled_bytes := n'\<rparr>"
    have same: "sr_out_ok S ?r" "sr_map_in S ?r x = sr_map_in S r x" "sr_window_end ?r = sr_window_end r"
      "sr_consumed ?r = sr_consumed r" for x
      using out by (simp_all add: sr_out_ok_def sr_map_in_def sr_window_end_def sr_consumed_def)
    have p_in: "sr_map_in S r p"
      using p sub(1) keys by (auto simp: sr_map_in_def)
    have fl: "sr_inv0 S (sr_flush p (k, e', b') q' ?r) \<and>
        sr_received (sr_flush p (k, e', b') q' ?r) =
          {..<sr_first_index r} \<union> sr_cov p \<union> {k..e'} \<union> sr_cov q' \<and>
        sr_consumed (sr_flush p (k, e', b') q' ?r) = sr_consumed r \<and>
        sr_eof (sr_flush p (k, e', b') q' ?r) = sr_eof r"
      using sr_flush_ok [of S ?r p q' k e' b'] same p_in q' ab(2,4,6) e' k gp eofed size' S
      by simp
    have "{..<sr_first_index r} \<union> sr_cov p \<union> {k..e'} \<union> sr_cov q' = sr_received r \<union> {i..e}"
      using ab(5) cov by (auto simp: sr_received_def)
    then show ?thesis
      using fl sr_finish_inv [of S "sr_flush p (k, e', b') q' ?r"] by (simp add: ab(1))
  qed
  from m cand len key S1 n total show ?thesis
  proof (cases rule: sr_place_cases [consumes 7])
    case (covered p k e' b q)
    have kgt: "sr_first_index r < k"
      using m_in by (simp add: covered(2) sr_map_in_def)
    then have "sr_flush p (k, e', b) q r = r"
      by (simp add: sr_flush_def covered(2) [symmetric])
    moreover have "{i..e} \<subseteq> sr_cov ?m"
      using covered by auto
    ultimately show ?thesis
      using covered(1) sr_finish_inv [OF inv] by (auto simp: sr_store_def sr_received_def)
  next
    case (merged p k b q)
    then show ?thesis using finish [OF merged(2)] by (simp add: sr_store_def)
  next
    case (apart p q p' q')
    have "sr_insert (i, e, buf) ?m = (p', (i, e, buf) # q')"
      using apart(3,5) by (auto simp: sr_insert_def split: list.splits)
    moreover have "add64 ?n (BufferList_size buf) = sr_bytes p' + BufferList_size buf + sr_bytes q'"
      using n total sr_lower_bound_split(1) [OF m apart(3)] by (simp add: add64_eq)
    ultimately show ?thesis
      using finish [OF apart(4)] by (simp add: sr_store_def apart(1,2))
  qed
qed

section \<open>Pushing an excerpt\<close>

definition end_key_ok :: "(sr_map \<Rightarrow> size_t) \<Rightarrow> bool" where
  "end_key_ok f \<longleftrightarrow>
     (\<forall>m i. m \<noteq> [] \<and> distinct (map fst m) \<and> (\<forall>x \<in> set m. 0 < fst x \<and> fst x < i) \<longrightarrow> f m \<noteq> i)"

definition sr_excerpt_at :: "bytes \<Rightarrow> bytes \<Rightarrow> size_t \<Rightarrow> bool \<Rightarrow> bool" where
  "sr_excerpt_at S data index eof \<longleftrightarrow>
     index + length data \<le> length S \<and> excerpt S index (length data) = data \<and>
     (eof \<longrightarrow> index + length data = length S)"

text \<open>An empty substring without an end mark may carry any index.\<close>

definition sr_push_ok :: "bytes \<Rightarrow> bytes \<Rightarrow> size_t \<Rightarrow> bool \<Rightarrow> bool" where
  "sr_push_ok S data index eof \<longleftrightarrow> sr_excerpt_at S data index eof \<or> data = [] \<and> \<not> eof"

lemma end_key_ok_length: "end_key_ok length"
proof -
  have "length m \<noteq> i" if "distinct (map fst m)" "m \<noteq> []" "\<forall>x \<in> set m. 0 < fst x \<and> fst x < i"
    for m :: sr_map and i
  proof -
    have "fst ` set m \<subseteq> {1..<i}"
      using that(3) by auto
    then have "card (fst ` set m) \<le> i - 1"
      using card_mono [of "{1..<i}" "fst ` set m"] by simp
    then show ?thesis
      using that distinct_card [OF that(1)] by (cases m) auto
  qed
  then show ?thesis
    by (simp add: end_key_ok_def)
qed

lemma sr_map_ok_distinct: "sr_map_ok S m \<Longrightarrow> distinct (map fst m)"
  by (induction m) (fastforce simp: sr_map_ok_Cons sr_gap_def sr_entry_ok_def)+

lemma sr_inv_end_key:
  assumes "sr_inv0 S r" and "end_key_ok end_key"
  shows "sr_unassembled r \<noteq> [] \<and> (\<forall>x \<in> set (sr_unassembled r). fst x < i) \<longrightarrow>
    end_key (sr_unassembled r) \<noteq> i"
proof -
  have "\<forall>x \<in> set (sr_unassembled r). 0 < fst x" and "distinct (map fst (sr_unassembled r))"
    using assms(1) sr_map_ok_distinct by (auto simp: sr_inv0_def sr_map_in_def)
  then show ?thesis
    using assms(2) unfolding end_key_ok_def by blast
qed

lemma ByteStream_write_Nil: "ByteStream_wf s \<Longrightarrow> snd (ByteStream_write [] s) = s"
  by (simp add: ByteStream_write_def Let_def ByteStream_wf_def add64_def)

text \<open>A retransmission that reaches the first missing byte while the window is closed changes nothing.\<close>

lemma sr_store_closed_window:
  assumes "sr_inv0 S r" and "sr_window_end r = sr_first_index r"
  shows "sr_store end_key (sr_first_index r) 0 e (BufferList_of_string []) r = Inr (sr_finish r)"
proof -
  have m: "sr_unassembled r = []"
    using assms
    by (cases "sr_unassembled r")
      (fastforce simp: sr_inv0_def sr_map_in_def sr_map_ok_Cons sr_entry_ok_def)+
  have b: "sr_unassembled_bytes r = 0" and wf: "ByteStream_wf (sr_output r)"
    and first: "sr_first_index r < size_max"
    using assms m by (auto simp: sr_inv0_def sr_out_ok_def)
  have same: "r\<lparr>sr_unassembled_bytes := 0, sr_unassembled := []\<rparr> = r"
    using m b by (cases r) simp
  show ?thesis
    using m b first ByteStream_write_Nil [OF wf]
    by (simp add: sr_store_def sr_place_def sr_lower_bound_def sr_insert_def sr_flush_def Let_def
        bufl.size_contents add64_def sub64_def same)
qed

lemma sr_mark_eof_sel [simp]:
  "sr_first_index (sr_mark_eof data index eof r) = sr_first_index r"
  "sr_output (sr_mark_eof data index eof r) = sr_output r"
  "sr_capacity (sr_mark_eof data index eof r) = sr_capacity r"
  "sr_unassembled (sr_mark_eof data index eof r) = sr_unassembled r"
  "sr_unassembled_bytes (sr_mark_eof data index eof r) = sr_unassembled_bytes r"
  "sr_eofed (sr_mark_eof data index eof r) = sr_eofed r"
  "sr_window_end (sr_mark_eof data index eof r) = sr_window_end r"
  "sr_received (sr_mark_eof data index eof r) = sr_received r"
  "sr_consumed (sr_mark_eof data index eof r) = sr_consumed r"
  "sr_eof (sr_mark_eof data index eof r) = (sr_eof r \<or> eof)"
  by (auto simp: sr_mark_eof_def sr_window_end_def sr_received_def sr_consumed_def)

lemma take_excerpt: "take j (excerpt S i n) = excerpt S i (min j n)"
  by (simp add: excerpt_def)

lemma sr_mark_eof_inv:
  assumes "sr_inv S r" and "sr_excerpt_at S data index eof" and "\<not> sr_eofed r"
  shows "sr_inv0 S (sr_mark_eof data index eof r)"
proof -
  have "sr_out_ok S (sr_mark_eof data index eof r)"
    using assms
    by (auto simp: sr_mark_eof_def sr_inv_def sr_inv0_def sr_out_ok_def sr_excerpt_at_def add64_eq)
  then show ?thesis
    using assms by (auto simp: sr_inv_def sr_inv0_def sr_map_in_def)
qed

text \<open>The clipping of the substring to the window, with the wrapping arithmetic discharged.\<close>

lemma push_substring_clip:
  fixes data index eof r
  defines "r1 \<equiv> sr_mark_eof data index eof r"
  defines "hi \<equiv> min (index + length data) (sr_window_end r)"
  defines "lo \<equiv> max index (sr_first_index r)"
  assumes inv: "sr_inv S r" and data: "sr_excerpt_at S data index eof" and fresh: "\<not> sr_eofed r"
  shows "push_substring end_key data index eof r =
    (if index + length data \<le> sr_first_index r \<or> sr_window_end r \<le> index \<or> data = []
     then Inr (sr_finish r1)
     else sr_store end_key lo (hi - lo) (hi - 1) (BufferList_of_string (excerpt S lo (hi - lo))) r1)"
proof -
  let ?f = "sr_first_index r" and ?W = "sr_window_end r" and ?n = "length data"
  have out: "sr_out_ok S r" and ex: "excerpt S index ?n = data" and in_S: "index + ?n \<le> length S"
    using inv data by (simp_all add: sr_inv_def sr_inv0_def sr_excerpt_at_def)
  have wf: "ByteStream_wf (sr_output r)" and cap: "bs_capacity (sr_output r) = sr_capacity r"
    and S: "2 * length S + sr_capacity r < size_max" and f: "?f \<le> length S"
    using out by (simp_all add: sr_out_ok_def)
  have f_W: "?f \<le> ?W" and W_less: "?W < size_max"
    using S f by (simp_all add: sr_window_end_def)
  have W: "add64 ?f (ByteStream_remaining_capacity (sr_output r)) = ?W"
    using W_less cap wf by (simp add: ByteStream_remaining_capacity_eq sr_window_end_def add64_eq)
  have end_index: "sub64 (add64 index ?n) 1 = index + ?n - 1" if "0 < ?n"
    using that in_S S by (subst add64_eq, simp, intro sub64_eq) linarith+
  have pre: "(sub64 (add64 index ?n) 1 < ?f \<or> ?W \<le> index \<or> ?n = 0) \<longleftrightarrow>
    (index + ?n \<le> ?f \<or> ?W \<le> index \<or> data = [])"
    using end_index by (cases data) auto
  have main: "(let (index_c, offset, length_c) =
                   (if index < ?f then (?f, sub64 ?f index, sub64 ?n (sub64 ?f index)) else (index, 0, ?n));
                 (length_c, end_index) =
                   (if add64 index_c length_c > ?W
                    then (sub64 ?W index_c, sub64 (add64 index_c (sub64 ?W index_c)) 1)
                    else (length_c, sub64 (add64 index ?n) 1))
             in bind_res (string_substr data offset length_c)
                  (\<lambda>s. sr_store end_key index_c length_c end_index (BufferList_of_string s) r1)) =
     sr_store end_key lo (hi - lo) (hi - 1) (BufferList_of_string (excerpt S lo (hi - lo))) r1"
    (is "?main = _") if avail: "?f < index + ?n" "index < ?W" "data \<noteq> []"
  proof -
    have sub: "string_substr data o' l = Inr (excerpt S (index + o') l)" if "o' + l \<le> ?n" for o' l
      using that by (subst ex [symmetric]) (simp add: string_substr_def length_excerpt in_S drop_excerpt take_excerpt)
    have n: "0 < ?n"
      using avail by simp
    then have e1: "sub64 (index + ?n) (Suc 0) = index + ?n - Suc 0"
      using in_S S by (intro sub64_eq) linarith+
    show ?thesis
    proof (cases "index < ?f")
      case True
      then show ?thesis
        using avail n in_S S f f_W W_less
        by (simp add: sub end_index e1 sub64_eq add64_eq lo_def hi_def add.commute [of "length data"])
    next
      case False
      then show ?thesis
        using avail n in_S S f f_W W_less
        by (simp add: sub end_index e1 sub64_eq add64_eq lo_def hi_def)
    qed
  qed
  show ?thesis
  proof (cases "index + ?n \<le> ?f \<or> ?W \<le> index \<or> data = []")
    case True
    then show ?thesis
      using pre fresh W by (simp add: push_substring_def Let_def r1_def)
  next
    case False
    then have m: "?f < index + ?n" "index < ?W" "data \<noteq> []"
      by auto
    have "\<not> (sub64 (add64 index ?n) 1 < ?f \<or> ?W \<le> index \<or> ?n = 0)"
      using pre False by blast
    then have "push_substring end_key data index eof r = ?main"
      using fresh W by (simp add: push_substring_def Let_def r1_def)
    then show ?thesis
      using main [OF m] False by simp
  qed
qed

lemma push_substring_ok:
  assumes inv: "sr_inv S r" and data: "sr_excerpt_at S data index eof" and key: "end_key_ok end_key"
  shows "\<exists>r'. push_substring end_key data index eof r = Inr r' \<and> sr_inv S r' \<and>
    sr_received r' = sr_received r \<union> ({index..<index + length data} \<inter> {..<sr_window_end r}) \<and>
    sr_consumed r' = sr_consumed r \<and> sr_eof r' = (sr_eof r \<or> eof)"
proof (cases "sr_eofed r")
  case True
  then have eof: "sr_first_index r = length S" "sr_eof r"
    using inv by (simp_all add: sr_inv_def sr_inv0_def sr_out_ok_def)
  have "index + length data \<le> length S"
    using data by (simp add: sr_excerpt_at_def)
  then have "sr_received r = sr_received r \<union> ({index..<index + length data} \<inter> {..<sr_window_end r})"
    using eof by (auto simp: sr_received_def)
  then show ?thesis
    using True inv eof by (simp add: push_substring_def)
next
  case False
  let ?r = "sr_mark_eof data index eof r"
  let ?lo = "max index (sr_first_index r)"
  let ?hi = "min (index + length data) (sr_window_end r)"
  note clip = push_substring_clip [OF inv data False, of end_key]
  have inv1: "sr_inv0 S ?r"
    by (rule sr_mark_eof_inv [OF inv data False])
  have new: "{index..<index + length data} \<inter> {..<sr_window_end r} = {index..<?hi}"
    by auto
  have quit: ?thesis if "push_substring end_key data index eof r = Inr (sr_finish ?r)"
    and "?hi \<le> sr_first_index r \<or> ?hi \<le> index"
  proof -
    have "sr_received r \<union> {index..<?hi} = sr_received r"
      using that(2) by (auto simp: sr_received_def)
    then show ?thesis
      using that(1) sr_finish_inv [OF inv1] by (simp add: new)
  qed
  show ?thesis
  proof (cases "index + length data \<le> sr_first_index r \<or> sr_window_end r \<le> index \<or> data = []")
    case True
    then show ?thesis
      using clip by (intro quit) auto
  next
    case avail: False
    show ?thesis
    proof (cases "?lo < ?hi")
      case closed: False
      then have "?lo = sr_first_index r" and "sr_window_end r = sr_first_index r"
        using avail by (auto simp: sr_window_end_def split: if_splits)
      then show ?thesis
        using clip avail closed sr_store_closed_window [OF inv1]
        by (intro quit) (auto simp: excerpt_def)
    next
      case True
      have entry: "sr_entry_ok S (?lo, ?hi - 1, BufferList_of_string (excerpt S ?lo (?hi - ?lo)))"
      proof -
        have "?hi - 1 < length S" and "?hi - 1 + 1 - ?lo = ?hi - ?lo" and "?lo \<le> ?hi - 1"
          using True data by (simp_all only: sr_excerpt_at_def) linarith+
        then show ?thesis
          unfolding sr_entry_ok_def by simp
      qed
      have "\<exists>r'. sr_store end_key ?lo (?hi - ?lo) (?hi - 1)
          (BufferList_of_string (excerpt S ?lo (?hi - ?lo))) ?r = Inr r' \<and> sr_inv S r' \<and>
          sr_received r' = sr_received ?r \<union> {?lo..?hi - 1} \<and> sr_consumed r' = sr_consumed ?r \<and>
          sr_eof r' = sr_eof ?r"
      proof (rule sr_store_ok [OF inv1 _ entry])
        show "?hi - 1 + 1 = ?lo + (?hi - ?lo)" and "?hi - 1 < sr_window_end ?r"
          using True unfolding sr_mark_eof_sel by linarith+
      qed (use False sr_inv_end_key [OF inv1 key] in simp_all)
      moreover have "{?lo..?hi - 1} = {?lo..<?hi}"
        using True by auto
      moreover have "sr_received r \<union> {?lo..<?hi} = sr_received r \<union> {index..<?hi}"
        by (auto simp: sr_received_def)
      ultimately show ?thesis
        using clip avail by (simp add: new)
    qed
  qed
qed


section \<open>The abstract reassembler\<close>

text \<open>
  The promise of the class, without maps, buffers or wrapping arithmetic: a set of received indices,
  the number of bytes the reader has taken, and whether the end of the stream is known.
\<close>

record abs_reassembler =
  ar_got :: "nat set"
  ar_taken :: nat
  ar_eof :: bool

definition ar_first :: "abs_reassembler \<Rightarrow> nat" where
  "ar_first a = (LEAST k. k \<notin> ar_got a)"

definition ar_push :: "size_t \<Rightarrow> bytes \<Rightarrow> size_t \<Rightarrow> bool \<Rightarrow> abs_reassembler \<Rightarrow> abs_reassembler" where
  "ar_push cap data index eof a =
     a\<lparr>ar_got := ar_got a \<union> ({index..<index + length data} \<inter> {..<ar_taken a + cap}),
       ar_eof := ar_eof a \<or> eof\<rparr>"

definition ar_read :: "size_t \<Rightarrow> abs_reassembler \<Rightarrow> abs_reassembler" where
  "ar_read n a = a\<lparr>ar_taken := min (ar_taken a + n) (ar_first a)\<rparr>"

definition sr_abs :: "StreamReassembler \<Rightarrow> abs_reassembler" where
  "sr_abs r = \<lparr>ar_got = sr_received r, ar_taken = sr_consumed r, ar_eof = sr_eof r\<rparr>"

definition sr_read :: "size_t \<Rightarrow> StreamReassembler \<Rightarrow> (bytes \<times> StreamReassembler) res" where
  "sr_read n r =
     bind_res (ByteStream_read n (sr_output r)) (\<lambda>(d, s). Inr (d, r\<lparr>sr_output := s\<rparr>))"

datatype sr_call = SrPush bytes size_t bool | SrRead size_t

fun sr_run :: "(sr_map \<Rightarrow> size_t) \<Rightarrow> sr_call list \<Rightarrow> StreamReassembler \<Rightarrow> (bytes \<times> StreamReassembler) res" where
  "sr_run ek [] r = Inr ([], r)"
| "sr_run ek (SrPush data index eof # cs) r = bind_res (push_substring ek data index eof r) (sr_run ek cs)"
| "sr_run ek (SrRead n # cs) r =
     bind_res (sr_read n r)
       (\<lambda>(d, r'). bind_res (sr_run ek cs r') (\<lambda>(d', r''). Inr (d @ d', r'')))"

fun ar_run :: "size_t \<Rightarrow> sr_call list \<Rightarrow> abs_reassembler \<Rightarrow> abs_reassembler" where
  "ar_run cap [] a = a"
| "ar_run cap (SrPush data index eof # cs) a = ar_run cap cs (ar_push cap data index eof a)"
| "ar_run cap (SrRead n # cs) a = ar_run cap cs (ar_read n a)"

fun sr_call_ok :: "bytes \<Rightarrow> sr_call \<Rightarrow> bool" where
  "sr_call_ok S (SrPush data index eof) = sr_push_ok S data index eof"
| "sr_call_ok S (SrRead n) = True"

lemma sr_abs_sel [simp]:
  "ar_got (sr_abs r) = sr_received r" "ar_taken (sr_abs r) = sr_consumed r" "ar_eof (sr_abs r) = sr_eof r"
  by (simp_all add: sr_abs_def)

lemma sr_inv_out_ok: "sr_inv S r \<Longrightarrow> sr_out_ok S r"
  by (simp add: sr_inv_def sr_inv0_def)

lemma sr_abs_first:
  assumes "sr_inv S r"
  shows "ar_first (sr_abs r) = sr_first_index r"
proof -
  have "sr_first_index r \<notin> sr_received r"
    using assms by (force simp: sr_inv_def sr_inv0_def sr_map_in_def sr_received_def sr_cov_def)
  then show ?thesis
    unfolding ar_first_def sr_abs_sel
    by (intro Least_equality) (auto simp: sr_received_def not_less [symmetric])
qed

lemma sr_window_end_consumed:
  assumes "sr_inv S r"
  shows "sr_window_end r = sr_consumed r + sr_capacity r"
proof -
  have "ByteStream_wf (sr_output r)" "bs_capacity (sr_output r) = sr_capacity r"
    "length (ByteStream_contents (sr_output r)) \<le> sr_first_index r"
    using sr_inv_out_ok [OF assms] by (simp_all add: sr_out_ok_def)
  then show ?thesis
    using pipe.within_capacity [of "sr_output r"] by (simp add: sr_window_end_def sr_consumed_def)
qed

lemma sr_inv_init:
  assumes "2 * length S + cap < size_max"
  shows "sr_inv S (StreamReassembler_init cap)"
    and "sr_abs (StreamReassembler_init cap) = \<lparr>ar_got = {}, ar_taken = 0, ar_eof = False\<rparr>"
  using assms ByteStream_wf_init [of cap]
  by (auto simp: sr_inv_def sr_inv0_def sr_out_ok_def sr_map_in_def sr_map_ok_def sr_bytes_def
      StreamReassembler_init_def ByteStream_init_def ByteStream_contents_def excerpt_def
      ByteStream_input_ended_def sr_abs_def sr_received_def sr_cov_def sr_consumed_def)

lemma sr_read_ok:
  assumes inv: "sr_inv S r"
  shows "\<exists>r'. sr_read n r = Inr (excerpt S (sr_consumed r) (min n (sr_first_index r - sr_consumed r)), r') \<and>
    sr_inv S r' \<and> sr_abs r' = ar_read n (sr_abs r) \<and> sr_capacity r' = sr_capacity r"
proof -
  have out: "sr_out_ok S r"
    by (rule sr_inv_out_ok [OF inv])
  let ?c = "ByteStream_contents (sr_output r)"
  have wf: "ByteStream_wf (sr_output r)" and c: "excerpt S (sr_consumed r) (length ?c) = ?c"
    and len: "length ?c \<le> sr_first_index r"
    using out by (simp_all add: sr_out_ok_def sr_consumed_def)
  obtain s' where rd: "ByteStream_read n (sr_output r) = Inr (take n ?c, s')" "ByteStream_wf s'"
      "ByteStream_contents s' = drop n ?c" "bs_capacity s' = bs_capacity (sr_output r)"
      "bs_input_ended_flag s' = bs_input_ended_flag (sr_output r)"
      "bs_write_count s' = bs_write_count (sr_output r)"
    using ByteStream_readE [OF wf, of n] by metis
  let ?r = "r\<lparr>sr_output := s'\<rparr>"
  have taken: "sr_consumed ?r = min (sr_consumed r + n) (sr_first_index r)"
    using len by (simp add: sr_consumed_def rd(3))
  have same: "sr_received ?r = sr_received r" "sr_window_end r \<le> sr_window_end ?r"
    by (simp_all add: sr_received_def sr_window_end_def rd(3))
  have exc: "excerpt S (sr_first_index r - (length ?c - n)) (length ?c - n) = drop n ?c"
  proof -
    have "drop n (excerpt S (sr_consumed r) (length ?c)) = excerpt S (sr_consumed r + n) (length ?c - n)"
      by (rule drop_excerpt)
    moreover have "sr_consumed r + n = sr_first_index r - (length ?c - n)" if "n \<le> length ?c"
      using that len by (simp add: sr_consumed_def)
    ultimately show ?thesis
      using c by (cases "n \<le> length ?c") (auto simp: excerpt_def)
  qed
  have "sr_out_ok S ?r"
    using out exc len by (simp add: sr_out_ok_def rd ByteStream_input_ended_def)
  then have "sr_inv S ?r"
    using inv same(2) by (fastforce simp: sr_inv_def sr_inv0_def sr_map_in_def)
  moreover have "sr_abs ?r = ar_read n (sr_abs r)"
    by (simp add: sr_abs_def ar_read_def taken same sr_abs_first [OF inv, unfolded sr_abs_def])
  moreover have "take n ?c = excerpt S (sr_consumed r) (min n (sr_first_index r - sr_consumed r))"
    using c len by (metis take_excerpt sr_consumed_def diff_diff_cancel)
  ultimately show ?thesis
    by (simp add: sr_read_def rd(1))
qed

lemma push_substring_capacity:
  assumes "push_substring end_key data index eof r = Inr r'"
  shows "sr_capacity r' = sr_capacity r"
proof -
  have fin: "sr_capacity (sr_finish r) = sr_capacity r" for r
    by (simp add: sr_finish_def)
  have flush: "sr_capacity (sr_flush p x q r) = sr_capacity r" for p x q r
    by (cases x) (simp add: sr_flush_def Let_def)
  have store: "sr_capacity r' = sr_capacity r" if "sr_store end_key i l e buf r = Inr r'" for i l e buf r r'
    using that
    by (auto simp: sr_store_def bind_res_eq_Inr fin flush Let_def
        split: if_splits list.splits prod.splits)
  show ?thesis
    using assms
    by (auto simp: push_substring_def Let_def fin bind_res_eq_Inr dest!: store
        split: if_splits prod.splits)
qed

lemma push_substring_empty:
  assumes inv: "sr_inv S r"
  shows "push_substring end_key [] index False r = Inr r"
proof -
  have "sr_eof r \<Longrightarrow> sr_eof_index r = length S"
    using sr_inv_out_ok [OF inv] by (simp add: sr_out_ok_def)
  moreover have "sr_eof r \<and> sr_first_index r = length S \<longrightarrow> sr_eofed r"
    using inv by (simp add: sr_inv_def)
  ultimately show ?thesis
    by (auto simp: push_substring_def sr_mark_eof_def sr_finish_def Let_def)
qed

lemma push_substring_abs:
  assumes inv: "sr_inv S r" and data: "sr_push_ok S data index eof" and key: "end_key_ok end_key"
  shows "\<exists>r'. push_substring end_key data index eof r = Inr r' \<and> sr_inv S r' \<and>
    sr_abs r' = ar_push (sr_capacity r) data index eof (sr_abs r) \<and> sr_capacity r' = sr_capacity r"
proof (cases "sr_excerpt_at S data index eof")
  case True
  obtain r' where r': "push_substring end_key data index eof r = Inr r'" "sr_inv S r'"
    "sr_received r' = sr_received r \<union> ({index..<index + length data} \<inter> {..<sr_window_end r})"
    "sr_consumed r' = sr_consumed r" "sr_eof r' = (sr_eof r \<or> eof)" "sr_capacity r' = sr_capacity r"
    using push_substring_ok [OF inv True key] push_substring_capacity by metis
  then show ?thesis
    by (simp add: sr_abs_def ar_push_def sr_window_end_consumed [OF inv])
next
  case False
  then have "data = []" "\<not> eof"
    using data by (simp_all add: sr_push_ok_def)
  then show ?thesis
    using push_substring_empty [OF inv] inv by (simp add: sr_abs_def ar_push_def)
qed

section \<open>The contract of a reassembler\<close>

lemma ar_push_commute:
  "ar_push cap d i e (ar_push cap d' i' e' a) = ar_push cap d' i' e' (ar_push cap d i e a)"
  by (cases a) (auto simp: ar_push_def)

lemma ar_push_again: "ar_push cap d i e (ar_push cap d i e a) = ar_push cap d i e a"
  by (cases a) (auto simp: ar_push_def)

locale reassembly =
  fixes invar :: "bytes \<Rightarrow> 'r \<Rightarrow> bool"
    and absr :: "'r \<Rightarrow> abs_reassembler"
    and capacity :: "'r \<Rightarrow> size_t"
    and push :: "bytes \<Rightarrow> size_t \<Rightarrow> bool \<Rightarrow> 'r \<Rightarrow> 'r res"
    and pull :: "size_t \<Rightarrow> 'r \<Rightarrow> (bytes \<times> 'r) res"
  assumes push_law: "invar S r \<Longrightarrow> sr_push_ok S data index eof \<Longrightarrow>
      \<exists>r'. push data index eof r = Inr r' \<and> invar S r' \<and>
        absr r' = ar_push (capacity r) data index eof (absr r) \<and> capacity r' = capacity r"
    and pull_law: "invar S r \<Longrightarrow>
      \<exists>r'. pull n r = Inr (excerpt S (ar_taken (absr r)) (min n (ar_first (absr r) - ar_taken (absr r))), r') \<and>
        invar S r' \<and> absr r' = ar_read n (absr r) \<and> capacity r' = capacity r"
    and taken_le: "invar S r \<Longrightarrow> ar_taken (absr r) \<le> ar_first (absr r)"
begin

lemma pushE:
  assumes "invar S r" and "sr_push_ok S data index eof"
  obtains r' where "push data index eof r = Inr r'" and "invar S r'"
    and "absr r' = ar_push (capacity r) data index eof (absr r)" and "capacity r' = capacity r"
  using push_law [OF assms] by blast

lemma push_commute:
  assumes inv: "invar S r" and a: "sr_push_ok S d i e" and b: "sr_push_ok S d' i' e'"
  shows "\<exists>r1 r2. bind_res (push d i e r) (push d' i' e') = Inr r1 \<and>
    bind_res (push d' i' e' r) (push d i e) = Inr r2 \<and> absr r1 = absr r2"
proof -
  obtain ra where ra: "push d i e r = Inr ra" "invar S ra" "absr ra = ar_push (capacity r) d i e (absr r)"
    "capacity ra = capacity r"
    using inv a by (rule pushE)
  obtain rb where rb: "push d' i' e' r = Inr rb" "invar S rb" "absr rb = ar_push (capacity r) d' i' e' (absr r)"
    "capacity rb = capacity r"
    using inv b by (rule pushE)
  obtain r1 where "push d' i' e' ra = Inr r1" "absr r1 = ar_push (capacity ra) d' i' e' (absr ra)"
    using ra(2) b by (rule pushE)
  moreover obtain r2 where "push d i e rb = Inr r2" "absr r2 = ar_push (capacity rb) d i e (absr rb)"
    using rb(2) a by (rule pushE)
  ultimately show ?thesis
    using ra rb ar_push_commute by simp
qed

lemma push_again:
  assumes inv: "invar S r" and "sr_push_ok S d i e"
  shows "\<exists>r1 r2. push d i e r = Inr r1 \<and> push d i e r1 = Inr r2 \<and> absr r2 = absr r1"
proof -
  obtain r1 where r1: "push d i e r = Inr r1" "invar S r1" "absr r1 = ar_push (capacity r) d i e (absr r)"
    "capacity r1 = capacity r"
    using assms by (rule pushE)
  obtain r2 where "push d i e r1 = Inr r2" "absr r2 = ar_push (capacity r1) d i e (absr r1)"
    using r1(2) assms(2) by (rule pushE)
  then show ?thesis
    using r1 ar_push_again by simp
qed

end

text \<open>
  The implementation meets the contract for every end iterator whose key is not the index looked up;
  with the node count of the tree there, as in libstdc++, it is not.
\<close>

locale end_iterator =
  fixes end_key :: "sr_map \<Rightarrow> size_t"
  assumes end_key: "end_key_ok end_key"

lemma sr_consumed_le: "sr_consumed r \<le> sr_first_index r"
  by (simp add: sr_consumed_def)

sublocale end_iterator \<subseteq> sr: reassembly sr_inv sr_abs sr_capacity "push_substring end_key" sr_read
proof unfold_locales
  fix S r data index eof
  assume "sr_inv S r" "sr_push_ok S data index eof"
  then show "\<exists>r'. push_substring end_key data index eof r = Inr r' \<and> sr_inv S r' \<and>
      sr_abs r' = ar_push (sr_capacity r) data index eof (sr_abs r) \<and> sr_capacity r' = sr_capacity r"
    using end_key by (rule push_substring_abs)
next
  fix S r n
  assume "sr_inv S r"
  then show "\<exists>r'. sr_read n r =
      Inr (excerpt S (ar_taken (sr_abs r)) (min n (ar_first (sr_abs r) - ar_taken (sr_abs r))), r') \<and>
      sr_inv S r' \<and> sr_abs r' = ar_read n (sr_abs r) \<and> sr_capacity r' = sr_capacity r"
    using sr_read_ok by (simp add: sr_abs_first)
qed (simp add: sr_abs_first sr_consumed_le)

interpretation node_count: end_iterator length
  by unfold_locales (rule end_key_ok_length)

lemma sr_run_ok:
  assumes "sr_inv S r" and "end_key_ok end_key" and "list_all (sr_call_ok S) cs"
  shows "\<exists>out r'. sr_run end_key cs r = Inr (out, r') \<and> sr_inv S r' \<and>
    sr_abs r' = ar_run (sr_capacity r) cs (sr_abs r) \<and> sr_capacity r' = sr_capacity r \<and>
    sr_consumed r' = sr_consumed r + length out \<and> excerpt S (sr_consumed r) (length out) = out"
  using assms(1,3)
proof (induction cs arbitrary: r)
  case Nil
  then show ?case by (simp add: excerpt_def)
next
  case (Cons c cs)
  show ?case
  proof (cases c)
    case (SrPush data index eof)
    then obtain r1 where r1: "push_substring end_key data index eof r = Inr r1" "sr_inv S r1"
      "sr_abs r1 = ar_push (sr_capacity r) data index eof (sr_abs r)" "sr_capacity r1 = sr_capacity r"
      using push_substring_abs [OF Cons.prems(1) _ assms(2), of data index eof] Cons.prems(2) by auto
    have "sr_consumed r1 = sr_consumed r"
      using arg_cong [OF r1(3), of ar_taken] by (simp add: ar_push_def)
    then show ?thesis
      using Cons.IH [OF r1(2)] Cons.prems(2) SrPush r1 by simp
  next
    case (SrRead n)
    define d where "d = excerpt S (sr_consumed r) (min n (sr_first_index r - sr_consumed r))"
    obtain r1 where r1: "sr_read n r = Inr (d, r1)" "sr_inv S r1" "sr_abs r1 = ar_read n (sr_abs r)"
      "sr_capacity r1 = sr_capacity r"
      using sr_read_ok [OF Cons.prems(1)] unfolding d_def by blast
    have "sr_first_index r \<le> length S"
      using sr_inv_out_ok [OF Cons.prems(1)] by (simp add: sr_out_ok_def)
    then have d: "length d = min n (sr_first_index r - sr_consumed r)"
      unfolding d_def using sr_consumed_le [of r] by (intro length_excerpt) linarith
    then have c1: "sr_consumed r1 = sr_consumed r + length d"
      using arg_cong [OF r1(3), of ar_taken] sr_consumed_le [of r]
      by (simp add: ar_read_def sr_abs_first [OF Cons.prems(1)])
    obtain out r2 where r2: "sr_run end_key cs r1 = Inr (out, r2)" "sr_inv S r2"
      "sr_abs r2 = ar_run (sr_capacity r1) cs (sr_abs r1)" "sr_capacity r2 = sr_capacity r1"
      "sr_consumed r2 = sr_consumed r1 + length out" "excerpt S (sr_consumed r1) (length out) = out"
      using Cons.IH [OF r1(2)] Cons.prems(2) by auto
    have "excerpt S (sr_consumed r) (length d) = d"
      unfolding d by (simp add: d_def)
    then have "excerpt S (sr_consumed r) (length (d @ out)) = d @ out"
      using r2(6) c1 by (simp add: excerpt_append [symmetric])
    then show ?thesis
      using r1 r2 c1 SrRead by simp
  qed
qed

lemma sr_contents_eq:
  assumes "sr_inv S r"
  shows "ByteStream_contents (sr_output r) = excerpt S (sr_consumed r) (sr_first_index r - sr_consumed r)"
proof -
  have "excerpt S (sr_consumed r) (length (ByteStream_contents (sr_output r))) = ByteStream_contents (sr_output r)"
    and "length (ByteStream_contents (sr_output r)) \<le> sr_first_index r"
    using sr_inv_out_ok [OF assms] by (simp_all add: sr_out_ok_def sr_consumed_def)
  then show ?thesis
    by (simp add: sr_consumed_def)
qed

lemma sr_unassembled_card:
  assumes "sr_inv S r"
  shows "unassembled_bytes r = card (sr_received r - {..<sr_first_index r})"
proof -
  have m: "sr_map_in S r (sr_unassembled r)" and n: "sr_unassembled_bytes r = sr_bytes (sr_unassembled r)"
    using assms by (simp_all add: sr_inv_def sr_inv0_def)
  have "sr_received r - {..<sr_first_index r} = sr_cov (sr_unassembled r)"
    using m by (fastforce simp: sr_received_def sr_cov_def sr_map_in_def)
  then show ?thesis
    using m n sr_bytes_card [of S] by (simp add: unassembled_bytes_def sr_map_in_def)
qed

lemma sr_ended_iff:
  assumes "sr_inv S r"
  shows "ByteStream_input_ended (sr_output r) \<longleftrightarrow> sr_eof r \<and> sr_first_index r = length S"
proof -
  have "ByteStream_input_ended (sr_output r) = sr_eofed r"
    and "sr_eofed r \<longrightarrow> sr_eof r \<and> sr_first_index r = length S"
    using sr_inv_out_ok [OF assms] by (simp_all add: sr_out_ok_def)
  moreover have "sr_eof r \<and> sr_first_index r = length S \<longrightarrow> sr_eofed r"
    using assms by (simp add: sr_inv_def)
  ultimately show ?thesis
    by blast
qed

lemma sr_received_window:
  assumes "sr_inv S r"
  shows "sr_received r \<subseteq> {..<sr_consumed r + sr_capacity r}"
proof -
  have "sr_cov (sr_unassembled r) \<subseteq> {..<sr_window_end r}"
    using assms by (fastforce simp: sr_inv_def sr_inv0_def sr_map_in_def sr_cov_def)
  moreover have "{..<sr_first_index r} \<subseteq> {..<sr_window_end r}"
    by (auto simp: sr_window_end_def)
  ultimately show ?thesis
    using sr_window_end_consumed [OF assms] by (simp add: sr_received_def)
qed

lemma ar_run_eof: "ar_eof (ar_run cap cs a) \<longleftrightarrow> ar_eof a \<or> (\<exists>d i. SrPush d i True \<in> set cs)"
proof (induction cs arbitrary: a)
  case (Cons c cs)
  then show ?case
    by (cases c) (auto simp: ar_push_def ar_read_def)
qed simp

lemma ar_run_got_mono: "ar_got a \<subseteq> ar_got (ar_run cap cs a)"
proof (induction cs arbitrary: a)
  case (Cons c cs)
  show ?case
  proof (cases c)
    case (SrPush d i e)
    have "ar_got a \<subseteq> ar_got (ar_push cap d i e a)"
      by (simp add: ar_push_def)
    then show ?thesis
      using Cons.IH [of "ar_push cap d i e a"] SrPush by auto
  next
    case (SrRead n)
    then show ?thesis
      using Cons.IH [of "ar_read n a"] by (simp add: ar_read_def)
  qed
qed simp

lemma ar_run_got_push:
  assumes "SrPush d i e \<in> set cs" and "i + length d \<le> cap"
  shows "{i..<i + length d} \<subseteq> ar_got (ar_run cap cs a)"
  using assms(1)
proof (induction cs arbitrary: a)
  case (Cons c cs)
  show ?case
  proof (cases "c = SrPush d i e")
    case True
    have "{i..<i + length d} \<subseteq> ar_got (ar_push cap d i e a)"
      using assms(2) by (auto simp: ar_push_def)
    then show ?thesis
      using ar_run_got_mono [of "ar_push cap d i e a" cap cs] True by auto
  next
    case False
    then show ?thesis
      using Cons by (cases c) auto
  qed
qed simp

lemma sr_received_stream:
  assumes "sr_inv S r"
  shows "sr_received r \<subseteq> {..<length S}"
proof -
  have "sr_cov (sr_unassembled r) \<subseteq> {..<length S}"
    using assms
    by (fastforce simp: sr_inv_def sr_inv0_def sr_map_in_def sr_cov_def sr_map_ok_def sr_entry_ok_def)
  moreover have "sr_first_index r \<le> length S"
    using sr_inv_out_ok [OF assms] by (simp add: sr_out_ok_def)
  ultimately show ?thesis
    by (auto simp: sr_received_def)
qed

lemma sr_run_init:
  assumes S: "2 * length S + cap < size_max" and "end_key_ok end_key" and "list_all (sr_call_ok S) cs"
  shows "\<exists>out r. sr_run end_key cs (StreamReassembler_init cap) = Inr (out, r) \<and> sr_inv S r \<and>
    sr_abs r = ar_run cap cs \<lparr>ar_got = {}, ar_taken = 0, ar_eof = False\<rparr> \<and> sr_capacity r = cap \<and>
    sr_consumed r = length out \<and>
    out @ ByteStream_contents (sr_output r) = take (sr_first_index r) S"
proof -
  have [simp]: "sr_capacity (StreamReassembler_init cap) = cap"
    by (simp add: StreamReassembler_init_def)
  have c0: "sr_consumed (StreamReassembler_init cap) = 0"
    using arg_cong [OF sr_inv_init(2) [OF S], of ar_taken] by simp
  obtain out r where r: "sr_run end_key cs (StreamReassembler_init cap) = Inr (out, r)" "sr_inv S r"
    "sr_abs r = ar_run cap cs \<lparr>ar_got = {}, ar_taken = 0, ar_eof = False\<rparr>" "sr_capacity r = cap"
    "sr_consumed r = length out" "excerpt S 0 (length out) = out"
    using sr_run_ok [OF sr_inv_init(1) [OF S] assms(2,3)] c0 sr_inv_init(2) [OF S] by auto
  have "out @ ByteStream_contents (sr_output r) =
    excerpt S 0 (length out) @ excerpt S (0 + length out) (sr_first_index r - length out)"
    using r(5,6) sr_contents_eq [OF r(2)] by simp
  also have "\<dots> = take (sr_first_index r) S"
    unfolding excerpt_append using sr_consumed_le [of r] r(5) by (simp add: excerpt_def)
  finally show ?thesis
    using r by blast
qed

lemmas sr_eval = push_substring_def sr_mark_eof_def sr_store_def sr_place_def sr_insert_def
  sr_flush_def sr_finish_def sr_lower_bound_def string_substr_def StreamReassembler_init_def Let_def
  ByteStream_init_def ByteStream_remaining_capacity_def add64_def sub64_def size_max_def
  bufl.size_contents

section \<open>Properties\<close>

text \<open>
  C3. Whatever excerpts of a stream \<open>S\<close> are pushed, in whatever order, however they overlap and
  however the reader interleaves its reads, no call throws, the reassembler ends in the state of the
  abstract reassembler, and what the reader has got followed by what is buffered for it is the prefix
  of \<open>S\<close> up to the first byte that is missing.
\<close>

theorem StreamReassembler_refines:
  assumes "2 * length S + cap < size_max" and "end_key_ok end_key" and "list_all (sr_call_ok S) cs"
  shows "\<exists>out r. sr_run end_key cs (StreamReassembler_init cap) = Inr (out, r) \<and>
    sr_abs r = ar_run cap cs \<lparr>ar_got = {}, ar_taken = 0, ar_eof = False\<rparr> \<and>
    out @ ByteStream_contents (sr_output r) = take (ar_first (sr_abs r)) S \<and>
    first_unassembled r = ar_first (sr_abs r)"
  using sr_run_init [OF assms] sr_abs_first by (fastforce simp: first_unassembled_def)

theorem StreamReassembler_refines_witness:
  "\<exists>out r. sr_run length [SrPush [3] 2 True, SrRead 5, SrPush [1, 2] 0 False, SrRead 2]
      (StreamReassembler_init 4) = Inr (out, r) \<and>
    out @ ByteStream_contents (sr_output r) = take (ar_first (sr_abs r)) [1, 2, 3]"
  using StreamReassembler_refines [of "[1, 2, 3]" 4 length
      "[SrPush [3] 2 True, SrRead 5, SrPush [1, 2] 0 False, SrRead 2]"] end_key_ok_length
  by (fastforce simp: sr_push_ok_def sr_excerpt_at_def excerpt_def size_max_def)

text \<open>
  C5. The accounting: \<^verbatim>\<open>unassembled_bytes\<close> counts every index received beyond the first missing byte
  exactly once, buffered and stored bytes together never exceed the capacity, nothing is kept beyond the
  window, and the output is closed exactly when the end is known and every byte has been assembled.
\<close>

theorem StreamReassembler_accounting:
  assumes "2 * length S + cap < size_max" and "end_key_ok end_key" and "list_all (sr_call_ok S) cs"
    and "sr_run end_key cs (StreamReassembler_init cap) = Inr (out, r)"
  shows "unassembled_bytes r = card (ar_got (sr_abs r) - {..<ar_first (sr_abs r)}) \<and>
    ByteStream_buffer_size (sr_output r) + unassembled_bytes r \<le> cap \<and>
    ar_got (sr_abs r) \<subseteq> {..<length out + cap} \<and>
    (ByteStream_input_ended (sr_output r) \<longleftrightarrow>
       ar_eof (sr_abs r) \<and> ar_first (sr_abs r) = length S)"
proof -
  have inv: "sr_inv S r" and cap: "sr_capacity r = cap" and out: "sr_consumed r = length out"
    using sr_run_init [OF assms(1-3)] assms(4) by auto
  have wf: "ByteStream_wf (sr_output r)"
    using sr_inv_out_ok [OF inv] by (simp add: sr_out_ok_def)
  have "card (sr_received r - {..<sr_first_index r}) \<le> card {sr_first_index r..<length out + cap}"
    using sr_received_window [OF inv] cap out by (intro card_mono) auto
  moreover have "length (ByteStream_contents (sr_output r)) = sr_first_index r - length out"
    and "length out \<le> sr_first_index r"
    using sr_inv_out_ok [OF inv] out by (auto simp: sr_out_ok_def sr_consumed_def)
  moreover have "length (ByteStream_contents (sr_output r)) \<le> cap"
    using pipe.within_capacity [OF wf] sr_inv_out_ok [OF inv] cap by (simp add: sr_out_ok_def)
  ultimately show ?thesis
    using sr_unassembled_card [OF inv] sr_received_window [OF inv] sr_ended_iff [OF inv] cap out wf
    by (simp add: sr_abs_first [OF inv] ByteStream_buffer_size_eq)
qed

theorem StreamReassembler_accounting_witness:
  "sr_run length [SrPush [3] 2 True] (StreamReassembler_init 4) =
     Inr ([], \<lparr>sr_output = ByteStream_init 4, sr_capacity = 4,
       sr_unassembled = [(2, 2, BufferList_of_string [3])], sr_unassembled_bytes = 1,
       sr_first_index = 0, sr_eof_index = 3, sr_eof = True, sr_eofed = False\<rparr>) \<and>
   ar_got (sr_abs \<lparr>sr_output = ByteStream_init 4, sr_capacity = 4,
       sr_unassembled = [(2, 2, BufferList_of_string [3])], sr_unassembled_bytes = 1,
       sr_first_index = 0, sr_eof_index = 3, sr_eof = True, sr_eofed = False\<rparr>) \<subseteq> {..<4}"
  (is "?run \<and> ?got")
proof
  show run: ?run
    by (simp add: sr_eval)
  show ?got
    using StreamReassembler_accounting [OF _ end_key_ok_length _ run, of "[1, 2, 3]"]
    by (simp add: sr_push_ok_def sr_excerpt_at_def excerpt_def size_max_def)
qed

text \<open>
  C4. Delivery: when the stream fits the capacity, once the pushed excerpts cover it and one of them
  carried the end mark, the reader has or can read the whole stream, nothing is left unassembled and
  the output has ended, whatever the order of the pushes.
\<close>

theorem StreamReassembler_delivers:
  assumes "2 * length S + cap < size_max" and "end_key_ok end_key" and "list_all (sr_call_ok S) cs"
    and "length S \<le> cap"
    and "\<forall>k < length S. \<exists>d i e. SrPush d i e \<in> set cs \<and> i \<le> k \<and> k < i + length d"
    and "\<exists>d i. SrPush d i True \<in> set cs"
  shows "\<exists>out r. sr_run end_key cs (StreamReassembler_init cap) = Inr (out, r) \<and>
    out @ ByteStream_contents (sr_output r) = S \<and> StreamReassembler_empty r \<and>
    ByteStream_input_ended (sr_output r)"
proof -
  let ?a = "\<lparr>ar_got = {}, ar_taken = 0, ar_eof = False\<rparr>"
  obtain out r where r: "sr_run end_key cs (StreamReassembler_init cap) = Inr (out, r)" "sr_inv S r"
    "sr_abs r = ar_run cap cs ?a" "out @ ByteStream_contents (sr_output r) = take (sr_first_index r) S"
    using sr_run_init [OF assms(1-3)] by blast
  have "k \<in> sr_received r" if k: "k < length S" for k
  proof -
    obtain d i e where p: "SrPush d i e \<in> set cs" "i \<le> k" "k < i + length d"
      using assms(5) k by blast
    have "sr_call_ok S (SrPush d i e)"
      using assms(3) p(1) by (simp only: list_all_iff)
    then have "i + length d \<le> cap"
      using assms(4) p(2,3) by (auto simp: sr_push_ok_def sr_excerpt_at_def)
    then have "k \<in> ar_got (ar_run cap cs ?a)"
      using ar_run_got_push [OF p(1)] p(2,3) by fastforce
    then show ?thesis
      using r(3) by (metis sr_abs_sel(1))
  qed
  then have all: "sr_received r = {..<length S}"
    using sr_received_stream [OF r(2)] by auto
  then have "sr_first_index r = length S"
    using sr_abs_first [OF r(2)] Least_equality [of "\<lambda>k. \<not> k < length S" "length S"]
    by (simp add: ar_first_def)
  moreover have "sr_eof r"
    using arg_cong [OF r(3), of ar_eof] assms(6) by (simp add: ar_run_eof)
  ultimately show ?thesis
    using r all sr_ended_iff [OF r(2)] sr_unassembled_card [OF r(2)]
    by (simp add: StreamReassembler_empty_def unassembled_bytes_def)
qed

theorem StreamReassembler_delivers_witness:
  "\<exists>out r. sr_run length [SrPush [3] 2 True, SrRead 5, SrPush [1, 2] 0 False, SrRead 2]
      (StreamReassembler_init 4) = Inr (out, r) \<and>
    out @ ByteStream_contents (sr_output r) = [1, 2, 3] \<and> StreamReassembler_empty r \<and>
    ByteStream_input_ended (sr_output r)"
proof (rule StreamReassembler_delivers [OF _ end_key_ok_length])
  show "\<forall>k < length [1, 2, 3 :: byte]. \<exists>d i e.
      SrPush d i e \<in> set [SrPush [3] 2 True, SrRead 5, SrPush [1, 2] 0 False, SrRead 2] \<and>
      i \<le> k \<and> k < i + length d" (is "\<forall>k < _. ?covered k")
  proof (intro allI impI)
    fix k
    assume "k < length [1, 2, 3 :: byte]"
    then consider "k < 2" | "k = 2"
      by force
    then show "?covered k"
    proof cases
      case 1
      then show ?thesis
        by (intro exI [of _ "[1, 2]"] exI [of _ 0] exI [of _ False]) simp
    next
      case 2
      then show ?thesis
        by (intro exI [of _ "[3]"] exI [of _ 2] exI [of _ True]) simp
    qed
  qed
qed (auto simp: sr_push_ok_def sr_excerpt_at_def excerpt_def size_max_def)

text \<open>
  C9. Two excerpts may arrive in either order: both orders succeed and lead to the same abstract state.
\<close>

theorem push_substring_commute:
  assumes "sr_inv S r" and "sr_push_ok S d i e" and "sr_push_ok S d' i' e'"
  shows "\<exists>r1 r2. bind_res (push_substring length d i e r) (push_substring length d' i' e') = Inr r1 \<and>
    bind_res (push_substring length d' i' e' r) (push_substring length d i e) = Inr r2 \<and>
    sr_abs r1 = sr_abs r2"
  using assms by (rule node_count.sr.push_commute)

theorem push_substring_commute_witness:
  "\<exists>r1 r2. bind_res (push_substring length [3] 2 True (StreamReassembler_init 4))
      (push_substring length [1, 2] 0 False) = Inr r1 \<and>
    bind_res (push_substring length [1, 2] 0 False (StreamReassembler_init 4))
      (push_substring length [3] 2 True) = Inr r2 \<and> sr_abs r1 = sr_abs r2"
  using push_substring_commute [OF sr_inv_init(1), of "[1, 2, 3]" 4 "[3]" 2 True "[1, 2]" 0 False]
  by (simp add: sr_push_ok_def sr_excerpt_at_def excerpt_def size_max_def)


end
