(* ===== verification/Net_Parser.thy ===== *)
theory Net_Parser
  imports Buffers
begin

unbundle bit_operations_syntax

text \<open>
  The wire format helpers of \<^verbatim>\<open>libsponge/util/parser.hh\<close> and \<^verbatim>\<open>parser.cc\<close>: \<^verbatim>\<open>NetParser\<close> reads
  big-endian integers from the front of a \<^verbatim>\<open>Buffer\<close> and remembers the first failure, and
  \<^verbatim>\<open>NetUnparser\<close> appends them to a string. A parsing function is a state transformer that may throw,
  and \<open>np_bind\<close> runs two of them in sequence.

  The locale \<open>wire_field\<close> is the contract between a reader and a writer of one field; it is
  interpreted for the three integer widths here and for Ethernet addresses where they are defined.
\<close>

section \<open>ParseResult\<close>

datatype ParseResult =
    NoError
  | BadChecksum
  | PacketTooShort
  | WrongIPVersion
  | HeaderTooShort
  | TruncatedPacket
  | Unsupported

text \<open>The table of names has no entry for the last result: indexing it there is out of bounds.\<close>

fun as_string :: "ParseResult \<Rightarrow> string res" where
  "as_string NoError = Inr ''NoError''"
| "as_string BadChecksum = Inr ''BadChecksum''"
| "as_string PacketTooShort = Inr ''PacketTooShort''"
| "as_string WrongIPVersion = Inr ''WrongIPVersion''"
| "as_string HeaderTooShort = Inr ''HeaderTooShort''"
| "as_string TruncatedPacket = Inr ''TruncatedPacket''"
| "as_string Unsupported = Inl UndefinedBehaviour"

section \<open>NetParser\<close>

record NetParser =
  np_buffer :: Buffer
  np_error :: ParseResult

definition NetParser_init :: "Buffer \<Rightarrow> NetParser" where
  "NetParser_init b = \<lparr>np_buffer = b, np_error = NoError\<rparr>"

definition NetParser_error :: "NetParser \<Rightarrow> bool" where
  "NetParser_error p \<longleftrightarrow> np_error p \<noteq> NoError"

definition NetParser_check_size :: "size_t \<Rightarrow> NetParser \<Rightarrow> NetParser" where
  "NetParser_check_size n p =
     (if n > Buffer_size (np_buffer p) then p\<lparr>np_error := PacketTooShort\<rparr> else p)"

fun np_int_loop :: "Buffer \<Rightarrow> nat list \<Rightarrow> 'w::len word \<Rightarrow> 'w word res" where
  "np_int_loop b [] ret = Inr ret"
| "np_int_loop b (i # is) ret =
     bind_res (Buffer_at b i) (\<lambda>c. np_int_loop b is (push_bit 8 ret + ucast c))"

definition NetParser_parse_int :: "NetParser \<Rightarrow> ('w::len word \<times> NetParser) res" where
  "NetParser_parse_int p =
     (let len = LENGTH('w) div 8;
          p1 = NetParser_check_size len p
      in if NetParser_error p1 then Inr (0, p1)
         else
           bind_res (np_int_loop (np_buffer p1) [0..<len] 0)
             (\<lambda>ret. bind_res (Buffer_remove_prefix len (np_buffer p1))
                (\<lambda>b. Inr (ret, p1\<lparr>np_buffer := b\<rparr>))))"

definition NetParser_u32 :: "NetParser \<Rightarrow> (32 word \<times> NetParser) res" where
  "NetParser_u32 = NetParser_parse_int"

definition NetParser_u16 :: "NetParser \<Rightarrow> (16 word \<times> NetParser) res" where
  "NetParser_u16 = NetParser_parse_int"

definition NetParser_u8 :: "NetParser \<Rightarrow> (8 word \<times> NetParser) res" where
  "NetParser_u8 = NetParser_parse_int"

definition NetParser_remove_prefix :: "size_t \<Rightarrow> NetParser \<Rightarrow> (unit \<times> NetParser) res" where
  "NetParser_remove_prefix n p =
     (let p1 = NetParser_check_size n p
      in if NetParser_error p1 then Inr ((), p1)
         else bind_res (Buffer_remove_prefix n (np_buffer p1)) (\<lambda>b. Inr ((), p1\<lparr>np_buffer := b\<rparr>)))"

text \<open>Running one parsing step after another.\<close>

type_synonym 'a np = "NetParser \<Rightarrow> ('a \<times> NetParser) res"

definition np_bind :: "'a np \<Rightarrow> ('a \<Rightarrow> 'b np) \<Rightarrow> 'b np" where
  "np_bind m f = (\<lambda>p. bind_res (m p) (\<lambda>(x, p'). f x p'))"

definition np_return :: "'a \<Rightarrow> 'a np" where
  "np_return x = (\<lambda>p. Inr (x, p))"

section \<open>NetUnparser\<close>

definition NetUnparser_unparse_int :: "bytes \<Rightarrow> 'w::len word \<Rightarrow> bytes" where
  "NetUnparser_unparse_int s val =
     (let len = LENGTH('w) div 8
      in fold (\<lambda>i s. s @ [ucast (drop_bit ((len - i - 1) * 8) val AND 0xff)]) [0..<len] s)"

definition NetUnparser_u32 :: "bytes \<Rightarrow> 32 word \<Rightarrow> bytes" where
  "NetUnparser_u32 = NetUnparser_unparse_int"

definition NetUnparser_u16 :: "bytes \<Rightarrow> 16 word \<Rightarrow> bytes" where
  "NetUnparser_u16 = NetUnparser_unparse_int"

definition NetUnparser_u8 :: "bytes \<Rightarrow> 8 word \<Rightarrow> bytes" where
  "NetUnparser_u8 = NetUnparser_unparse_int"

text \<open>\<^verbatim>\<open>std::string::resize\<close>.\<close>

definition string_resize :: "nat \<Rightarrow> bytes \<Rightarrow> bytes" where
  "string_resize n s = take n s @ replicate (n - length s) 0"

section \<open>Big-endian numbers\<close>

definition be_val :: "bytes \<Rightarrow> nat" where
  "be_val = foldl (\<lambda>r c. r * 256 + unat c) 0"

definition be_bytes :: "nat \<Rightarrow> nat \<Rightarrow> bytes" where
  "be_bytes n x = map (\<lambda>i. of_nat (x div 256 ^ (n - i - 1))) [0..<n]"

lemma unat_lt: "unat (x :: 'w::len word) < 2 ^ LENGTH('w)"
  by (rule unsigned_less)

lemma unat_byte_less: "unat (c :: byte) < 256"
proof -
  have "unat c < 2 ^ LENGTH(8)"
    by (rule unsigned_less)
  then show ?thesis by simp
qed

lemma be_val_simps [simp]: "be_val [] = 0" "be_val (bs @ [c]) = be_val bs * 256 + unat c"
  by (simp_all add: be_val_def)

lemma be_bytes_0 [simp]: "be_bytes 0 x = []"
  by (simp add: be_bytes_def)

lemma be_bytes_Suc: "be_bytes (Suc n) x = be_bytes n (x div 256) @ [of_nat x]"
proof -
  have "x div 256 ^ (Suc n - i - 1) = x div 256 div 256 ^ (n - i - 1)" if "i < n" for i
  proof -
    have "Suc n - i - 1 = Suc (n - i - 1)"
      using that by simp
    then show ?thesis
      by (simp only: power_Suc div_mult2_eq)
  qed
  then show ?thesis
    by (simp add: be_bytes_def)
qed

lemma length_be_bytes [simp]: "length (be_bytes n x) = n"
  by (simp add: be_bytes_def)

lemma be_val_be_bytes: "be_val (be_bytes n x) = x mod 256 ^ n"
proof (induction n arbitrary: x)
  case (Suc n)
  have "be_val (be_bytes (Suc n) x) = (x div 256 mod 256 ^ n) * 256 + x mod 256"
    by (simp add: be_bytes_Suc Suc.IH unat_of_nat)
  also have "\<dots> = x mod (256 * 256 ^ n)"
    by (simp add: mod_mult2_eq)
  finally show ?case by simp
qed simp

lemma be_bytes_be_val: "be_bytes (length bs) (be_val bs) = bs"
proof (induction bs rule: rev_induct)
  case (snoc c bs)
  have "(be_val bs * 256 + unat c) div 256 = be_val bs"
    using unat_byte_less [of c] by simp
  moreover have "of_nat (be_val bs * 256 + unat c) = c"
  proof -
    have "(256 :: byte) = 0"
      by simp
    then show ?thesis
      by (simp only: of_nat_add of_nat_mult of_nat_numeral) simp
  qed
  ultimately show ?case
    using snoc.IH by (simp add: be_bytes_Suc)
qed simp

lemma be_val_less: "be_val bs < 256 ^ length bs"
proof (induction bs rule: rev_induct)
  case (snoc c bs)
  then show ?case
    using unat_byte_less [of c] by simp
qed simp

lemma np_int_loop_eq:
  assumes "n \<le> length (Buffer_str b)"
  shows "np_int_loop b [0..<n] (0 :: 'w::len word) = Inr (of_nat (be_val (take n (Buffer_str b))))"
proof -
  have snoc: "np_int_loop b (is @ [i]) r = bind_res (np_int_loop b is r)
      (\<lambda>r'. bind_res (Buffer_at b i) (\<lambda>c. Inr (push_bit 8 r' + ucast c)))"
    for "is" i and r :: "'w word"
    by (induction "is" arbitrary: r) (simp_all add: bind_res_assoc)
  show ?thesis
    using assms
  proof (induction n)
    case (Suc n)
    then have "take (Suc n) (Buffer_str b) = take n (Buffer_str b) @ [Buffer_str b ! n]"
      by (simp add: take_Suc_conv_app_nth)
    then show ?case
      using Suc by (simp add: snoc Buffer_at_def push_bit_eq_mult mult.commute)
  qed simp
qed

lemma NetUnparser_unparse_int_eq:
  fixes v :: "'w::len word"
  shows "NetUnparser_unparse_int s v = s @ be_bytes (LENGTH('w) div 8) (unat v)"
proof -
  have acc: "fold (\<lambda>i s. s @ [f i]) is s = s @ map f is" for f :: "nat \<Rightarrow> byte" and "is" s
    by (induction "is" arbitrary: s) simp_all
  have "ucast (drop_bit (k * 8) v AND 0xff) = (of_nat (unat v div 256 ^ k) :: byte)" for k
  proof -
    have "unat (drop_bit (k * 8) v) = unat v div 256 ^ k"
      by (subst unat_drop_bit_eq) (simp add: drop_bit_eq_div power_mult mult.commute [of k])
    moreover have "ucast (drop_bit (k * 8) v AND 0xff) = (ucast (drop_bit (k * 8) v) :: byte)"
    proof -
      have ff: "(0xff :: 'w word) = mask 8"
        by (simp add: mask_eq_exp_minus_1)
      show ?thesis
        unfolding ff by (rule bit_word_eqI) (auto simp: bit_simps dest: bit_imp_le_length)
    qed
    moreover have "ucast (drop_bit (k * 8) v) = (of_nat (unat (drop_bit (k * 8) v)) :: byte)"
      by (simp only: of_nat_unat)
    ultimately show ?thesis
      by (simp only:)
  qed
  then show ?thesis
    unfolding NetUnparser_unparse_int_def Let_def be_bytes_def acc by simp
qed

section \<open>Parser states\<close>

definition np_wf :: "NetParser \<Rightarrow> bool" where
  "np_wf p \<longleftrightarrow> Buffer_wf (np_buffer p)"

definition np_rest :: "NetParser \<Rightarrow> bytes" where
  "np_rest p = Buffer_str (np_buffer p)"

text \<open>\<open>np_at p s\<close>: no failure so far, and \<open>s\<close> is what is left to parse.\<close>

definition np_at :: "NetParser \<Rightarrow> bytes \<Rightarrow> bool" where
  "np_at p s \<longleftrightarrow> np_wf p \<and> np_error p = NoError \<and> np_rest p = s"

lemma np_at_init: "Buffer_wf b \<Longrightarrow> np_at (NetParser_init b) (Buffer_str b)"
  by (simp add: np_at_def np_wf_def np_rest_def NetParser_init_def)

lemma np_bind_apply [simp]: "np_bind m f p = bind_res (m p) (\<lambda>(x, p'). f x p')"
  by (simp add: np_bind_def)

lemma np_return_apply [simp]: "np_return x p = Inr (x, p)"
  by (simp add: np_return_def)

text \<open>
  \<open>np_reads m n\<close>: \<open>m\<close> never throws, reads exactly \<open>n\<close> bytes if they are there, and fails otherwise.
\<close>

definition np_reads :: "'a np \<Rightarrow> nat \<Rightarrow> bool" where
  "np_reads m n \<longleftrightarrow> (\<forall>p. np_wf p \<longrightarrow>
     (\<exists>v p'. m p = Inr (v, p') \<and> np_wf p' \<and> (np_error p' = np_error p \<or> np_error p' = PacketTooShort) \<and>
        (np_error p' = NoError \<longleftrightarrow> np_error p = NoError \<and> n \<le> length (np_rest p)) \<and>
        (np_error p' = NoError \<longrightarrow> np_rest p' = drop n (np_rest p))))"

lemma np_readsE:
  assumes "np_reads m n" and "np_wf p"
  obtains v p' where "m p = Inr (v, p')" and "np_wf p'"
    and "np_error p' = np_error p \<or> np_error p' = PacketTooShort"
    and "np_error p' = NoError \<longleftrightarrow> np_error p = NoError \<and> n \<le> length (np_rest p)"
    and "np_error p' = NoError \<Longrightarrow> np_rest p' = drop n (np_rest p)"
  using assms unfolding np_reads_def by blast

lemma np_reads_return: "np_reads (np_return x) 0"
  by (simp add: np_reads_def)

lemma np_reads_bind:
  assumes m: "np_reads m n" and f: "\<And>v. np_reads (f v) k"
  shows "np_reads (np_bind m f) (n + k)"
  unfolding np_reads_def
proof (intro allI impI)
  fix p
  assume "np_wf p"
  with m obtain v p1 where 1: "m p = Inr (v, p1)" "np_wf p1"
    "np_error p1 = np_error p \<or> np_error p1 = PacketTooShort"
    "np_error p1 = NoError \<longleftrightarrow> np_error p = NoError \<and> n \<le> length (np_rest p)"
    "np_error p1 = NoError \<Longrightarrow> np_rest p1 = drop n (np_rest p)"
    by (rule np_readsE) blast
  obtain w p2 where 2: "f v p1 = Inr (w, p2)" "np_wf p2"
    "np_error p2 = np_error p1 \<or> np_error p2 = PacketTooShort"
    "np_error p2 = NoError \<longleftrightarrow> np_error p1 = NoError \<and> k \<le> length (np_rest p1)"
    "np_error p2 = NoError \<Longrightarrow> np_rest p2 = drop k (np_rest p1)"
    using f 1(2) by (rule np_readsE) blast
  show "\<exists>v p'. np_bind m f p = Inr (v, p') \<and> np_wf p' \<and>
      (np_error p' = np_error p \<or> np_error p' = PacketTooShort) \<and>
      (np_error p' = NoError \<longleftrightarrow> np_error p = NoError \<and> n + k \<le> length (np_rest p)) \<and>
      (np_error p' = NoError \<longrightarrow> np_rest p' = drop (n + k) (np_rest p))"
    using 1 2 by (auto simp: np_bind_def add.commute)
qed

section \<open>The contract between a reader and a writer\<close>

locale wire_field =
  fixes get :: "'a np"
    and put :: "'a \<Rightarrow> bytes"
    and width :: nat
  assumes put_length: "length (put v) = width"
    and put_inj: "put v = put v' \<Longrightarrow> v = v'"
    and get_total: "np_wf p \<Longrightarrow> \<exists>v p'. get p = Inr (v, p') \<and> np_wf p' \<and>
      (np_error p' = np_error p \<or> np_error p' = PacketTooShort)"
    and get_ok_iff: "np_wf p \<Longrightarrow> get p = Inr (v, p') \<Longrightarrow>
      np_error p' = NoError \<longleftrightarrow> np_error p = NoError \<and> width \<le> length (np_rest p)"
    and get_consumes: "np_wf p \<Longrightarrow> get p = Inr (v, p') \<Longrightarrow> np_error p' = NoError \<Longrightarrow>
      np_rest p = put v @ np_rest p'"
begin

lemma get_put:
  assumes "np_at p (put v @ s)"
  shows "\<exists>p'. get p = Inr (v, p') \<and> np_at p' s"
proof -
  have p: "np_wf p" "np_error p = NoError" "np_rest p = put v @ s"
    using assms by (simp_all add: np_at_def)
  obtain v' p' where g: "get p = Inr (v', p')" "np_wf p'"
    using get_total [OF p(1)] by blast
  have ok: "np_error p' = NoError"
    using get_ok_iff [OF p(1) g(1)] p put_length [of v] by simp
  have "put v' @ np_rest p' = put v @ s"
    using get_consumes [OF p(1) g(1) ok] p(3) by simp
  then have "put v' = put v \<and> np_rest p' = s"
    using put_length [of v] put_length [of v'] by simp
  then show ?thesis
    using g ok put_inj [of v' v] by (simp add: np_at_def)
qed

lemma get_reads: "np_reads get width"
  unfolding np_reads_def
proof (intro allI impI)
  fix p
  assume p: "np_wf p"
  then obtain v p' where g: "get p = Inr (v, p')" "np_wf p'"
    "np_error p' = np_error p \<or> np_error p' = PacketTooShort"
    using get_total by blast
  have "np_rest p' = drop width (np_rest p)" if "np_error p' = NoError"
    using get_consumes [OF p g(1) that] put_length [of v] by simp
  then show "\<exists>v p'. get p = Inr (v, p') \<and> np_wf p' \<and>
      (np_error p' = np_error p \<or> np_error p' = PacketTooShort) \<and>
      (np_error p' = NoError \<longleftrightarrow> np_error p = NoError \<and> width \<le> length (np_rest p)) \<and>
      (np_error p' = NoError \<longrightarrow> np_rest p' = drop width (np_rest p))"
    using g get_ok_iff [OF p g(1)] by blast
qed

lemma get_short:
  assumes "np_wf p" and "length (np_rest p) < width"
  shows "\<exists>v p'. get p = Inr (v, p') \<and> np_wf p' \<and> np_error p' \<noteq> NoError"
proof -
  obtain v p' where g: "get p = Inr (v, p')" "np_wf p'"
    using get_total [OF assms(1)] by blast
  then show ?thesis
    using get_ok_iff [OF assms(1) g(1)] assms(2) by auto
qed

lemma get_failed:
  assumes "np_wf p" and "np_error p \<noteq> NoError"
  shows "\<exists>v p'. get p = Inr (v, p') \<and> np_wf p' \<and> np_error p' \<noteq> NoError"
proof -
  obtain v p' where g: "get p = Inr (v, p')" "np_wf p'"
    using get_total [OF assms(1)] by blast
  then show ?thesis
    using get_ok_iff [OF assms(1) g(1)] assms(2) by auto
qed

end

lemma NetParser_parse_int_ok:
  assumes "np_at p s" and w: "LENGTH('w::len) = 8 * n" and "n \<le> length s"
  shows "\<exists>p'. NetParser_parse_int p = Inr (of_nat (be_val (take n s)) :: 'w word, p') \<and>
    np_at p' (drop n s)"
proof -
  have len: "LENGTH('w) div 8 = n" and p: "Buffer_wf (np_buffer p)" "np_error p = NoError"
    "Buffer_str (np_buffer p) = s"
    using assms by (simp_all add: np_at_def np_wf_def np_rest_def)
  obtain b' where b': "Buffer_remove_prefix n (np_buffer p) = Inr b'" "Buffer_wf b'"
    "Buffer_str b' = drop n s"
    using buf.remove_enough [OF p(1), of n] p(3) assms(3) by auto
  have "np_int_loop (np_buffer p) [0..<n] (0 :: 'w word) = Inr (of_nat (be_val (take n s)))"
    using np_int_loop_eq [of n "np_buffer p"] p(3) assms(3) by simp
  then show ?thesis
    using p b' assms(3)
    by (simp add: NetParser_parse_int_def Let_def len NetParser_check_size_def NetParser_error_def
        Buffer_size_def np_at_def np_wf_def np_rest_def)
qed

lemma NetParser_parse_int_fail:
  assumes "np_wf p" and w: "LENGTH('w::len) = 8 * n"
    and "\<not> (np_error p = NoError \<and> n \<le> length (np_rest p))"
  shows "\<exists>p'. NetParser_parse_int p = Inr (0 :: 'w word, p') \<and> np_wf p' \<and> np_error p' \<noteq> NoError \<and>
    (np_error p' = np_error p \<or> np_error p' = PacketTooShort)"
  using assms
  by (auto simp: NetParser_parse_int_def Let_def NetParser_check_size_def NetParser_error_def
      Buffer_size_def np_wf_def np_rest_def)

lemma wire_int:
  assumes w: "LENGTH('w::len) = 8 * n"
  shows "wire_field (NetParser_parse_int :: 'w word np) (NetUnparser_unparse_int []) n"
proof unfold_locales
  have len: "LENGTH('w) div 8 = n" and pow: "(2 :: nat) ^ LENGTH('w) = 256 ^ n"
    using w by (simp_all add: power_mult)
  fix v v' :: "'w word"
  show "length (NetUnparser_unparse_int [] v) = n"
    by (simp add: NetUnparser_unparse_int_eq len)
  have val: "be_val (be_bytes n (unat x)) = unat x" for x :: "'w word"
    using unat_lt [of x] by (simp add: be_val_be_bytes pow)
  show "v = v'" if "NetUnparser_unparse_int [] v = NetUnparser_unparse_int [] v'"
  proof -
    have "be_bytes n (unat v) = be_bytes n (unat v')"
      using that by (simp add: NetUnparser_unparse_int_eq len)
    then have "unat v = unat v'"
      by (metis val)
    then show ?thesis
      by (simp only: word_unat_eq_iff)
  qed
  fix p :: NetParser and p'
  assume p: "np_wf p"
  let ?s = "np_rest p"
  consider (ok) p1 where "NetParser_parse_int p = Inr (of_nat (be_val (take n ?s)) :: 'w word, p1)"
      "np_wf p1" "np_error p1 = NoError" "np_rest p1 = drop n ?s" "np_error p = NoError" "n \<le> length ?s"
    | (bad) p1 where "NetParser_parse_int p = Inr (0 :: 'w word, p1)" "np_wf p1" "np_error p1 \<noteq> NoError"
      "np_error p1 = np_error p \<or> np_error p1 = PacketTooShort"
      "\<not> (np_error p = NoError \<and> n \<le> length ?s)"
    using NetParser_parse_int_ok [OF _ w, of p ?s] NetParser_parse_int_fail [OF p w] p
    unfolding np_at_def by blast
  note outcome = this
  show "\<exists>v p'. (NetParser_parse_int p :: ('w word \<times> NetParser) res) = Inr (v, p') \<and> np_wf p' \<and>
      (np_error p' = np_error p \<or> np_error p' = PacketTooShort)"
    by (rule outcome) auto
  assume g: "NetParser_parse_int p = Inr (v, p')"
  show "np_error p' = NoError \<longleftrightarrow> np_error p = NoError \<and> n \<le> length ?s"
    by (rule outcome) (use g in auto)
  assume e: "np_error p' = NoError"
  show "?s = NetUnparser_unparse_int [] v @ np_rest p'"
  proof (rule outcome)
    fix p1
    assume "NetParser_parse_int p = Inr (of_nat (be_val (take n ?s)) :: 'w word, p1)"
      and r: "np_rest p1 = drop n ?s" and n: "n \<le> length ?s"
    then have v: "v = of_nat (be_val (take n ?s))" and "p' = p1"
      using g by auto
    have "unat v = be_val (take n ?s)"
      using be_val_less [of "take n ?s"] n pow by (simp add: v unat_of_nat min_absorb2)
    then have "be_bytes n (unat v) = take n ?s"
      using be_bytes_be_val [of "take n ?s"] n by (simp add: min_absorb2)
    then show ?thesis
      by (simp add: NetUnparser_unparse_int_eq len r \<open>p' = p1\<close>)
  qed (use g e in auto)
qed

text \<open>The bytes of one integer on the wire.\<close>

definition be8 :: "8 word \<Rightarrow> bytes" where
  "be8 v = be_bytes 1 (unat v)"

definition be16 :: "16 word \<Rightarrow> bytes" where
  "be16 v = be_bytes 2 (unat v)"

definition be32 :: "32 word \<Rightarrow> bytes" where
  "be32 v = be_bytes 4 (unat v)"

lemma NetUnparser_append [simp]:
  "NetUnparser_u8 s a = s @ be8 a" "NetUnparser_u16 s b = s @ be16 b"
  "NetUnparser_u32 s c = s @ be32 c"
  by (simp_all add: NetUnparser_u8_def NetUnparser_u16_def NetUnparser_u32_def
      NetUnparser_unparse_int_eq be8_def be16_def be32_def)

interpretation u8: wire_field NetParser_u8 be8 1
proof -
  have "NetUnparser_unparse_int [] = be8"
    by (rule ext) (simp add: be8_def NetUnparser_unparse_int_eq)
  then show "wire_field NetParser_u8 be8 1"
    using wire_int [where 'w = 8 and n = 1] by (simp add: NetParser_u8_def)
qed

interpretation u16: wire_field NetParser_u16 be16 2
proof -
  have "NetUnparser_unparse_int [] = be16"
    by (rule ext) (simp add: be16_def NetUnparser_unparse_int_eq)
  then show "wire_field NetParser_u16 be16 2"
    using wire_int [where 'w = 16 and n = 2] by (simp add: NetParser_u16_def)
qed

interpretation u32: wire_field NetParser_u32 be32 4
proof -
  have "NetUnparser_unparse_int [] = be32"
    by (rule ext) (simp add: be32_def NetUnparser_unparse_int_eq)
  then show "wire_field NetParser_u32 be32 4"
    using wire_int [where 'w = 32 and n = 4] by (simp add: NetParser_u32_def)
qed

lemmas be_length [simp] = u8.put_length u16.put_length u32.put_length

lemma NetParser_remove_prefix_at:
  assumes "np_at p s" and "n \<le> length s"
  shows "\<exists>p'. NetParser_remove_prefix n p = Inr ((), p') \<and> np_at p' (drop n s)"
proof -
  have p: "Buffer_wf (np_buffer p)" "np_error p = NoError" "Buffer_str (np_buffer p) = s"
    using assms by (simp_all add: np_at_def np_wf_def np_rest_def)
  obtain b' where "Buffer_remove_prefix n (np_buffer p) = Inr b'" "Buffer_wf b'"
    "Buffer_str b' = drop n s"
    using buf.remove_enough [OF p(1), of n] p(3) assms(2) by auto
  then show ?thesis
    using p assms(2)
    by (simp add: NetParser_remove_prefix_def Let_def NetParser_check_size_def NetParser_error_def
        Buffer_size_def np_at_def np_wf_def np_rest_def)
qed

lemma NetParser_remove_prefix_total:
  assumes "np_wf p"
  shows "\<exists>p'. NetParser_remove_prefix n p = Inr ((), p') \<and> np_wf p' \<and>
    (np_error p' = np_error p \<or> np_error p' = PacketTooShort) \<and>
    (np_error p' = NoError \<longleftrightarrow> np_error p = NoError \<and> n \<le> length (np_rest p)) \<and>
    (np_error p' = NoError \<longrightarrow> np_rest p' = drop n (np_rest p))"
proof (cases "np_error p = NoError \<and> n \<le> length (np_rest p)")
  case True
  then show ?thesis
    using NetParser_remove_prefix_at [of p "np_rest p" n] assms by (auto simp: np_at_def)
next
  case False
  then show ?thesis
    using assms
    by (auto simp: NetParser_remove_prefix_def Let_def NetParser_check_size_def NetParser_error_def
        Buffer_size_def np_wf_def np_rest_def)
qed

lemma NetParser_remove_prefix_reads: "np_reads (NetParser_remove_prefix n) n"
  using NetParser_remove_prefix_total by (fastforce simp: np_reads_def)

lemmas np_reads_intros = np_reads_bind np_reads_return u8.get_reads u16.get_reads u32.get_reads

lemma be16_bytes: "be16 c = [ucast (drop_bit 8 c), ucast c]"
proof -
  have "be_bytes 2 (unat c) = [of_nat (unat c div 256), of_nat (unat c)]"
    by (simp add: be_bytes_def numeral_2_eq_2)
  moreover have "of_nat (unat c div 256) = (ucast (drop_bit 8 c) :: byte)"
  proof -
    have "unat c div 256 = unat (drop_bit 8 c)"
      by (subst unat_drop_bit_eq) (simp add: drop_bit_eq_div)
    then show ?thesis
      by (simp only: of_nat_unat)
  qed
  ultimately show ?thesis
    by (simp add: be16_def)
qed

lemma be16_zero [simp]: "be16 0 = [0, 0]"
  by (simp add: be16_bytes)

lemma be16_sum: "256 * unat (ucast (drop_bit 8 c) :: byte) + unat (ucast c :: byte) = unat (c :: 16 word)"
proof -
  have "unat c < 2 ^ 16"
    using unsigned_less [of c] by simp
  moreover have "unat (drop_bit 8 c) = unat c div 256"
    by (subst unat_drop_bit_eq) (simp add: drop_bit_eq_div)
  ultimately show ?thesis
    by (simp add: unsigned_ucast_eq take_bit_eq_mod)
qed

end
