(* ===== verification/Internet_Checksum.thy ===== *)
theory Internet_Checksum
  imports Sponge_Prelude
begin

unbundle bit_operations_syntax

text \<open>
  The Internet checksum of \<^verbatim>\<open>libsponge/util/util.hh\<close> and \<^verbatim>\<open>util.cc\<close>: a 32-bit accumulator that adds
  the bytes in turn at the high and the low half of a 16-bit number, and a final loop that folds the
  carries back in. The loop is shown to end and to compute the one's complement sum modulo
  \<open>2 ^ 16 - 1\<close>, from which it follows that data carrying its own checksum verifies.
\<close>

section \<open>State and operations\<close>

record InternetChecksum =
  ic_sum :: "32 word"
  ic_parity :: bool

definition InternetChecksum_init :: "32 word \<Rightarrow> InternetChecksum" where
  "InternetChecksum_init initial_sum = \<lparr>ic_sum = initial_sum, ic_parity = False\<rparr>"

definition ic_add_byte :: "byte \<Rightarrow> InternetChecksum \<Rightarrow> InternetChecksum" where
  "ic_add_byte b c =
     (let val = ucast b :: 16 word;
          val = (if \<not> ic_parity c then push_bit 8 val else val)
      in c\<lparr>ic_sum := ic_sum c + ucast val, ic_parity := \<not> ic_parity c\<rparr>)"

definition InternetChecksum_add :: "bytes \<Rightarrow> InternetChecksum \<Rightarrow> InternetChecksum" where
  "InternetChecksum_add data c = fold ic_add_byte data c"

function ic_fold :: "32 word \<Rightarrow> 32 word" where
  "ic_fold ret =
     (if ret > 0xffff then ic_fold (drop_bit 16 ret + (ret AND 0xffff)) else ret)"
  by pat_completeness auto

lemma ic_fold_step:
  "unat (drop_bit 16 ret + (ret AND 0xffff) :: 32 word) = unat ret div 65536 + unat ret mod 65536"
proof -
  have hi: "unat (drop_bit 16 ret) = unat ret div 65536"
    by (subst unat_drop_bit_eq) (simp add: drop_bit_eq_div)
  have ff: "(0xffff :: 32 word) = mask 16"
    by (simp add: mask_eq_exp_minus_1)
  have "ret AND 0xffff = take_bit 16 ret"
    by (simp only: ff take_bit_eq_mask)
  then have lo: "unat (ret AND 0xffff) = unat ret mod 65536"
    by (simp only: unsigned_take_bit_eq) (simp add: take_bit_eq_mod)
  have "unat ret < 2 ^ 32"
    using unsigned_less [of ret] by simp
  then have "unat ret div 65536 + unat ret mod 65536 < 2 ^ 32"
    by simp
  then show ?thesis
    by (simp add: unat_word_ariths hi lo)
qed

lemma ic_fold_gt: "ret > 0xffff \<longleftrightarrow> unat (ret :: 32 word) > 65535"
  by (simp add: word_less_nat_alt)

termination ic_fold
proof (relation "measure unat")
  fix ret :: "32 word"
  assume "ret > 0xffff"
  then have "unat ret > 65535"
    by (simp only: ic_fold_gt)
  then have "unat ret div 65536 + unat ret mod 65536 < unat ret"
    using div_mult_mod_eq [of "unat ret" 65536] by linarith
  then show "(drop_bit 16 ret + (ret AND 0xffff), ret) \<in> measure unat"
    by (simp only: in_measure ic_fold_step)
qed simp

declare ic_fold.simps [simp del]

definition InternetChecksum_value :: "InternetChecksum \<Rightarrow> 16 word" where
  "InternetChecksum_value c = ucast (NOT (ic_fold (ic_sum c)))"

section \<open>Reference definition\<close>

text \<open>The sum of the big-endian 16-bit words of the data, padded with a zero byte if it is odd.\<close>

fun bytes_sum :: "bool \<Rightarrow> bytes \<Rightarrow> nat" where
  "bytes_sum parity [] = 0"
| "bytes_sum parity (b # bs) = (if parity then unat b else 256 * unat b) + bytes_sum (\<not> parity) bs"

text \<open>The representative of \<open>s\<close> modulo \<open>65535\<close> that end-around carries leave: zero only for zero.\<close>

definition ones_sum :: "nat \<Rightarrow> nat" where
  "ones_sum s = (if s = 0 then 0 else (s - 1) mod 65535 + 1)"

lemma ones_sum_le: "ones_sum s \<le> 65535"
  using mod_less_divisor [of 65535 "s - 1"] by (simp add: ones_sum_def Suc_le_eq)

lemma ones_sum_mod: "ones_sum s mod 65535 = s mod 65535"
proof (cases s)
  case (Suc k)
  then show ?thesis
    by (simp add: ones_sum_def mod_Suc_eq)
qed (simp add: ones_sum_def)

lemma ones_sum_fold:
  assumes "s > 65535"
  shows "ones_sum (s div 65536 + s mod 65536) = ones_sum s"
proof -
  obtain h l where s: "s = 65536 * h + l" and l: "l < 65536"
    using mult_div_mod_eq [of 65536 s] mod_less_divisor [of 65536 s] by (metis zero_less_numeral)
  then have h: "0 < h"
    using assms by (cases h) auto
  have "65536 * h + l - 1 = (h + l - 1) + h * 65535"
    using h by simp
  then have "(65536 * h + l - 1) mod 65535 = (h + l - 1) mod 65535"
    by (simp only: mod_mult_self1)
  then show ?thesis
    using s l h by (simp add: ones_sum_def)
qed

lemma unat_ic_fold: "unat (ic_fold w) = ones_sum (unat w)"
proof (induction w rule: ic_fold.induct)
  case (1 w)
  show ?case
  proof (cases "w > 0xffff")
    case True
    then have "unat w > 65535"
      by (simp only: ic_fold_gt)
    then show ?thesis
      using 1 True ic_fold.simps [of w] ic_fold_step [of w] ones_sum_fold by simp
  next
    case False
    then have "unat w \<le> 65535"
      using ic_fold_gt [of w] by simp
    then show ?thesis
      using False ic_fold.simps [of w] by (simp add: ones_sum_def)
  qed
qed

lemma unat_InternetChecksum_value:
  "unat (InternetChecksum_value c) = 65535 - ones_sum (unat (ic_sum c))"
proof -
  let ?r = "ic_fold (ic_sum c)"
  let ?x = "ucast ?r :: 16 word"
  have r: "unat ?r \<le> 65535"
    using ones_sum_le unat_ic_fold by simp
  have x: "unat ?x = unat ?r"
    using r by (simp only: unsigned_ucast_eq) (simp add: take_bit_eq_mod)
  have "(ucast (NOT ?r) :: 16 word) = NOT ?x"
    by (rule bit_word_eqI) (simp add: bit_simps)
  also have "\<dots> = (- 1) - ?x"
    by (simp add: not_eq_complement)
  finally have "unat (InternetChecksum_value c) = unat ((- 1) - ?x)"
    by (simp add: InternetChecksum_value_def)
  also have "\<dots> = unat (- 1 :: 16 word) - unat ?x"
    by (rule unat_sub) simp
  finally show ?thesis
    by (simp add: x unat_ic_fold unsigned_minus_1_eq_mask mask_eq_exp_minus_1)
qed

section \<open>Sums\<close>

lemma bytes_sum_append:
  "bytes_sum parity (xs @ ys) = bytes_sum parity xs + bytes_sum (parity \<noteq> odd (length xs)) ys"
proof (induction xs arbitrary: parity)
  case (Cons x xs)
  then show ?case
    by (cases parity) simp_all
qed simp

lemma bytes_sum_le: "bytes_sum parity bs \<le> 65280 * length bs"
proof (induction bs arbitrary: parity)
  case (Cons b bs)
  have "unat b < 2 ^ LENGTH(8)"
    by (rule unsigned_less)
  then show ?case
    using Cons.IH [of "\<not> parity"] by (cases parity) simp_all
qed simp

lemma ic_add_byte_sum:
  "unat (ic_sum (ic_add_byte b c)) =
     (unat (ic_sum c) + bytes_sum (ic_parity c) [b]) mod 2 ^ 32"
proof -
  have b: "unat b < 256"
    using unsigned_less [of b] by simp
  have "unat (push_bit 8 (ucast b :: 16 word)) = 256 * unat b"
    using b by (simp add: push_bit_eq_mult unat_word_ariths unsigned_ucast_eq take_bit_eq_mod)
  moreover have "unat (ucast b :: 16 word) = unat b"
    using b by (simp add: unsigned_ucast_eq take_bit_eq_mod)
  ultimately show ?thesis
    using b
    by (simp add: ic_add_byte_def Let_def unat_word_ariths unsigned_ucast_eq take_bit_eq_mod)
qed

lemma InternetChecksum_add_append:
  "InternetChecksum_add (xs @ ys) c = InternetChecksum_add ys (InternetChecksum_add xs c)"
  by (simp add: InternetChecksum_add_def)

lemma InternetChecksum_add_parity:
  "ic_parity (InternetChecksum_add bs c) = (ic_parity c \<noteq> odd (length bs))"
proof (induction bs arbitrary: c)
  case (Cons b bs)
  then show ?case
    by (cases "ic_parity c") (simp_all add: InternetChecksum_add_def ic_add_byte_def Let_def)
qed (simp add: InternetChecksum_add_def)

lemma InternetChecksum_add_sum:
  "unat (ic_sum (InternetChecksum_add bs c)) =
     (unat (ic_sum c) + bytes_sum (ic_parity c) bs) mod 2 ^ 32"
proof (induction bs arbitrary: c)
  case Nil
  have "unat (ic_sum c) < 2 ^ LENGTH(32)"
    by (rule unsigned_less)
  then show ?case
    by (simp add: InternetChecksum_add_def)
next
  case (Cons b bs)
  have "ic_parity (ic_add_byte b c) = (\<not> ic_parity c)"
    by (simp add: ic_add_byte_def Let_def)
  then show ?case
    using Cons.IH [of "ic_add_byte b c"] ic_add_byte_sum [of b c]
    by (simp add: InternetChecksum_add_def mod_simps algebra_simps del: bytes_sum.simps(2))
      (simp add: mod_simps algebra_simps)
qed

text \<open>The checksum over \<open>data\<close>, with the pseudo-header's contribution \<open>initial\<close>.\<close>

definition inet_cksum :: "32 word \<Rightarrow> bytes \<Rightarrow> 16 word" where
  "inet_cksum initial bs =
     InternetChecksum_value (InternetChecksum_add bs (InternetChecksum_init initial))"

lemma unat_inet_cksum:
  assumes "unat initial + bytes_sum False bs < 2 ^ 32"
  shows "unat (inet_cksum initial bs) = 65535 - ones_sum (unat initial + bytes_sum False bs)"
  using assms
  by (simp add: inet_cksum_def unat_InternetChecksum_value InternetChecksum_add_sum
      InternetChecksum_init_def)

lemma ones_sum_eq_max_iff: "ones_sum s = 65535 \<longleftrightarrow> 0 < s \<and> s mod 65535 = 0"
proof (cases s)
  case (Suc k)
  have "k mod 65535 = 65534 \<longleftrightarrow> Suc k mod 65535 = 0"
    by (simp add: mod_Suc)
  then show ?thesis
    by (simp add: Suc ones_sum_def)
qed (simp add: ones_sum_def)

lemma inet_cksum_zero_iff:
  assumes "unat initial + bytes_sum False bs < 2 ^ 32"
  shows "inet_cksum initial bs = 0 \<longleftrightarrow>
    0 < unat initial + bytes_sum False bs \<and> (unat initial + bytes_sum False bs) mod 65535 = 0"
proof -
  have "inet_cksum initial bs = 0 \<longleftrightarrow> unat (inet_cksum initial bs) = 0"
    by (simp add: unat_eq_0)
  then show ?thesis
    using unat_inet_cksum [OF assms] ones_sum_eq_max_iff ones_sum_le [of "unat initial + bytes_sum False bs"]
    by fastforce
qed

lemma inet_cksum_insert:
  fixes pre post :: bytes and h l :: byte and initial :: "32 word"
  defines "s \<equiv> unat initial + bytes_sum False (pre @ [0, 0] @ post)"
  assumes "even (length pre)" and "s + 65535 < 2 ^ 32"
    and hl: "256 * unat h + unat l = unat (inet_cksum initial (pre @ [0, 0] @ post))"
  shows "inet_cksum initial (pre @ [h, l] @ post) = 0"
proof -
  have c: "256 * unat h + unat l = 65535 - ones_sum s"
    using hl assms(3) unat_inet_cksum [of initial "pre @ [0, 0] @ post"] by (simp add: s_def)
  have sum: "unat initial + bytes_sum False (pre @ [h, l] @ post) = s + (65535 - ones_sum s)"
    using c assms(2) by (simp add: s_def bytes_sum_append)
  have pos: "0 < s + (65535 - ones_sum s)"
    by (cases "s = 0") (simp_all add: ones_sum_def)
  have "(s + (65535 - ones_sum s)) mod 65535 = (ones_sum s + (65535 - ones_sum s)) mod 65535"
    by (metis mod_add_left_eq ones_sum_mod)
  then have "(s + (65535 - ones_sum s)) mod 65535 = 0"
    using ones_sum_le [of s] by simp
  moreover have "unat initial + bytes_sum False (pre @ [h, l] @ post) < 2 ^ 32"
    using sum assms(3) by linarith
  ultimately show ?thesis
    using pos by (simp only: inet_cksum_zero_iff sum)
qed

section \<open>Properties\<close>

text \<open>
  C19. The accumulator with its final folding loop computes the reference checksum: the complement of
  the one's complement sum of the 16-bit words of all chunks added, as long as the 32-bit accumulator
  does not overflow.
\<close>

theorem InternetChecksum_reference:
  assumes "unat initial + bytes_sum False (xs @ ys) < 2 ^ 32"
  shows "unat (InternetChecksum_value
      (InternetChecksum_add ys (InternetChecksum_add xs (InternetChecksum_init initial)))) =
    65535 - ones_sum (unat initial + bytes_sum False (xs @ ys))"
  using unat_inet_cksum [OF assms] by (simp add: inet_cksum_def InternetChecksum_add_append)

theorem InternetChecksum_reference_witness:
  "InternetChecksum_value (InternetChecksum_add [3] (InternetChecksum_add [1, 2] (InternetChecksum_init 4))) =
     0xffff - (0x0102 + 0x0300 + 4)"
proof -
  have "unat (InternetChecksum_value
      (InternetChecksum_add [3] (InternetChecksum_add [1, 2] (InternetChecksum_init 4)))) = 64505"
    using InternetChecksum_reference [of 4 "[1, 2]" "[3]"] by (simp add: ones_sum_def)
  then show ?thesis
    by (simp add: word_unat_eq_iff)
qed

text \<open>
  C20. Data that carries its own checksum verifies: when the checksum computed over the data with a
  zero field at an even offset is written into that field in network byte order, the checksum over
  the result is zero.
\<close>

theorem InternetChecksum_verifies:
  assumes "even (length pre)"
    and "unat initial + bytes_sum False (pre @ [0, 0] @ post) + 65535 < 2 ^ 32"
    and "c = InternetChecksum_value
      (InternetChecksum_add (pre @ [0, 0] @ post) (InternetChecksum_init initial))"
  shows "InternetChecksum_value (InternetChecksum_add
      (pre @ [ucast (drop_bit 8 c), ucast c] @ post) (InternetChecksum_init initial)) = 0"
proof -
  have "256 * unat (ucast (drop_bit 8 c) :: byte) + unat (ucast c :: byte) = unat c"
  proof -
    have "unat c < 2 ^ 16"
      using unsigned_less [of c] by simp
    moreover have "unat (drop_bit 8 c) = unat c div 256"
      by (subst unat_drop_bit_eq) (simp add: drop_bit_eq_div)
    ultimately show ?thesis
      by (simp add: unsigned_ucast_eq take_bit_eq_mod)
  qed
  then show ?thesis
    using inet_cksum_insert [OF assms(1,2)] assms(3) by (simp add: inet_cksum_def)
qed

theorem InternetChecksum_verifies_witness:
  "InternetChecksum_value (InternetChecksum_add [0x45, 0x00, 0xb6, 0xfc, 0x04, 0x03] (InternetChecksum_init 0)) = 0"
proof -
  have "unat (inet_cksum 0 ([0x45, 0] @ [0, 0] @ [4, 3])) = unat (0xb6fc :: 16 word)"
    using unat_inet_cksum [of 0 "[0x45, 0] @ [0, 0] @ [4, 3]"] by (simp add: ones_sum_def)
  then have "0xb6fc = inet_cksum 0 ([0x45, 0] @ [0, 0] @ [4, 3])"
    by (simp only: word_unat_eq_iff)
  note field = this
  have byte: "(46844 :: byte) = 252"
    by simp
  from InternetChecksum_verifies [OF _ _ field [unfolded inet_cksum_def]] show ?thesis
    by (simp add: drop_bit_eq_div byte)
qed

end
