(* ===== verification/Wrapping_Integers.thy ===== *)
theory Wrapping_Integers
  imports Sponge_Prelude
begin

text \<open>
  The 32-bit wrapping sequence numbers of \<^verbatim>\<open>libsponge/wrapping_integers.hh\<close> and
  \<^verbatim>\<open>wrapping_integers.cc\<close>. All arithmetic is kept at the width of the source: absolute sequence
  numbers are 64-bit words, raw values and offsets are 32-bit words.
\<close>

unbundle bit_operations_syntax

datatype WrappingInt32 = WrappingInt32 (raw_value: "32 word")

definition WrappingInt32_diff :: "WrappingInt32 \<Rightarrow> WrappingInt32 \<Rightarrow> int" where
  "WrappingInt32_diff a b = sint (raw_value a - raw_value b)"

definition WrappingInt32_eq :: "WrappingInt32 \<Rightarrow> WrappingInt32 \<Rightarrow> bool" where
  "WrappingInt32_eq a b = (raw_value a = raw_value b)"

definition WrappingInt32_ne :: "WrappingInt32 \<Rightarrow> WrappingInt32 \<Rightarrow> bool" where
  "WrappingInt32_ne a b = (\<not> WrappingInt32_eq a b)"

definition WrappingInt32_gt :: "WrappingInt32 \<Rightarrow> WrappingInt32 \<Rightarrow> bool" where
  "WrappingInt32_gt a b = (raw_value a > raw_value b)"

definition WrappingInt32_ge :: "WrappingInt32 \<Rightarrow> WrappingInt32 \<Rightarrow> bool" where
  "WrappingInt32_ge a b = (raw_value a \<ge> raw_value b)"

definition WrappingInt32_lt :: "WrappingInt32 \<Rightarrow> WrappingInt32 \<Rightarrow> bool" where
  "WrappingInt32_lt a b = (raw_value a < raw_value b)"

definition WrappingInt32_le :: "WrappingInt32 \<Rightarrow> WrappingInt32 \<Rightarrow> bool" where
  "WrappingInt32_le a b = (raw_value a \<le> raw_value b)"

definition WrappingInt32_plus :: "WrappingInt32 \<Rightarrow> 32 word \<Rightarrow> WrappingInt32" where
  "WrappingInt32_plus a b = WrappingInt32 (raw_value a + b)"

definition WrappingInt32_minus :: "WrappingInt32 \<Rightarrow> 32 word \<Rightarrow> WrappingInt32" where
  "WrappingInt32_minus a b = WrappingInt32_plus a (- b)"

definition UINT32_MAX :: "32 word" where
  "UINT32_MAX = 0xFFFFFFFF"

definition wrap :: "64 word \<Rightarrow> WrappingInt32 \<Rightarrow> WrappingInt32" where
  "wrap n isn = WrappingInt32 (ucast ((n AND 0xFFFFFFFF) + ucast (raw_value isn)))"

definition unwrap :: "WrappingInt32 \<Rightarrow> WrappingInt32 \<Rightarrow> 64 word \<Rightarrow> 64 word" where
  "unwrap n isn checkpoint =
     (let nn = raw_value n;
          cn = raw_value (wrap checkpoint isn);
          cn_is_large = (cn \<ge> nn);
          offset = (if cn_is_large then cn - nn else nn - cn);
          of_large_half = (offset > UINT32_MAX div 2);
          backward = ((\<not> cn_is_large \<and> of_large_half) \<or> (cn_is_large \<and> \<not> of_large_half))
      in if backward then
           (if checkpoint \<le> ucast (UINT32_MAX div 2) \<and>
               ((of_large_half \<and> checkpoint - ucast (UINT32_MAX + 1 - offset) > ucast UINT32_MAX) \<or>
                (\<not> of_large_half \<and> checkpoint - ucast offset > ucast UINT32_MAX))
            then (if cn \<le> nn then checkpoint + ucast offset
                  else checkpoint + ucast (UINT32_MAX + 1 - offset))
            else if \<not> of_large_half then checkpoint - ucast offset
            else checkpoint - ucast (UINT32_MAX + 1 - offset))
         else
           (if \<not> of_large_half then checkpoint + ucast offset
            else checkpoint + ucast (UINT32_MAX + 1 - offset)))"

section \<open>Both functions over the integers\<close>

lemma UINT32_MAX_half: "UINT32_MAX div 2 = 0x7FFFFFFF"
  by (simp add: UINT32_MAX_def)

lemma UINT32_MAX_plus_1: "UINT32_MAX + 1 - x = - x"
  by (simp add: UINT32_MAX_def)

lemma uint_ucast32: "uint (ucast (n :: 64 word) :: 32 word) = uint n mod 2 ^ 32"
  by (simp add: unsigned_ucast_eq take_bit_eq_mod)

lemma uint_ucast64: "uint (ucast (n :: 32 word) :: 64 word) = uint n"
  by (rule uint_up_ucast) (simp add: is_up)

lemma uint_mask32: "uint (n AND 0xFFFFFFFF :: 64 word) = uint n mod 2 ^ 32"
proof -
  have "n AND 0xFFFFFFFF = take_bit 32 n"
    by (simp add: take_bit_eq_mask mask_numeral)
  then show ?thesis
    by (metis take_bit_eq_mod unsigned_take_bit_eq)
qed

lemma uint_wrap: "uint (raw_value (wrap n isn)) = (uint n + uint (raw_value isn)) mod 2 ^ 32"
proof -
  have "uint (raw_value (wrap n isn)) =
      (uint n mod 2 ^ 32 + uint (raw_value isn)) mod 2 ^ 64 mod 2 ^ 32"
    by (simp only: wrap_def WrappingInt32.sel uint_ucast32 uint_word_ariths uint_mask32 uint_ucast64)
      simp
  also have "\<dots> = (uint n mod 2 ^ 32 + uint (raw_value isn)) mod 2 ^ 32"
    by (rule mod_mod_cancel) simp
  finally show ?thesis
    by (simp add: mod_add_left_eq)
qed

lemma uint32_bounds: "0 \<le> uint (w :: 32 word)" "uint w < 2 ^ 32"
  using uint_lt2p [of w] by simp_all

lemma uint64_bounds: "0 \<le> uint (w :: 64 word)" "uint w < 2 ^ 64"
  using uint_lt2p [of w] by simp_all

lemma uint_neg32: "uint (- x :: 32 word) = (if uint x = 0 then 0 else 2 ^ 32 - uint x)"
  using uint_sub_if' [of 0 x] uint32_bounds [of x] by auto

lemma uint_minus64: "uint (a - ucast (b :: 32 word) :: 64 word) =
   (if uint b \<le> uint a then uint a - uint b else 2 ^ 64 + uint a - uint b)"
  by (simp add: uint_sub_if' uint_ucast64)

lemma uint_plus64: "uint (a + ucast (b :: 32 word) :: 64 word) = (uint a + uint b) mod 2 ^ 64"
  by (simp add: uint_word_ariths uint_ucast64)

lemma fwd_eq:
  assumes "0 \<le> nn" "nn < 2 ^ 32" "0 \<le> cn" "cn < (2::int) ^ 32"
  shows "(nn - cn) mod 2 ^ 32 = (if cn \<le> nn then nn - cn else 2 ^ 32 - (cn - nn))"
  using assms mod_add_self2 [of "nn - cn" "2 ^ 32"] mod_pos_pos_trivial [of "2 ^ 32 + nn - cn" "2 ^ 32"] by (auto simp: algebra_simps)

lemma unwrap_uint:
  fixes n isn cp
  defines "c \<equiv> uint cp" and "nn \<equiv> uint (raw_value n)" and "cn \<equiv> uint (raw_value (wrap cp isn))"
  defines "f \<equiv> (nn - cn) mod 2 ^ 32"
  shows "uint (unwrap n isn cp) =
    (if (f = 0 \<or> f > 2 ^ 31 \<or> (f = 2 ^ 31 \<and> cn < nn)) \<and> (2 ^ 32 - f) mod 2 ^ 32 \<le> c
     then c - (2 ^ 32 - f) mod 2 ^ 32 else (c + f) mod 2 ^ 64)"
proof (cases "nn \<le> cn")
  case True
  have b: "0 \<le> c" "c < 2 ^ 64" "0 \<le> nn" "nn < 2 ^ 32" "0 \<le> cn" "cn < 2 ^ 32"
    unfolding c_def nn_def cn_def by (rule uint32_bounds uint64_bounds)+
  have o: "uint (raw_value (wrap cp isn) - raw_value n) = cn - nn"
    using True by (simp add: uint_sub_if' nn_def cn_def)
  have o': "uint (raw_value n - raw_value (wrap cp isn)) = (if cn = nn then 0 else 2 ^ 32 - (cn - nn))"
    using True by (simp add: uint_sub_if' nn_def cn_def)
  have le: "raw_value n \<le> raw_value (wrap cp isn)"
    using True by (simp add: word_le_def nn_def cn_def)
  have f: "f = (if cn = nn then 0 else 2 ^ 32 - (cn - nn))"
    unfolding f_def using fwd_eq b True by simp
  show ?thesis
    unfolding unwrap_def Let_def UINT32_MAX_half UINT32_MAX_plus_1 
    using b True le o f
    by (auto simp: word_le_def word_less_def uint_minus64 uint_plus64 o o' UINT32_MAX_def
        uint_ucast64 simp flip: c_def nn_def cn_def)
next
  case False
  have b: "0 \<le> c" "c < 2 ^ 64" "0 \<le> nn" "nn < 2 ^ 32" "0 \<le> cn" "cn < 2 ^ 32"
    unfolding c_def nn_def cn_def by (rule uint32_bounds uint64_bounds)+
  have o: "uint (raw_value n - raw_value (wrap cp isn)) = nn - cn"
    using False by (simp add: uint_sub_if' nn_def cn_def)
  have o': "uint (raw_value (wrap cp isn) - raw_value n) = 2 ^ 32 - (nn - cn)"
    using False by (simp add: uint_sub_if' nn_def cn_def)
  have le: "\<not> raw_value n \<le> raw_value (wrap cp isn)"
    using False by (simp add: word_le_def nn_def cn_def)
  have m: "(cn - nn) mod 2 ^ 32 = 2 ^ 32 - (nn - cn)"
    using fwd_eq [of cn nn] b False by simp
  have f: "f = nn - cn"
    unfolding f_def using fwd_eq b False by simp
  show ?thesis
    unfolding unwrap_def Let_def UINT32_MAX_half UINT32_MAX_plus_1 
    using b False le o f m
    by (auto simp: word_le_def word_less_def uint_minus64 uint_plus64 o o' UINT32_MAX_def
        uint_ucast64 simp flip: c_def nn_def cn_def)
qed

lemma mod_inner: "(c + x mod M + i) mod M = (c + x + i) mod (M :: int)"
  using mod_add_right_eq [of "c + i" x M] by (simp add: ac_simps)

lemma mod_forward: "(c + (n - (c + i) mod M) mod M + i) mod M = n mod (M :: int)"
proof -
  have "(c + (n - (c + i) mod M) mod M + i) mod M = (c + i + n - (c + i) mod M) mod M"
    unfolding mod_inner by (simp add: algebra_simps)
  also have "\<dots> = n mod M"
    unfolding mod_diff_right_eq by simp
  finally show ?thesis .
qed

lemma mod_backward: "(c - (M - f) mod M + i) mod M = (c + f + i) mod (M :: int)"
proof -
  have "(c - (M - f) mod M + i) mod M = (c + i - (M - f)) mod M"
    using mod_diff_right_eq [of "c + i" "M - f" M] by (simp add: algebra_simps)
  also have "\<dots> = (c + f + i) mod M"
    using minus_mod_self2 [of "c + f + i" M] by (simp add: algebra_simps)
  finally show ?thesis .
qed

lemma unwrap_mod: "(uint (unwrap n isn cp) + uint (raw_value isn)) mod 2 ^ 32 = uint (raw_value n)"
proof -
  define c where "c = uint cp"
  define i where "i = uint (raw_value isn)"
  define nn where "nn = uint (raw_value n)"
  define f where "f = (nn - (c + i) mod 2 ^ 32) mod 2 ^ 32"
  have fwd: "(c + f + i) mod 2 ^ 32 = nn"
    using uint32_bounds [of "raw_value n"] mod_forward [of c nn i "2 ^ 32"]
    by (simp add: f_def nn_def)
  have bwd: "(c - (2 ^ 32 - f) mod 2 ^ 32 + i) mod 2 ^ 32 = nn"
    using fwd by (simp only: mod_backward)
  have "(c + f) mod 2 ^ 64 mod 2 ^ 32 = (c + f) mod 2 ^ 32"
    by (rule mod_mod_cancel) simp
  then have wrapped: "((c + f) mod 2 ^ 64 + i) mod 2 ^ 32 = nn"
    using fwd by (metis mod_add_left_eq)
  show ?thesis
    using fwd bwd wrapped
    unfolding unwrap_uint unfolding uint_wrap
    unfolding c_def [symmetric] i_def [symmetric] nn_def [symmetric]
    unfolding f_def [symmetric]
    by (simp only: split: if_splits) blast
qed

lemma wrap_unwrap_id: "wrap (unwrap n isn checkpoint) isn = n"
  by (rule WrappingInt32.expand) (simp only: uint_wrap unwrap_mod word_uint_eq_iff)

lemma fwd_distance:
  assumes "wrap x isn = n"
  shows "(uint (raw_value n) - uint (raw_value (wrap cp isn))) mod 2 ^ 32 = (uint x - uint cp) mod 2 ^ 32"
proof -
  have "uint (raw_value n) = (uint x + uint (raw_value isn)) mod 2 ^ 32"
    using assms uint_wrap by blast
  then show ?thesis
    by (simp add: uint_wrap mod_diff_eq)
qed

lemma unwrap_offset:
  fixes x cp :: "64 word"
  defines "f \<equiv> (uint x - uint cp) mod 2 ^ 32"
  assumes "wrap x isn = n"
  obtains "uint (unwrap n isn cp) = uint cp" and "f = 0"
  | "uint (unwrap n isn cp) = uint cp - (2 ^ 32 - f)" and "2 ^ 31 \<le> f" and "2 ^ 32 - f \<le> uint cp"
  | "uint (unwrap n isn cp) = (uint cp + f) mod 2 ^ 64" and "0 < f" and "f \<le> 2 ^ 31"
  | "uint (unwrap n isn cp) = (uint cp + f) mod 2 ^ 64" and "2 ^ 31 \<le> f" and "uint cp < 2 ^ 32 - f"
proof -
  have b: "0 \<le> f" "f < 2 ^ 32"
    by (simp_all add: f_def)
  have m: "(2 ^ 32 - f) mod 2 ^ 32 = (if f = 0 then 0 else 2 ^ 32 - f)"
    using b mod_pos_pos_trivial [of "2 ^ 32 - f" "2 ^ 32"] by (cases "f = 0") auto
  have u: "uint (unwrap n isn cp) =
      (if (f = 0 \<or> f > 2 ^ 31 \<or> (f = 2 ^ 31 \<and> uint (raw_value (wrap cp isn)) < uint (raw_value n))) \<and>
          (if f = 0 then 0 else 2 ^ 32 - f) \<le> uint cp
       then uint cp - (if f = 0 then 0 else 2 ^ 32 - f) else (uint cp + f) mod 2 ^ 64)"
    by (simp only: unwrap_uint fwd_distance [OF assms(2), of cp] f_def [symmetric] m)
  consider "f = 0" | "0 < f" "f < 2 ^ 31" | "f = 2 ^ 31" | "2 ^ 31 < f"
    using b by linarith
  then show thesis
  proof cases
    case 1
    then show ?thesis using that(1) u by simp
  next
    case 2
    then show ?thesis using that(3) u by simp
  next
    case 3
    then show ?thesis
      using that(2,3) u by (cases "uint (unwrap n isn cp) = (uint cp + f) mod 2 ^ 64") (simp_all split: if_splits)
  next
    case 4
    then show ?thesis
      using that(2,4) u by (cases "2 ^ 32 - f \<le> uint cp") simp_all
  qed
qed

lemma unwrap_wrap_near:
  assumes "\<bar>uint x - uint checkpoint\<bar> < 2 ^ 31"
  shows "unwrap (wrap x isn) isn checkpoint = x"
proof -
  let ?d = "uint x - uint checkpoint"
  have f: "?d mod 2 ^ 32 = (if 0 \<le> ?d then ?d else ?d + 2 ^ 32)"
    using assms mod_add_self2 [of ?d "2 ^ 32"] mod_pos_pos_trivial [of "?d + 2 ^ 32" "2 ^ 32"]
    by auto
  have "uint (unwrap (wrap x isn) isn checkpoint) = uint x"
    by (rule unwrap_offset [OF refl, of x isn checkpoint])
      (use f assms uint64_bounds [of x] in \<open>auto split: if_splits\<close>)
  then show ?thesis
    by (simp add: word_uint_eq_iff)
qed

section \<open>The contract of the sequence number codec\<close>

locale seq_codec =
  fixes enc :: "64 word \<Rightarrow> WrappingInt32 \<Rightarrow> WrappingInt32"
    and dec :: "WrappingInt32 \<Rightarrow> WrappingInt32 \<Rightarrow> 64 word \<Rightarrow> 64 word"
  assumes enc_dec: "enc (dec n isn c) isn = n"
    and dec_enc: "\<bar>uint x - uint c\<bar> < 2 ^ 31 \<Longrightarrow> dec (enc x isn) isn c = x"
    and enc_step: "enc (x + 1) isn = WrappingInt32_plus (enc x isn) 1"
begin

lemma enc_inj_near:
  assumes "enc x isn = enc y isn" and "\<bar>uint x - uint y\<bar> < 2 ^ 31"
  shows "x = y"
proof -
  have "x = dec (enc x isn) isn y"
    using dec_enc [OF assms(2)] by (rule sym)
  also have "\<dots> = dec (enc y isn) isn y"
    by (simp only: assms(1))
  also have "\<dots> = y"
    by (rule dec_enc) simp
  finally show ?thesis .
qed

lemma dec_eq_iff_near:
  assumes "\<bar>uint x - uint c\<bar> < 2 ^ 31"
  shows "n = enc x isn \<longleftrightarrow> dec n isn c = x"
proof
  assume "n = enc x isn"
  then show "dec n isn c = x"
    using dec_enc [OF assms] by simp
next
  assume "dec n isn c = x"
  then show "n = enc x isn"
    using enc_dec [of n isn c] by simp
qed

end

lemma wrap_plus: "wrap (x + ucast k) isn = WrappingInt32_plus (wrap x isn) k"
proof (rule WrappingInt32.expand)
  have "uint (raw_value (wrap (x + ucast k) isn))
      = uint (raw_value (WrappingInt32_plus (wrap x isn) k))"
  proof -
    have "(uint x + uint k) mod 2 ^ 64 mod 2 ^ 32 = (uint x + uint k) mod 2 ^ 32"
      by (rule mod_mod_cancel) simp
    then have "((uint x + uint k) mod 2 ^ 64 + uint (raw_value isn)) mod 2 ^ 32
        = (uint x + uint k + uint (raw_value isn)) mod 2 ^ 32"
      by (metis mod_add_left_eq)
    moreover have "((uint x + uint (raw_value isn)) mod 2 ^ 32 + uint k) mod 2 ^ 32
        = (uint x + uint k + uint (raw_value isn)) mod 2 ^ 32"
      unfolding mod_add_left_eq by (simp add: ac_simps)
    ultimately show ?thesis
      by (simp add: uint_wrap uint_word_ariths uint_ucast64 WrappingInt32_plus_def)
  qed
  then show "raw_value (wrap (x + ucast k) isn) = raw_value (WrappingInt32_plus (wrap x isn) k)"
    by (simp add: word_uint_eq_iff)
qed

interpretation seqno: seq_codec wrap unwrap
proof unfold_locales
  fix n isn c x
  show "wrap (unwrap n isn c) isn = n"
    by (rule wrap_unwrap_id)
  show "\<bar>uint x - uint c\<bar> < 2 ^ 31 \<Longrightarrow> unwrap (wrap x isn) isn c = x"
    by (rule unwrap_wrap_near)
  show "wrap (x + 1) isn = WrappingInt32_plus (wrap x isn) 1"
    using wrap_plus [of x 1 isn] by simp
qed

section \<open>Properties\<close>

text \<open>
  Unwrapping inverts wrapping on the 32-bit side: whatever checkpoint is used, the 64-bit number
  that \<^verbatim>\<open>unwrap\<close> returns wraps back to the sequence number it was given.
\<close>

lemma wrap_unwrap: "wrap (unwrap n isn checkpoint) isn = n"
  by (rule seqno.enc_dec)

text \<open>No 64-bit number with the same sequence number is nearer to the checkpoint than the result.\<close>

lemma unwrap_nearest:
  assumes "uint checkpoint < 2 ^ 64 - 2 ^ 32" and "wrap x isn = n"
  shows "\<bar>uint (unwrap n isn checkpoint) - uint checkpoint\<bar> \<le> \<bar>uint x - uint checkpoint\<bar>"
proof -
  define c where "c = uint checkpoint"
  define d where "d = uint x - c"
  define f where "f = d mod 2 ^ 32"
  define k where "k = d div 2 ^ 32"
  have d: "d = k * 2 ^ 32 + f"
    by (simp add: k_def f_def)
  have b: "0 \<le> f" "f < 2 ^ 32" "0 \<le> c + d"
    by (simp_all add: f_def d_def c_def)
  have fd: "(uint x - c) mod 2 ^ 32 = f"
    by (simp add: f_def d_def)
  have nowrap: "(c + f) mod 2 ^ 64 = c + f"
    using b(1,2) assms(1) by (intro mod_pos_pos_trivial) (auto simp: c_def)
  have "\<bar>uint (unwrap n isn checkpoint) - c\<bar> \<le> \<bar>d\<bar>"
  proof (cases rule: unwrap_offset [OF assms(2), of checkpoint, folded c_def, unfolded fd])
    case 2
    then show ?thesis using d b by (cases "0 \<le> k") simp_all
  next
    case 3
    then show ?thesis using d b nowrap by (cases "0 \<le> k") simp_all
  next
    case 4
    then show ?thesis using d b nowrap by (cases "0 \<le> k") simp_all
  qed simp
  then show ?thesis
    by (simp add: d_def c_def)
qed

text \<open>
  C7. For a checkpoint more than \<open>2 ^ 32\<close> below the end of the 64-bit range, \<^verbatim>\<open>unwrap\<close> returns the
  absolute sequence number closest to the checkpoint: its result wraps to the sequence number it was
  given, and no other 64-bit number that wraps to it is nearer.
\<close>

theorem unwrap_closest:
  assumes "uint checkpoint < 2 ^ 64 - 2 ^ 32"
  shows "wrap (unwrap n isn checkpoint) isn = n \<and>
    (\<forall>x. wrap x isn = n \<longrightarrow>
       \<bar>uint (unwrap n isn checkpoint) - uint checkpoint\<bar> \<le> \<bar>uint x - uint checkpoint\<bar>)"
  by (intro conjI allI impI seqno.enc_dec unwrap_nearest [OF assms])

theorem unwrap_closest_witness:
  "wrap (unwrap (WrappingInt32 5) (WrappingInt32 10) 7) (WrappingInt32 10) = WrappingInt32 5 \<and>
   wrap 4294967291 (WrappingInt32 10) = WrappingInt32 5 \<and>
   \<bar>uint (unwrap (WrappingInt32 5) (WrappingInt32 10) 7) - uint (7 :: 64 word)\<bar>
    \<le> \<bar>uint (4294967291 :: 64 word) - uint (7 :: 64 word)\<bar>"
proof -
  have w: "wrap 4294967291 (WrappingInt32 10) = WrappingInt32 5"
    by (simp add: wrap_def)
  have "uint (7 :: 64 word) < 2 ^ 64 - 2 ^ 32"
    by simp
  from unwrap_closest [OF this, of "WrappingInt32 5" "WrappingInt32 10"] w show ?thesis
    by blast
qed

text \<open>
  Wrapping and unwrapping round-trip on the 64-bit side: an absolute sequence number less than
  half the 32-bit range away from the checkpoint, on either side, is recovered exactly.
\<close>

lemma unwrap_wrap:
  assumes "\<bar>uint x - uint checkpoint\<bar> < 2 ^ 31"
  shows "unwrap (wrap x isn) isn checkpoint = x"
  using assms by (rule seqno.dec_enc)

lemma unwrap_wrap_witness:
  "unwrap (wrap 4294967300 (WrappingInt32 17)) (WrappingInt32 17) 4294967290 = 4294967300"
  by (rule unwrap_wrap) simp

end
