(* ===== verification/TCP_Segment.thy ===== *)
theory TCP_Segment
  imports Net_Parser Internet_Checksum Wrapping_Integers
begin

text \<open>
  The TCP header and segment of \<^verbatim>\<open>libsponge/tcp_helpers/tcp_header.hh\<close>, \<^verbatim>\<open>tcp_header.cc\<close>,
  \<^verbatim>\<open>tcp_segment.hh\<close> and \<^verbatim>\<open>tcp_segment.cc\<close>: parsing, serialisation and the checksum over the whole
  segment. What is serialised parses back to the same header and payload, and the parser's verdict
  on every input is characterised.
\<close>

section \<open>TCPHeader\<close>

record TCPHeader =
  th_sport :: "16 word"
  th_dport :: "16 word"
  th_seqno :: WrappingInt32
  th_ackno :: WrappingInt32
  th_doff :: "8 word"
  th_urg :: bool
  th_ack :: bool
  th_psh :: bool
  th_rst :: bool
  th_syn :: bool
  th_fin :: bool
  th_win :: "16 word"
  th_cksum :: "16 word"
  th_uptr :: "16 word"

definition TCPHeader_LENGTH :: size_t where
  "TCPHeader_LENGTH = 20"

definition TCPHeader_default :: TCPHeader where
  "TCPHeader_default =
     \<lparr>th_sport = 0, th_dport = 0, th_seqno = WrappingInt32 0, th_ackno = WrappingInt32 0,
      th_doff = 5, th_urg = False, th_ack = False, th_psh = False, th_rst = False, th_syn = False,
      th_fin = False, th_win = 0, th_cksum = 0, th_uptr = 0\<rparr>"

definition TCPHeader_parse_fields :: "TCPHeader \<Rightarrow> TCPHeader np" where
  "TCPHeader_parse_fields h =
     np_bind NetParser_u16 (\<lambda>sport.
     np_bind NetParser_u16 (\<lambda>dport.
     np_bind NetParser_u32 (\<lambda>seqno.
     np_bind NetParser_u32 (\<lambda>ackno.
     np_bind NetParser_u8 (\<lambda>doff_b.
     np_bind NetParser_u8 (\<lambda>fl_b.
     np_bind NetParser_u16 (\<lambda>win.
     np_bind NetParser_u16 (\<lambda>cksum.
     np_bind NetParser_u16 (\<lambda>uptr.
       np_return
         (h\<lparr>th_sport := sport, th_dport := dport, th_seqno := WrappingInt32 seqno,
            th_ackno := WrappingInt32 ackno, th_doff := drop_bit 4 doff_b,
            th_urg := (fl_b AND 0b00100000 \<noteq> 0), th_ack := (fl_b AND 0b00010000 \<noteq> 0),
            th_psh := (fl_b AND 0b00001000 \<noteq> 0), th_rst := (fl_b AND 0b00000100 \<noteq> 0),
            th_syn := (fl_b AND 0b00000010 \<noteq> 0), th_fin := (fl_b AND 0b00000001 \<noteq> 0),
            th_win := win, th_cksum := cksum, th_uptr := uptr\<rparr>))))))))))"

definition TCPHeader_parse :: "TCPHeader \<Rightarrow> (ParseResult \<times> TCPHeader) np" where
  "TCPHeader_parse h =
     np_bind (TCPHeader_parse_fields h) (\<lambda>h'.
       if th_doff h' < 5 then np_return (HeaderTooShort, h')
       else
         np_bind (NetParser_remove_prefix (unat (th_doff h') * 4 - TCPHeader_LENGTH)) (\<lambda>_ p.
           if NetParser_error p then Inr ((np_error p, h'), p) else Inr ((NoError, h'), p)))"

definition tcp_flags_byte :: "TCPHeader \<Rightarrow> 8 word" where
  "tcp_flags_byte h =
     (if th_urg h then 0b00100000 else 0) OR (if th_ack h then 0b00010000 else 0) OR
     (if th_psh h then 0b00001000 else 0) OR (if th_rst h then 0b00000100 else 0) OR
     (if th_syn h then 0b00000010 else 0) OR (if th_fin h then 0b00000001 else 0)"

definition TCPHeader_serialize :: "TCPHeader \<Rightarrow> bytes res" where
  "TCPHeader_serialize h =
     (if th_doff h < 5 then Inl RuntimeError
      else
        let ret = NetUnparser_u16 [] (th_sport h);
            ret = NetUnparser_u16 ret (th_dport h);
            ret = NetUnparser_u32 ret (raw_value (th_seqno h));
            ret = NetUnparser_u32 ret (raw_value (th_ackno h));
            ret = NetUnparser_u8 ret (push_bit 4 (th_doff h));
            ret = NetUnparser_u8 ret (tcp_flags_byte h);
            ret = NetUnparser_u16 ret (th_win h);
            ret = NetUnparser_u16 ret (th_cksum h);
            ret = NetUnparser_u16 ret (th_uptr h)
        in Inr (string_resize (4 * unat (th_doff h)) ret))"

definition TCPHeader_eq :: "TCPHeader \<Rightarrow> TCPHeader \<Rightarrow> bool" where
  "TCPHeader_eq h k \<longleftrightarrow>
     WrappingInt32_eq (th_seqno h) (th_seqno k) \<and> WrappingInt32_eq (th_ackno h) (th_ackno k) \<and>
     th_doff h = th_doff k \<and> th_urg h = th_urg k \<and> th_ack h = th_ack k \<and> th_psh h = th_psh k \<and>
     th_rst h = th_rst k \<and> th_syn h = th_syn k \<and> th_fin h = th_fin k \<and> th_win h = th_win k \<and>
     th_uptr h = th_uptr k"

section \<open>TCPSegment\<close>

record TCPSegment =
  ts_header :: TCPHeader
  ts_payload :: Buffer

definition TCPSegment_default :: TCPSegment where
  "TCPSegment_default = \<lparr>ts_header = TCPHeader_default, ts_payload = Buffer_default\<rparr>"

definition TCPSegment_parse ::
  "Buffer \<Rightarrow> 32 word \<Rightarrow> TCPSegment \<Rightarrow> (ParseResult \<times> TCPSegment) res" where
  "TCPSegment_parse buffer datagram_layer_checksum seg =
     (let check = InternetChecksum_add (Buffer_str buffer) (InternetChecksum_init datagram_layer_checksum)
      in if InternetChecksum_value check \<noteq> 0 then Inr (BadChecksum, seg)
         else
           bind_res (TCPHeader_parse (ts_header seg) (NetParser_init buffer))
             (\<lambda>((_, h), p). Inr (np_error p, seg\<lparr>ts_header := h, ts_payload := np_buffer p\<rparr>)))"

definition length_in_sequence_space :: "TCPSegment \<Rightarrow> size_t" where
  "length_in_sequence_space seg =
     length (Buffer_str (ts_payload seg)) + (if th_syn (ts_header seg) then 1 else 0) +
       (if th_fin (ts_header seg) then 1 else 0)"

definition TCPSegment_serialize :: "32 word \<Rightarrow> TCPSegment \<Rightarrow> BufferList res" where
  "TCPSegment_serialize datagram_layer_checksum seg =
     (let header_out = (ts_header seg)\<lparr>th_cksum := 0\<rparr>
      in bind_res (TCPHeader_serialize header_out) (\<lambda>header_zero.
           let check = InternetChecksum_init datagram_layer_checksum;
               check = InternetChecksum_add header_zero check;
               check = InternetChecksum_add (Buffer_str (ts_payload seg)) check;
               header_out = header_out\<lparr>th_cksum := InternetChecksum_value check\<rparr>
           in bind_res (TCPHeader_serialize header_out) (\<lambda>header_bytes.
                Inr (BufferList_append
                       (BufferList_append [] (BufferList_of_string header_bytes))
                       (BufferList_of_Buffer (ts_payload seg))))))"

text \<open>
  Segments that say the same to a connection: on the way through the network ports and checksum are
  filled in, and the payload sits in another buffer.
\<close>

definition tcp_same :: "TCPSegment \<Rightarrow> TCPSegment \<Rightarrow> bool" where
  "tcp_same seg seg' \<longleftrightarrow>
     (\<exists>sp dp ck. ts_header seg' = (ts_header seg)\<lparr>th_sport := sp, th_dport := dp, th_cksum := ck\<rparr>) \<and>
     Buffer_str (ts_payload seg') = Buffer_str (ts_payload seg)"

section \<open>The layout of a serialised header\<close>

definition tcp_header_bytes :: "TCPHeader \<Rightarrow> 16 word \<Rightarrow> bytes" where
  "tcp_header_bytes h ck =
     be16 (th_sport h) @ be16 (th_dport h) @ be32 (raw_value (th_seqno h)) @
     be32 (raw_value (th_ackno h)) @ be8 (push_bit 4 (th_doff h)) @ be8 (tcp_flags_byte h) @
     be16 (th_win h) @ be16 ck @ be16 (th_uptr h) @ replicate (4 * unat (th_doff h) - 20) 0"

lemma TCPHeader_serialize_eq:
  "TCPHeader_serialize h =
     (if th_doff h < 5 then Inl RuntimeError else Inr (tcp_header_bytes h (th_cksum h)))"
proof (cases "th_doff h < 5")
  case False
  then have "20 \<le> 4 * unat (th_doff h)"
    by (simp add: word_less_nat_alt)
  then show ?thesis
    using False
    by (simp add: TCPHeader_serialize_def tcp_header_bytes_def string_resize_def Let_def)
qed (simp add: TCPHeader_serialize_def)

lemma tcp_flags_byte_bits:
  "(tcp_flags_byte h AND 0b00100000 \<noteq> 0) = th_urg h" "(tcp_flags_byte h AND 0b00010000 \<noteq> 0) = th_ack h"
  "(tcp_flags_byte h AND 0b00001000 \<noteq> 0) = th_psh h" "(tcp_flags_byte h AND 0b00000100 \<noteq> 0) = th_rst h"
  "(tcp_flags_byte h AND 0b00000010 \<noteq> 0) = th_syn h" "(tcp_flags_byte h AND 0b00000001 \<noteq> 0) = th_fin h"
  by (cases "th_urg h"; cases "th_ack h"; cases "th_psh h"; cases "th_rst h"; cases "th_syn h";
      cases "th_fin h"; simp add: tcp_flags_byte_def)+

lemma nibble_shift: "unat (d :: 8 word) < 16 \<Longrightarrow> drop_bit 4 (push_bit 4 d) = d"
proof -
  assume "unat d < 16"
  then show ?thesis
    by (simp add: word_unat_eq_iff push_bit_eq_mult unat_word_ariths drop_bit_eq_div unat_div)
qed

lemma TCPHeader_parse_serialized:
  assumes p: "np_at p (tcp_header_bytes h (th_cksum h) @ s)"
    and doff: "5 \<le> unat (th_doff h)" "unat (th_doff h) < 16"
  shows "\<exists>p'. TCPHeader_parse h0 p = Inr ((NoError, h), p') \<and> np_at p' s"
proof -
  let ?pad = "replicate (4 * unat (th_doff h) - 20) 0 @ s"
  obtain p1 where p1: "NetParser_u16 p = Inr (th_sport h, p1)" "np_at p1 (be16 (th_dport h) @
      be32 (raw_value (th_seqno h)) @ be32 (raw_value (th_ackno h)) @ be8 (push_bit 4 (th_doff h)) @
      be8 (tcp_flags_byte h) @ be16 (th_win h) @ be16 (th_cksum h) @ be16 (th_uptr h) @ ?pad)"
    using u16.get_put p unfolding tcp_header_bytes_def append_assoc by blast
  obtain p2 where p2: "NetParser_u16 p1 = Inr (th_dport h, p2)" "np_at p2
     (be32 (raw_value (th_seqno h)) @ be32 (raw_value (th_ackno h)) @ be8 (push_bit 4 (th_doff h)) @
      be8 (tcp_flags_byte h) @ be16 (th_win h) @ be16 (th_cksum h) @ be16 (th_uptr h) @ ?pad)"
    using u16.get_put [OF p1(2)] by blast
  obtain p3 where p3: "NetParser_u32 p2 = Inr (raw_value (th_seqno h), p3)" "np_at p3
     (be32 (raw_value (th_ackno h)) @ be8 (push_bit 4 (th_doff h)) @
      be8 (tcp_flags_byte h) @ be16 (th_win h) @ be16 (th_cksum h) @ be16 (th_uptr h) @ ?pad)"
    using u32.get_put [OF p2(2)] by blast
  obtain p4 where p4: "NetParser_u32 p3 = Inr (raw_value (th_ackno h), p4)" "np_at p4
     (be8 (push_bit 4 (th_doff h)) @
      be8 (tcp_flags_byte h) @ be16 (th_win h) @ be16 (th_cksum h) @ be16 (th_uptr h) @ ?pad)"
    using u32.get_put [OF p3(2)] by blast
  obtain p5 where p5: "NetParser_u8 p4 = Inr (push_bit 4 (th_doff h), p5)" "np_at p5
     (be8 (tcp_flags_byte h) @ be16 (th_win h) @ be16 (th_cksum h) @ be16 (th_uptr h) @ ?pad)"
    using u8.get_put [OF p4(2)] by blast
  obtain p6 where p6: "NetParser_u8 p5 = Inr (tcp_flags_byte h, p6)" "np_at p6
     (be16 (th_win h) @ be16 (th_cksum h) @ be16 (th_uptr h) @ ?pad)"
    using u8.get_put [OF p5(2)] by blast
  obtain p7 where p7: "NetParser_u16 p6 = Inr (th_win h, p7)"
    "np_at p7 (be16 (th_cksum h) @ be16 (th_uptr h) @ ?pad)"
    using u16.get_put [OF p6(2)] by blast
  obtain p8 where p8: "NetParser_u16 p7 = Inr (th_cksum h, p8)" "np_at p8 (be16 (th_uptr h) @ ?pad)"
    using u16.get_put [OF p7(2)] by blast
  obtain p9 where p9: "NetParser_u16 p8 = Inr (th_uptr h, p9)" "np_at p9 ?pad"
    using u16.get_put [OF p8(2)] by blast
  obtain p10 where p10: "NetParser_remove_prefix (unat (th_doff h) * 4 - 20) p9 = Inr ((), p10)" "np_at p10 s"
    using NetParser_remove_prefix_at [OF p9(2), of "unat (th_doff h) * 4 - 20"]
    by (auto simp: mult.commute)
  have "\<not> th_doff h < 5"
    using doff(1) by (simp add: word_less_nat_alt)
  moreover have "np_error p10 = NoError"
    using p10(2) by (simp add: np_at_def)
  ultimately show ?thesis
    using p10(2) doff(2)
    by (simp add: TCPHeader_parse_def TCPHeader_parse_fields_def p1(1) p2(1) p3(1) p4(1) p5(1) p6(1) p7(1) p8(1) p9(1) p10(1)
        Let_def nibble_shift tcp_flags_byte_bits TCPHeader_LENGTH_def NetParser_error_def)
qed

section \<open>Checksums of serialised segments\<close>

lemma tcp_header_bytes_split:
  obtains pre post where "\<And>ck. tcp_header_bytes h ck = pre @ be16 ck @ post" and "length pre = 16"
proof (rule that)
  show "tcp_header_bytes h ck =
      (be16 (th_sport h) @ be16 (th_dport h) @ be32 (raw_value (th_seqno h)) @
       be32 (raw_value (th_ackno h)) @ be8 (push_bit 4 (th_doff h)) @ be8 (tcp_flags_byte h) @
       be16 (th_win h)) @ be16 ck @ (be16 (th_uptr h) @ replicate (4 * unat (th_doff h) - 20) 0)" for ck
    by (simp add: tcp_header_bytes_def)
qed simp

lemma tcp_header_bytes_length:
  "5 \<le> unat (th_doff h) \<Longrightarrow> length (tcp_header_bytes h ck) = 4 * unat (th_doff h)"
  by (simp add: tcp_header_bytes_def)

lemma tcp_header_bytes_cksum_update [simp]:
  "tcp_header_bytes (h\<lparr>th_cksum := x\<rparr>) ck = tcp_header_bytes h ck"
  by (simp add: tcp_header_bytes_def tcp_flags_byte_def)

definition tcp_checksum :: "32 word \<Rightarrow> TCPSegment \<Rightarrow> 16 word" where
  "tcp_checksum d seg =
     inet_cksum d (tcp_header_bytes (ts_header seg) 0 @ Buffer_str (ts_payload seg))"

lemma TCPSegment_serialize_eq:
  "TCPSegment_serialize d seg =
     (if th_doff (ts_header seg) < 5 then Inl RuntimeError
      else Inr [Buffer_of_string (tcp_header_bytes (ts_header seg) (tcp_checksum d seg)), ts_payload seg])"
  by (simp add: TCPSegment_serialize_def Let_def TCPHeader_serialize_eq tcp_checksum_def inet_cksum_def
      InternetChecksum_add_append BufferList_of_Buffer_def)

lemma tcp_checksum_verifies:
  assumes "unat d + bytes_sum False (tcp_header_bytes (ts_header seg) 0 @ Buffer_str (ts_payload seg)) +
      65535 < 2 ^ 32"
  shows "inet_cksum d (tcp_header_bytes (ts_header seg) (tcp_checksum d seg) @ Buffer_str (ts_payload seg)) = 0"
proof -
  obtain pre post where h: "\<And>ck. tcp_header_bytes (ts_header seg) ck = pre @ be16 ck @ post"
    and len: "length pre = 16"
    using tcp_header_bytes_split by blast
  have "inet_cksum d (pre @ be16 (tcp_checksum d seg) @ (post @ Buffer_str (ts_payload seg))) = 0"
    unfolding be16_bytes [of "tcp_checksum d seg"]
  proof (rule inet_cksum_insert)
    show "256 * unat (ucast (drop_bit 8 (tcp_checksum d seg)) :: byte) +
        unat (ucast (tcp_checksum d seg) :: byte) =
        unat (inet_cksum d (pre @ [0, 0] @ post @ Buffer_str (ts_payload seg)))"
      by (simp add: be16_sum tcp_checksum_def h)
  qed (use assms len in \<open>simp_all add: h\<close>)
  then show ?thesis
    by (simp add: h)
qed

section \<open>What the parser accepts\<close>

lemma TCPHeader_parse_fields_reads: "np_reads (TCPHeader_parse_fields h) 20"
proof -
  have "np_reads (TCPHeader_parse_fields h) (2 + (2 + (4 + (4 + (1 + (1 + (2 + (2 + (2 + 0)))))))))"
    unfolding TCPHeader_parse_fields_def by (intro np_reads_intros)
  then show ?thesis by simp
qed

lemma TCPHeader_parse_total:
  assumes "np_wf p"
  shows "\<exists>r h' p'. TCPHeader_parse h p = Inr ((r, h'), p') \<and> np_wf p' \<and>
    (np_error p' = np_error p \<or> np_error p' = PacketTooShort) \<and>
    (np_error p' = NoError \<longleftrightarrow> np_error p = NoError \<and> 20 \<le> length (np_rest p) \<and>
       (th_doff h' < 5 \<or> 4 * unat (th_doff h') \<le> length (np_rest p)))"
proof -
  obtain h' p1 where 1: "TCPHeader_parse_fields h p = Inr (h', p1)" "np_wf p1"
    "np_error p1 = np_error p \<or> np_error p1 = PacketTooShort"
    "np_error p1 = NoError \<longleftrightarrow> np_error p = NoError \<and> 20 \<le> length (np_rest p)"
    "np_error p1 = NoError \<Longrightarrow> np_rest p1 = drop 20 (np_rest p)"
    using TCPHeader_parse_fields_reads assms by (rule np_readsE) blast
  show ?thesis
  proof (cases "th_doff h' < 5")
    case True
    then show ?thesis
      using 1 by (simp add: TCPHeader_parse_def)
  next
    case False
    then have doff: "5 \<le> unat (th_doff h')"
      by (simp add: word_less_nat_alt)
    let ?n = "unat (th_doff h') * 4 - 20"
    obtain p2 where 2: "NetParser_remove_prefix ?n p1 = Inr ((), p2)" "np_wf p2"
      "np_error p2 = np_error p1 \<or> np_error p2 = PacketTooShort"
      "np_error p2 = NoError \<longleftrightarrow> np_error p1 = NoError \<and> ?n \<le> length (np_rest p1)"
      using NetParser_remove_prefix_total [OF 1(2), of ?n] by blast
    then have "np_error p2 = NoError \<longleftrightarrow> np_error p = NoError \<and> 20 \<le> length (np_rest p) \<and>
        4 * unat (th_doff h') \<le> length (np_rest p)"
      using 1(4,5) doff by auto
    then show ?thesis
      using 1(1,3) 2(1,2,3) False
      by (cases "np_error p2 = NoError")
        (auto simp: TCPHeader_parse_def TCPHeader_LENGTH_def NetParser_error_def)
  qed
qed

lemma TCPSegment_parse_buffer:
  assumes doff: "5 \<le> unat (th_doff (ts_header seg))" "unat (th_doff (ts_header seg)) < 16"
    and small: "unat d + 65280 * (60 + length (Buffer_str (ts_payload seg))) + 65535 < 2 ^ 32"
    and buf: "Buffer_wf buf"
      "Buffer_str buf = tcp_header_bytes (ts_header seg) (tcp_checksum d seg) @ Buffer_str (ts_payload seg)"
  shows "\<exists>payload'. TCPSegment_parse buf d seg0 =
      Inr (NoError, seg0\<lparr>ts_header := (ts_header seg)\<lparr>th_cksum := tcp_checksum d seg\<rparr>, ts_payload := payload'\<rparr>) \<and>
    Buffer_str payload' = Buffer_str (ts_payload seg)"
proof -
  let ?h = "(ts_header seg)\<lparr>th_cksum := tcp_checksum d seg\<rparr>"
  let ?z = "tcp_header_bytes (ts_header seg) 0 @ Buffer_str (ts_payload seg)"
  have "length ?z \<le> 60 + length (Buffer_str (ts_payload seg))"
    using doff by (simp add: tcp_header_bytes_length)
  then have "bytes_sum False ?z \<le> 65280 * (60 + length (Buffer_str (ts_payload seg)))"
    using bytes_sum_le [of False ?z] by (meson mult_le_mono2 order_trans)
  then have ck: "inet_cksum d (Buffer_str buf) = 0"
    unfolding buf(2) using small by (intro tcp_checksum_verifies) linarith
  have "np_at (NetParser_init buf) (tcp_header_bytes ?h (th_cksum ?h) @ Buffer_str (ts_payload seg))"
    using np_at_init [OF buf(1)] buf(2) by simp
  then obtain p' where p': "TCPHeader_parse (ts_header seg0) (NetParser_init buf) = Inr ((NoError, ?h), p')"
    "np_at p' (Buffer_str (ts_payload seg))"
    using TCPHeader_parse_serialized [of _ ?h] doff by fastforce
  have "TCPSegment_parse buf d seg0 = Inr (NoError, seg0\<lparr>ts_header := ?h, ts_payload := np_buffer p'\<rparr>)"
    using ck p' by (simp add: TCPSegment_parse_def Let_def inet_cksum_def np_at_def)
  then show ?thesis
    using p'(2) by (auto simp: np_at_def np_rest_def)
qed

section \<open>Properties\<close>

text \<open>
  C16. A segment that is serialised and put on the wire parses back without error to the same payload
  and the same header with the computed checksum filled in, for every header length the format can
  carry and every payload short enough for the 32-bit checksum accumulator.
\<close>

theorem TCPSegment_roundtrip:
  assumes "5 \<le> unat (th_doff (ts_header seg))" and "unat (th_doff (ts_header seg)) < 16"
    and "unat d + 65280 * (60 + length (Buffer_str (ts_payload seg))) + 65535 < 2 ^ 32"
  shows "\<exists>bl payload'. TCPSegment_serialize d seg = Inr bl \<and>
    TCPSegment_parse (Buffer_of_string (BufferList_concatenate bl)) d seg0 =
      Inr (NoError, seg0\<lparr>ts_header := (ts_header seg)\<lparr>th_cksum := tcp_checksum d seg\<rparr>,
                         ts_payload := payload'\<rparr>) \<and>
    Buffer_str payload' = Buffer_str (ts_payload seg)"
proof -
  have "\<not> th_doff (ts_header seg) < 5"
    using assms(1) by (simp add: word_less_nat_alt)
  then have "TCPSegment_serialize d seg =
      Inr [Buffer_of_string (tcp_header_bytes (ts_header seg) (tcp_checksum d seg)), ts_payload seg]"
    by (simp add: TCPSegment_serialize_eq)
  then show ?thesis
    using TCPSegment_parse_buffer [OF assms, of "Buffer_of_string (tcp_header_bytes (ts_header seg)
        (tcp_checksum d seg) @ Buffer_str (ts_payload seg))" seg0]
    by simp
qed

theorem TCPSegment_roundtrip_witness:
  "\<exists>bl payload'. TCPSegment_serialize 7 (TCPSegment_default\<lparr>ts_payload := Buffer_of_string [1, 2, 3]\<rparr>) = Inr bl \<and>
    TCPSegment_parse (Buffer_of_string (BufferList_concatenate bl)) 7 TCPSegment_default =
      Inr (NoError, TCPSegment_default\<lparr>
        ts_header := TCPHeader_default\<lparr>th_cksum :=
          tcp_checksum 7 (TCPSegment_default\<lparr>ts_payload := Buffer_of_string [1, 2, 3]\<rparr>)\<rparr>,
        ts_payload := payload'\<rparr>) \<and>
    Buffer_str payload' = [1, 2, 3]"
  using TCPSegment_roundtrip [of "TCPSegment_default\<lparr>ts_payload := Buffer_of_string [1, 2, 3]\<rparr>" 7
      TCPSegment_default]
  by (simp add: TCPSegment_default_def TCPHeader_default_def)

text \<open>
  C21. The verdict of the segment parser on every buffer: it never throws; it reports a bad checksum
  exactly when the checksum over the buffer and the pseudo-header is not zero, leaving the segment
  alone; otherwise it reports success exactly when the fixed header is there and the data offset is
  either not beyond the buffer or below its minimum of five, and a short packet in all other cases.
\<close>

theorem TCPSegment_parse_verdict:
  assumes "Buffer_wf buffer"
  shows "\<exists>r seg'. TCPSegment_parse buffer d seg = Inr (r, seg') \<and>
    (r = BadChecksum \<longleftrightarrow> inet_cksum d (Buffer_str buffer) \<noteq> 0) \<and>
    (r = BadChecksum \<longrightarrow> seg' = seg) \<and>
    (r = NoError \<longleftrightarrow> inet_cksum d (Buffer_str buffer) = 0 \<and> 20 \<le> length (Buffer_str buffer) \<and>
       (th_doff (ts_header seg') < 5 \<or> 4 * unat (th_doff (ts_header seg')) \<le> length (Buffer_str buffer))) \<and>
    r \<in> {NoError, BadChecksum, PacketTooShort}"
proof (cases "inet_cksum d (Buffer_str buffer) = 0")
  case False
  then show ?thesis
    by (simp add: TCPSegment_parse_def Let_def inet_cksum_def)
next
  case True
  let ?p = "NetParser_init buffer"
  have p: "np_wf ?p" "np_error ?p = NoError" "np_rest ?p = Buffer_str buffer"
    using assms by (simp_all add: np_wf_def np_rest_def NetParser_init_def)
  obtain r h' p' where h: "TCPHeader_parse (ts_header seg) ?p = Inr ((r, h'), p')"
    "np_error p' = NoError \<or> np_error p' = PacketTooShort"
    "np_error p' = NoError \<longleftrightarrow> 20 \<le> length (Buffer_str buffer) \<and>
       (th_doff h' < 5 \<or> 4 * unat (th_doff h') \<le> length (Buffer_str buffer))"
    using TCPHeader_parse_total [OF p(1), of "ts_header seg"] p(2,3) by auto
  have "TCPSegment_parse buffer d seg = Inr (np_error p', seg\<lparr>ts_header := h', ts_payload := np_buffer p'\<rparr>)"
    using True h(1) by (simp add: TCPSegment_parse_def Let_def inet_cksum_def)
  then show ?thesis
    using h(2,3) True by auto
qed

theorem TCPSegment_parse_verdict_witness:
  "\<exists>r seg'. TCPSegment_parse (Buffer_of_string [0xff, 0xff]) 0 TCPSegment_default = Inr (r, seg') \<and>
    r = PacketTooShort"
proof -
  have "inet_cksum 0 [0xff, 0xff] = 0"
    using inet_cksum_zero_iff [of 0 "[0xff, 0xff]"] by simp
  then show ?thesis
    using TCPSegment_parse_verdict [of "Buffer_of_string [0xff, 0xff]" 0 TCPSegment_default]
    by fastforce
qed

end
