(* ===== verification/TCP_Receiver.thy ===== *)
theory TCP_Receiver
  imports Stream_Reassembler TCP_Segment
begin

text \<open>
  \<^verbatim>\<open>libsponge/tcp_receiver.hh\<close> and \<^verbatim>\<open>tcp_receiver.cc\<close>: the receiver unwraps the sequence number of
  a segment into a stream index, pushes the payload into the reassembler and maintains the
  acknowledgment number. Whatever segments of a stream arrive, in whatever order, the receiver follows
  the abstract reassembler and acknowledges the first byte it has not assembled.
\<close>

section \<open>State and operations\<close>

record TCPReceiver =
  rc_reassembler :: StreamReassembler
  rc_capacity :: size_t
  rc_syn :: bool
  rc_fin :: size_t
  rc_full_fined :: bool
  rc_isn :: WrappingInt32
  rc_last_abseqno :: "64 word"
  rc_ackno :: "WrappingInt32 option"

definition TCPReceiver_init :: "size_t \<Rightarrow> TCPReceiver" where
  "TCPReceiver_init capacity =
     \<lparr>rc_reassembler = StreamReassembler_init capacity, rc_capacity = capacity, rc_syn = False,
      rc_fin = 0, rc_full_fined = False, rc_isn = WrappingInt32 0, rc_last_abseqno = 0,
      rc_ackno = None\<rparr>"

definition TCPReceiver_full_fined :: "TCPReceiver \<Rightarrow> bool" where
  "TCPReceiver_full_fined r \<longleftrightarrow> rc_fin r \<ge> 2"

definition TCPReceiver_fined :: "TCPReceiver \<Rightarrow> bool" where
  "TCPReceiver_fined r \<longleftrightarrow> rc_fin r = 1"

definition TCPReceiver_unassembled_bytes :: "TCPReceiver \<Rightarrow> size_t" where
  "TCPReceiver_unassembled_bytes r = unassembled_bytes (rc_reassembler r)"

definition TCPReceiver_stream_out :: "TCPReceiver \<Rightarrow> ByteStream" where
  "TCPReceiver_stream_out r = sr_output (rc_reassembler r)"

definition TCPReceiver_set_stream_out :: "ByteStream \<Rightarrow> TCPReceiver \<Rightarrow> TCPReceiver" where
  "TCPReceiver_set_stream_out s r = r\<lparr>rc_reassembler := (rc_reassembler r)\<lparr>sr_output := s\<rparr>\<rparr>"

text \<open>The updates after the push: the index last assembled, the acknowledgment number and the flags.\<close>

definition rc_update_ackno :: "TCPReceiver \<Rightarrow> TCPReceiver" where
  "rc_update_ackno r =
     (let f = first_unassembled (rc_reassembler r)
      in if f \<noteq> 0 then
           let last_abseqno = of_nat (f - 1);
               ackno = WrappingInt32_plus (wrap (last_abseqno + 1) (rc_isn r)) 1;
               ackno = (if \<not> rc_syn r then WrappingInt32_minus ackno 1 else ackno)
           in r\<lparr>rc_last_abseqno := last_abseqno, rc_ackno := Some ackno\<rparr>
         else r)"

definition rc_note_syn :: "TCPHeader \<Rightarrow> TCPReceiver \<Rightarrow> TCPReceiver" where
  "rc_note_syn hder r =
     (if th_syn hder then
        let isn = th_seqno hder
        in r\<lparr>rc_syn := True, rc_isn := isn,
             rc_ackno :=
               (case rc_ackno r of
                  Some a \<Rightarrow> Some (WrappingInt32_plus (WrappingInt32_plus isn 1) (raw_value a))
                | None \<Rightarrow> Some (WrappingInt32_plus isn 1))\<rparr>
      else r)"

definition rc_note_fin :: "TCPHeader \<Rightarrow> TCPReceiver \<Rightarrow> TCPReceiver" where
  "rc_note_fin hder r =
     (let r1 = (if th_fin hder then r\<lparr>rc_fin := 1\<rparr> else r)
      in if rc_fin r1 = 1 \<and> StreamReassembler_eof (rc_reassembler r1)
         then (TCPReceiver_set_stream_out (ByteStream_end_input (TCPReceiver_stream_out r1)) r1)\<lparr>rc_fin := 2\<rparr>
         else r1)"

definition TCPReceiver_segment_received ::
  "(sr_map \<Rightarrow> size_t) \<Rightarrow> TCPSegment \<Rightarrow> TCPReceiver \<Rightarrow> TCPReceiver res" where
  "TCPReceiver_segment_received end_key seg r =
     (let hder = ts_header seg
      in if (\<not> th_syn hder \<and> \<not> rc_syn r) \<or> (th_syn hder \<and> rc_syn r) then Inr r
         else
           let stream_index =
                 (if rc_syn r
                  then unwrap (WrappingInt32_minus (th_seqno hder) 1) (rc_isn r) (rc_last_abseqno r)
                  else 0)
           in if rc_syn r \<and> unwrap (th_seqno hder) (rc_isn r) (rc_last_abseqno r) = 0 then Inr r
              else
                bind_res
                  (push_substring end_key (Buffer_copy (ts_payload seg)) (unat stream_index)
                     (th_fin hder) (rc_reassembler r))
                  (\<lambda>reassembler.
                     Inr (rc_note_fin hder
                            (rc_note_syn hder (rc_update_ackno (r\<lparr>rc_reassembler := reassembler\<rparr>))))))"

definition TCPReceiver_ackno :: "TCPReceiver \<Rightarrow> WrappingInt32 option res" where
  "TCPReceiver_ackno r =
     (if rc_fin r = 2 then
        case rc_ackno r of
          None \<Rightarrow> Inl BadOptionalAccess
        | Some a \<Rightarrow> Inr (Some (WrappingInt32_plus a 1))
      else Inr (rc_ackno r))"

definition TCPReceiver_window_size :: "TCPReceiver \<Rightarrow> size_t" where
  "TCPReceiver_window_size r = ByteStream_remaining_capacity (TCPReceiver_stream_out r)"

section \<open>Sequence numbers as indices\<close>

text \<open>The sequence number of the element with absolute index \<open>k\<close>: the SYN has index zero.\<close>

definition seq_at :: "WrappingInt32 \<Rightarrow> nat \<Rightarrow> WrappingInt32" where
  "seq_at isn k = wrap (of_nat k) isn"

lemma raw_seq_at: "raw_value (seq_at isn k) = of_nat k + raw_value isn"
proof -
  have k: "uint (of_nat k :: 64 word) mod 2 ^ 32 = uint (of_nat k :: 32 word)"
  proof -
    have "k mod 2 ^ 64 mod 2 ^ 32 = k mod 2 ^ 32"
      by (rule mod_mod_cancel) simp
    then have "int (k mod 2 ^ 64) mod int (2 ^ 32) = int (k mod 2 ^ 32)"
      by (simp only: flip: of_nat_mod)
    then show ?thesis
      by (simp add: unsigned_of_nat take_bit_eq_mod)
  qed
  have "uint (raw_value (seq_at isn k)) = (uint (of_nat k :: 64 word) + uint (raw_value isn)) mod 2 ^ 32"
    by (simp only: seq_at_def uint_wrap)
  also have "\<dots> = (uint (of_nat k :: 64 word) mod 2 ^ 32 + uint (raw_value isn)) mod 2 ^ 32"
    by (simp only: mod_add_left_eq)
  also have "\<dots> = uint (of_nat k + raw_value isn)"
    by (simp only: k uint_word_ariths len_num1 len_bit0) simp
  finally show ?thesis
    by (simp only: word_uint_eq_iff)
qed

lemma seq_at_0 [simp]: "seq_at isn 0 = isn"
  by (rule WrappingInt32.expand) (simp add: raw_seq_at)

lemma seq_at_plus: "WrappingInt32_plus (seq_at isn k) (of_nat n) = seq_at isn (k + n)"
  by (rule WrappingInt32.expand) (simp add: raw_seq_at WrappingInt32_plus_def)

lemma seq_at_Suc: "WrappingInt32_plus (seq_at isn k) 1 = seq_at isn (Suc k)"
  using seq_at_plus [of isn k 1] by simp

lemma seq_at_pred: "WrappingInt32_minus (seq_at isn (Suc k)) 1 = seq_at isn k"
  by (rule WrappingInt32.expand) (simp add: raw_seq_at WrappingInt32_plus_def WrappingInt32_minus_def)

lemma unwrap_seq_at:
  assumes "k < 2 ^ 64" and "c < 2 ^ 64" and "\<bar>int k - int c\<bar> < 2 ^ 31"
  shows "unwrap (seq_at isn k) isn (of_nat c) = of_nat k"
  unfolding seq_at_def using assms by (intro unwrap_wrap_near) (simp add: uint_nat unat_of_nat)

section \<open>The invariant\<close>

definition rcv_inv :: "bytes \<Rightarrow> WrappingInt32 \<Rightarrow> TCPReceiver \<Rightarrow> bool" where
  "rcv_inv S isn r \<longleftrightarrow>
     (let a = rc_reassembler r
      in sr_inv S a \<and> rc_capacity r = sr_capacity a \<and>
         rc_last_abseqno r = of_nat (sr_first_index a - 1) \<and>
         (if rc_syn r
          then rc_isn r = isn \<and> rc_ackno r = Some (seq_at isn (Suc (sr_first_index a))) \<and>
            rc_fin r = (if sr_eofed a then 2 else if sr_eof a then 1 else 0)
          else rc_isn r = WrappingInt32 0 \<and> rc_ackno r = None \<and> rc_fin r = 0 \<and>
            sr_first_index a = 0 \<and> sr_unassembled a = [] \<and> \<not> sr_eof a))"

text \<open>
  \<open>seg\<close> is a segment of the stream \<open>S\<close>: its sequence number is that of the absolute index \<open>k\<close> (zero for
  the SYN), it carries the excerpt of \<open>S\<close> that starts there or nothing at all, and SYN and FIN are set
  only at the ends of the stream.
\<close>

definition seg_of_stream :: "bytes \<Rightarrow> WrappingInt32 \<Rightarrow> nat \<Rightarrow> TCPSegment \<Rightarrow> bool" where
  "seg_of_stream S isn k seg \<longleftrightarrow>
     k \<le> length S + 2 \<and> th_seqno (ts_header seg) = seq_at isn k \<and>
     sr_push_ok S (Buffer_str (ts_payload seg)) (k - 1) (th_fin (ts_header seg)) \<and>
     (if th_syn (ts_header seg) then k = 0
      else k = 0 \<longrightarrow> Buffer_str (ts_payload seg) = [] \<and> \<not> th_fin (ts_header seg))"

text \<open>Unwrapping is unambiguous for indices less than \<open>2 ^ 31\<close> away from the checkpoint.\<close>

definition seq_near :: "nat \<Rightarrow> nat \<Rightarrow> bool" where
  "seq_near i c \<longleftrightarrow> \<bar>int i - int c\<bar> + 1 < 2 ^ 31"

lemma rcv_inv_init:
  assumes "2 * length S + cap < size_max"
  shows "rcv_inv S isn (TCPReceiver_init cap)"
  using sr_inv_init(1) [OF assms]
  by (simp add: rcv_inv_def TCPReceiver_init_def StreamReassembler_init_def)

lemma rc_update_ackno_eq:
  assumes inv: "rcv_inv S isn r"
    and first: "sr_first_index (rc_reassembler r) \<noteq> 0 \<Longrightarrow> sr_first_index a \<noteq> 0"
  shows "rc_update_ackno (r\<lparr>rc_reassembler := a\<rparr>) =
    r\<lparr>rc_reassembler := a, rc_last_abseqno := of_nat (sr_first_index a - 1),
      rc_ackno := (if rc_syn r then Some (seq_at isn (Suc (sr_first_index a)))
                   else if sr_first_index a = 0 then None
                   else Some (seq_at (WrappingInt32 0) (sr_first_index a)))\<rparr>"
proof (cases "sr_first_index a")
  case 0
  then have "sr_first_index (rc_reassembler r) = 0"
    using first by blast
  then show ?thesis
    using inv 0 by (cases r) (auto simp: rc_update_ackno_def first_unassembled_def rcv_inv_def Let_def)
next
  case (Suc k)
  have "WrappingInt32_plus (wrap (of_nat k + 1) (rc_isn r)) 1 = seq_at (rc_isn r) (Suc (Suc k))"
    using seq_at_Suc [of "rc_isn r" "Suc k"] by (simp add: seq_at_def add.commute)
  then show ?thesis
    using inv Suc
    by (auto simp: rc_update_ackno_def first_unassembled_def rcv_inv_def Let_def seq_at_pred)
qed

lemma rc_note_fin_eq:
  assumes a: "sr_inv S (rc_reassembler r)"
  shows "rc_note_fin hder r =
    r\<lparr>rc_fin := (let n = (if th_fin hder then 1 else rc_fin r)
                 in if n = 1 \<and> sr_eofed (rc_reassembler r) then 2 else n)\<rparr>"
proof -
  have "ByteStream_end_input (sr_output (rc_reassembler r)) = sr_output (rc_reassembler r)"
    if "sr_eofed (rc_reassembler r)"
    using that sr_inv_out_ok [OF a]
    by (simp add: sr_out_ok_def ByteStream_input_ended_def ByteStream_end_input_def)
  then show ?thesis
    by (simp add: rc_note_fin_def Let_def StreamReassembler_eof_def TCPReceiver_set_stream_out_def
        TCPReceiver_stream_out_def)
qed

lemma rcv_finish:
  fixes S isn r a hder
  defines "r' \<equiv> rc_note_fin hder (rc_note_syn hder (rc_update_ackno (r\<lparr>rc_reassembler := a\<rparr>)))"
  assumes inv: "rcv_inv S isn r" and a: "sr_inv S a" "sr_capacity a = sr_capacity (rc_reassembler r)"
    and eof: "sr_eof a = (sr_eof (rc_reassembler r) \<or> th_fin hder)"
    and mono: "sr_eofed (rc_reassembler r) \<Longrightarrow> a = rc_reassembler r"
    and first: "sr_first_index (rc_reassembler r) \<noteq> 0 \<Longrightarrow> sr_first_index a \<noteq> 0"
    and syn: "th_syn hder \<noteq> rc_syn r" "th_syn hder \<Longrightarrow> th_seqno hder = isn"
  shows "rcv_inv S isn r' \<and> rc_reassembler r' = a \<and> rc_syn r'"
proof -
  define r2 where "r2 = rc_note_syn hder (rc_update_ackno (r\<lparr>rc_reassembler := a\<rparr>))"
  have shift: "WrappingInt32_plus (seq_at isn (Suc 0)) (raw_value (seq_at (WrappingInt32 0) k)) =
      seq_at isn (Suc k)" for k
    by (rule WrappingInt32.expand) (simp add: WrappingInt32_plus_def raw_seq_at)
  have one: "WrappingInt32_plus isn 1 = seq_at isn (Suc 0)"
    using seq_at_Suc [of isn 0] by simp
  have r2: "rc_syn r2" "rc_isn r2 = isn" "rc_ackno r2 = Some (seq_at isn (Suc (sr_first_index a)))"
    "rc_last_abseqno r2 = of_nat (sr_first_index a - 1)" "rc_reassembler r2 = a" "rc_fin r2 = rc_fin r"
    "rc_capacity r2 = rc_capacity r"
    using inv syn
    by (auto simp: r2_def rc_update_ackno_eq [OF inv first] rc_note_syn_def Let_def shift one rcv_inv_def)
  have fin: "rc_fin r = (if sr_eofed (rc_reassembler r) then 2 else if sr_eof (rc_reassembler r) then 1 else 0)"
  proof (cases "rc_syn r")
    case False
    then have "\<not> sr_eof (rc_reassembler r)" "rc_fin r = 0"
      using inv by (simp_all add: rcv_inv_def Let_def)
    moreover have "\<not> sr_eofed (rc_reassembler r)"
      using inv False sr_inv_out_ok [of S "rc_reassembler r"] by (auto simp: rcv_inv_def Let_def sr_out_ok_def)
    ultimately show ?thesis by simp
  qed (use inv in \<open>simp add: rcv_inv_def Let_def\<close>)
  have "sr_eofed a \<Longrightarrow> sr_eof a"
    using sr_inv_out_ok [OF a(1)] by (simp add: sr_out_ok_def)
  then have "(let n = (if th_fin hder then 1 else rc_fin r2) in if n = 1 \<and> sr_eofed a then 2 else n) =
      (if sr_eofed a then 2 else if sr_eof a then 1 else 0)"
    using mono eof by (auto simp: fin r2(6) Let_def)
  then have "r' = r2\<lparr>rc_fin := (if sr_eofed a then 2 else if sr_eof a then 1 else 0)\<rparr>"
    unfolding r'_def r2_def [symmetric] using rc_note_fin_eq [of S r2 hder] a(1) r2(5) by simp
  moreover have "rc_capacity r = sr_capacity (rc_reassembler r)"
    using inv by (simp add: rcv_inv_def Let_def)
  ultimately show ?thesis
    using r2 a by (simp add: rcv_inv_def Let_def)
qed

lemma ar_first_push_pos:
  assumes "ar_first a \<noteq> 0" and "finite (ar_got a)"
  shows "ar_first (ar_push cap d i e a) \<noteq> 0"
proof -
  have "0 \<in> ar_got a"
    using assms(1) unfolding ar_first_def by (metis Least_eq_0)
  then have "0 \<in> ar_got (ar_push cap d i e a)"
    by (simp add: ar_push_def)
  moreover have "\<exists>k. k \<notin> ar_got (ar_push cap d i e a)"
    using assms(2) by (intro ex_new_if_finite) (simp_all add: ar_push_def)
  ultimately show ?thesis
    unfolding ar_first_def by (metis LeastI)
qed

lemma segment_received_step:
  assumes inv: "rcv_inv S isn r" and seg: "seg_of_stream S isn k seg" and key: "end_key_ok end_key"
    and near: "seq_near (k - 1) (sr_first_index (rc_reassembler r) - 1)"
  shows "\<exists>r'. TCPReceiver_segment_received end_key seg r = Inr r' \<and> rcv_inv S isn r' \<and>
    sr_capacity (rc_reassembler r') = sr_capacity (rc_reassembler r) \<and>
    (if th_syn (ts_header seg) = rc_syn r then r' = r
     else rc_syn r' \<and> push_substring end_key (Buffer_str (ts_payload seg)) (k - 1) (th_fin (ts_header seg))
       (rc_reassembler r) = Inr (rc_reassembler r'))"
proof (cases "th_syn (ts_header seg) = rc_syn r")
  case True
  then show ?thesis
    using inv by (auto simp: TCPReceiver_segment_received_def Let_def)
next
  case False
  let ?a = "rc_reassembler r" and ?h = "ts_header seg" and ?d = "Buffer_str (ts_payload seg)"
  let ?f = "sr_first_index ?a" and ?i = "k - 1"
  have a: "sr_inv S ?a" and last: "rc_last_abseqno r = of_nat (?f - 1)"
    using inv by (simp_all add: rcv_inv_def Let_def)
  have ex: "sr_push_ok S ?d ?i (th_fin ?h)" and seqno: "th_seqno ?h = seq_at isn k" and k: "k \<le> length S + 2"
    and flags: "if th_syn ?h then k = 0 else k = 0 \<longrightarrow> ?d = [] \<and> \<not> th_fin ?h"
    using seg by (simp_all add: seg_of_stream_def)
  have "?f \<le> length S" "2 * length S < 2 ^ 64"
    using sr_inv_out_ok [OF a] by (simp_all add: sr_out_ok_def size_max_def)
  then have small: "k < 2 ^ 63 + 2" "?f < 2 ^ 63"
    using k by simp_all
  have recv: "TCPReceiver_segment_received end_key seg r =
      bind_res (push_substring end_key ?d ?i (th_fin ?h) ?a)
        (\<lambda>a'. Inr (rc_note_fin ?h (rc_note_syn ?h (rc_update_ackno (r\<lparr>rc_reassembler := a'\<rparr>)))))"
    if pos: "rc_syn r \<longrightarrow> 0 < k"
  proof (cases "rc_syn r")
    case True
    then have isn: "rc_isn r = isn" and "\<not> th_syn ?h"
      using inv False by (simp_all add: rcv_inv_def Let_def)
    obtain i where i: "k = Suc i"
      using pos True by (cases k) auto
    have "unwrap (seq_at isn i) isn (of_nat (?f - 1)) = of_nat i"
      and "unwrap (seq_at isn (Suc i)) isn (of_nat (?f - 1)) = of_nat (Suc i)"
      using near small by (simp_all add: i seq_near_def unwrap_seq_at del: of_nat_Suc)
    moreover have "(of_nat (Suc i) :: 64 word) \<noteq> 0" "unat (of_nat i :: 64 word) = i"
      using small(1) by (simp_all add: i word_unat_eq_iff unat_of_nat del: of_nat_Suc)
    ultimately show ?thesis
      using True isn last seqno \<open>\<not> th_syn ?h\<close>
      by (simp add: i TCPReceiver_segment_received_def Let_def seq_at_pred Buffer_copy_def del: of_nat_Suc)
  next
    case no_syn: False
    then show ?thesis
      using False flags by (simp add: TCPReceiver_segment_received_def Let_def Buffer_copy_def)
  qed
  obtain a' where a': "push_substring end_key ?d ?i (th_fin ?h) ?a = Inr a'" "sr_inv S a'"
    "sr_abs a' = ar_push (sr_capacity ?a) ?d ?i (th_fin ?h) (sr_abs ?a)" "sr_capacity a' = sr_capacity ?a"
    using push_substring_abs [OF a ex key] by blast
  show ?thesis
  proof (cases "rc_syn r \<and> k = 0")
    case True
    then have "unwrap (th_seqno ?h) (rc_isn r) (rc_last_abseqno r) = 0"
      using inv near small seqno last unwrap_seq_at [of 0 "?f - 1" isn]
      by (simp add: rcv_inv_def Let_def seq_near_def)
    moreover have "a' = ?a"
      using True flags False a'(1) push_substring_empty [OF a] by auto
    ultimately show ?thesis
      using True False inv a'(1) by (simp add: TCPReceiver_segment_received_def Let_def)
  next
    case pos: False
    have eof: "sr_eof a' = (sr_eof ?a \<or> th_fin ?h)"
      using arg_cong [OF a'(3), of ar_eof] by (simp add: ar_push_def)
    have first: "?f \<noteq> 0 \<Longrightarrow> sr_first_index a' \<noteq> 0"
      using ar_first_push_pos [of "sr_abs ?a" "sr_capacity ?a" ?d ?i "th_fin ?h"]
        finite_subset [OF sr_received_stream [OF a]]
      unfolding a'(3) [symmetric] by (simp add: sr_abs_first [OF a] sr_abs_first [OF a'(2)])
    have stuck: "a' = ?a" if "sr_eofed ?a"
      using that a'(1) by (simp add: push_substring_def)
    show ?thesis
      using rcv_finish [OF inv a'(2,4) eof stuck first False] seqno flags recv pos a' False by auto
  qed
qed

section \<open>Runs of a receiver\<close>

text \<open>
  A run interleaves arriving segments, each with its absolute sequence number, and reads of the
  application. \<open>rc_pushes\<close> is what of it reaches the reassembler: segments before the first SYN and
  repeated SYNs do not.
\<close>

datatype rc_call = RcSegment nat TCPSegment | RcRead size_t

definition TCPReceiver_read :: "size_t \<Rightarrow> TCPReceiver \<Rightarrow> (bytes \<times> TCPReceiver) res" where
  "TCPReceiver_read n r =
     bind_res (ByteStream_read n (TCPReceiver_stream_out r))
       (\<lambda>(d, s). Inr (d, TCPReceiver_set_stream_out s r))"

fun rc_run :: "(sr_map \<Rightarrow> size_t) \<Rightarrow> rc_call list \<Rightarrow> TCPReceiver \<Rightarrow> (bytes \<times> TCPReceiver) res" where
  "rc_run ek [] r = Inr ([], r)"
| "rc_run ek (RcSegment k seg # cs) r = bind_res (TCPReceiver_segment_received ek seg r) (rc_run ek cs)"
| "rc_run ek (RcRead n # cs) r =
     bind_res (TCPReceiver_read n r)
       (\<lambda>(d, r'). bind_res (rc_run ek cs r') (\<lambda>(d', r''). Inr (d @ d', r'')))"

fun rc_pushes :: "bool \<Rightarrow> rc_call list \<Rightarrow> sr_call list" where
  "rc_pushes syn [] = []"
| "rc_pushes syn (RcSegment k seg # cs) =
     (if th_syn (ts_header seg) = syn then rc_pushes syn cs
      else SrPush (Buffer_str (ts_payload seg)) (k - 1) (th_fin (ts_header seg)) # rc_pushes True cs)"
| "rc_pushes syn (RcRead n # cs) = SrRead n # rc_pushes syn cs"

fun rc_call_ok :: "bytes \<Rightarrow> WrappingInt32 \<Rightarrow> rc_call \<Rightarrow> bool" where
  "rc_call_ok S isn (RcSegment k seg) = seg_of_stream S isn k seg"
| "rc_call_ok S isn (RcRead n) = True"

lemma TCPReceiver_read_ok:
  assumes inv: "rcv_inv S isn r"
  shows "\<exists>d r'. TCPReceiver_read n r = Inr (d, r') \<and> rcv_inv S isn r' \<and> rc_syn r' = rc_syn r \<and>
    sr_capacity (rc_reassembler r') = sr_capacity (rc_reassembler r) \<and>
    sr_abs (rc_reassembler r') = ar_read n (sr_abs (rc_reassembler r)) \<and>
    sr_read n (rc_reassembler r) = Inr (d, rc_reassembler r')"
proof -
  let ?a = "rc_reassembler r"
  have a: "sr_inv S ?a"
    using inv by (simp add: rcv_inv_def Let_def)
  obtain d a' where a': "sr_read n ?a = Inr (d, a')" "sr_inv S a'" "sr_abs a' = ar_read n (sr_abs ?a)"
    "sr_capacity a' = sr_capacity ?a"
    using sr_read_ok [OF a] by blast
  then obtain s where s: "ByteStream_read n (sr_output ?a) = Inr (d, s)" "a' = ?a\<lparr>sr_output := s\<rparr>"
    by (auto simp: sr_read_def bind_res_eq_Inr)
  have "rcv_inv S isn (r\<lparr>rc_reassembler := a'\<rparr>)"
    using inv a'(2) by (simp add: rcv_inv_def Let_def s(2))
  then show ?thesis
    using a' s by (auto simp: TCPReceiver_read_def TCPReceiver_stream_out_def TCPReceiver_set_stream_out_def)
qed

lemma rc_run_ok:
  assumes "rcv_inv S isn r" and "list_all (rc_call_ok S isn) cs" and key: "end_key_ok end_key"
    and S: "length S + 2 < 2 ^ 31"
  shows "\<exists>out r'. rc_run end_key cs r = Inr (out, r') \<and> rcv_inv S isn r' \<and>
    (rc_syn r' \<longleftrightarrow> rc_syn r \<or> (\<exists>i seg. RcSegment i seg \<in> set cs \<and> th_syn (ts_header seg))) \<and>
    sr_run end_key (rc_pushes (rc_syn r) cs) (rc_reassembler r) = Inr (out, rc_reassembler r')"
  using assms(1,2)
proof (induction cs arbitrary: r)
  case (Cons c cs)
  show ?case
  proof (cases c)
    case (RcSegment k seg)
    then have seg: "seg_of_stream S isn k seg"
      using Cons.prems(2) by simp
    have "sr_first_index (rc_reassembler r) \<le> length S" "k \<le> length S + 2"
      using Cons.prems(1) seg sr_inv_out_ok [of S "rc_reassembler r"]
      by (auto simp: rcv_inv_def Let_def sr_out_ok_def seg_of_stream_def)
    then have near: "seq_near (k - 1) (sr_first_index (rc_reassembler r) - 1)"
      using S by (auto simp: seq_near_def)
    obtain r1 where r1: "TCPReceiver_segment_received end_key seg r = Inr r1" "rcv_inv S isn r1"
      "if th_syn (ts_header seg) = rc_syn r then r1 = r
       else rc_syn r1 \<and> push_substring end_key (Buffer_str (ts_payload seg)) (k - 1) (th_fin (ts_header seg))
         (rc_reassembler r) = Inr (rc_reassembler r1)"
      using segment_received_step [OF Cons.prems(1) seg key near] by blast
    obtain out r2 where r2: "rc_run end_key cs r1 = Inr (out, r2)" "rcv_inv S isn r2"
      "rc_syn r2 \<longleftrightarrow> rc_syn r1 \<or> (\<exists>i seg. RcSegment i seg \<in> set cs \<and> th_syn (ts_header seg))"
      "sr_run end_key (rc_pushes (rc_syn r1) cs) (rc_reassembler r1) = Inr (out, rc_reassembler r2)"
      using Cons.IH [OF r1(2)] Cons.prems(2) by auto
    show ?thesis
      using r1 r2 RcSegment by (cases "th_syn (ts_header seg) = rc_syn r") auto
  next
    case (RcRead n)
    obtain d r1 where r1: "TCPReceiver_read n r = Inr (d, r1)" "rcv_inv S isn r1" "rc_syn r1 = rc_syn r"
      "sr_read n (rc_reassembler r) = Inr (d, rc_reassembler r1)"
      using TCPReceiver_read_ok [OF Cons.prems(1)] by blast
    obtain out r2 where "rc_run end_key cs r1 = Inr (out, r2)" "rcv_inv S isn r2"
      "rc_syn r2 \<longleftrightarrow> rc_syn r1 \<or> (\<exists>i seg. RcSegment i seg \<in> set cs \<and> th_syn (ts_header seg))"
      "sr_run end_key (rc_pushes (rc_syn r1) cs) (rc_reassembler r1) = Inr (out, rc_reassembler r2)"
      using Cons.IH [OF r1(2)] Cons.prems(2) by auto
    then show ?thesis
      using r1 RcRead by auto
  qed
qed simp

lemma rc_pushes_ok: "list_all (rc_call_ok S isn) cs \<Longrightarrow> list_all (sr_call_ok S) (rc_pushes syn cs)"
proof (induction cs arbitrary: syn)
  case (Cons c cs)
  then show ?case
    by (cases c) (auto simp: seg_of_stream_def)
qed simp

lemma rcv_ackno:
  assumes "rcv_inv S isn r"
  shows "TCPReceiver_ackno r =
    Inr (if rc_syn r then Some (seq_at isn (sr_first_index (rc_reassembler r) + 1 +
           (if ByteStream_input_ended (TCPReceiver_stream_out r) then 1 else 0))) else None)"
proof -
  let ?a = "rc_reassembler r"
  have "ByteStream_input_ended (sr_output ?a) = sr_eofed ?a"
    using assms sr_inv_out_ok [of S ?a] by (simp add: rcv_inv_def Let_def sr_out_ok_def)
  then show ?thesis
    using assms seq_at_Suc [of isn "Suc (sr_first_index ?a)"]
    by (auto simp: TCPReceiver_ackno_def rcv_inv_def Let_def TCPReceiver_stream_out_def)
qed

section \<open>Properties\<close>

text \<open>
  C11. Whatever segments of a stream shorter than \<open>2 ^ 31\<close> bytes arrive, in whatever order and however
  often, interleaved with reads: the receiver never throws; it runs the reassembler on the payloads
  accepted, at their stream indices; what was read followed by what is buffered is the prefix of the
  stream up to the first missing byte; and the acknowledgment number is that of this byte, or one more
  when the stream has ended, and absent before the first SYN.
\<close>

theorem TCPReceiver_refines:
  assumes "2 * length S + cap < size_max" and "end_key_ok end_key" and "length S + 2 < 2 ^ 31"
    and "list_all (rc_call_ok S isn) cs"
  shows "\<exists>out r. rc_run end_key cs (TCPReceiver_init cap) = Inr (out, r) \<and>
    sr_abs (rc_reassembler r) = ar_run cap (rc_pushes False cs) \<lparr>ar_got = {}, ar_taken = 0, ar_eof = False\<rparr> \<and>
    out @ ByteStream_contents (TCPReceiver_stream_out r) = take (ar_first (sr_abs (rc_reassembler r))) S \<and>
    TCPReceiver_ackno r =
      Inr (if \<exists>i seg. RcSegment i seg \<in> set cs \<and> th_syn (ts_header seg)
           then Some (seq_at isn (ar_first (sr_abs (rc_reassembler r)) + 1 +
             (if ByteStream_input_ended (TCPReceiver_stream_out r) then 1 else 0)))
           else None)"
proof -
  let ?r0 = "TCPReceiver_init cap"
  obtain out r where r: "rc_run end_key cs ?r0 = Inr (out, r)" "rcv_inv S isn r"
    "rc_syn r \<longleftrightarrow> (\<exists>i seg. RcSegment i seg \<in> set cs \<and> th_syn (ts_header seg))"
    "sr_run end_key (rc_pushes False cs) (StreamReassembler_init cap) = Inr (out, rc_reassembler r)"
    using rc_run_ok [OF rcv_inv_init [OF assms(1)] assms(4,2,3)] by (auto simp: TCPReceiver_init_def)
  have a: "sr_inv S (rc_reassembler r)"
    using r(2) by (simp add: rcv_inv_def Let_def)
  show ?thesis
    using sr_run_init [OF assms(1,2) rc_pushes_ok [OF assms(4)], of False] r rcv_ackno [OF r(2)]
      sr_abs_first [OF a]
    by (auto simp: TCPReceiver_stream_out_def)
qed

theorem TCPReceiver_refines_witness:
  "\<exists>out r. rc_run length
      [RcSegment 0 (TCPSegment_default\<lparr>ts_header := TCPHeader_default\<lparr>th_seqno := WrappingInt32 9, th_syn := True\<rparr>\<rparr>),
       RcSegment 3 \<lparr>ts_header = TCPHeader_default\<lparr>th_seqno := WrappingInt32 12, th_fin := True\<rparr>,
                    ts_payload = Buffer_of_string [3]\<rparr>, RcRead 7]
      (TCPReceiver_init 8) = Inr (out, r) \<and>
    out @ ByteStream_contents (TCPReceiver_stream_out r) = take (ar_first (sr_abs (rc_reassembler r))) [1, 2, 3]"
proof -
  have seqno: "seq_at (WrappingInt32 9) 3 = WrappingInt32 12"
    by (rule WrappingInt32.expand) (simp add: raw_seq_at)
  show ?thesis
    using TCPReceiver_refines [of "[1, 2, 3]" 8 length "WrappingInt32 9"
        "[RcSegment 0 (TCPSegment_default\<lparr>ts_header := TCPHeader_default\<lparr>th_seqno := WrappingInt32 9, th_syn := True\<rparr>\<rparr>),
          RcSegment 3 \<lparr>ts_header = TCPHeader_default\<lparr>th_seqno := WrappingInt32 12, th_fin := True\<rparr>,
                       ts_payload = Buffer_of_string [3]\<rparr>, RcRead 7]"] end_key_ok_length
    by (fastforce simp: seg_of_stream_def sr_push_ok_def sr_excerpt_at_def excerpt_def size_max_def seqno
        TCPHeader_default_def TCPSegment_default_def)
qed

text \<open>
  The advertised window is what is left of the capacity, and it is kept: every byte the receiver
  holds or has assembled lies below the acknowledged index plus the window.
\<close>

lemma TCPReceiver_window:
  assumes "2 * length S + cap < size_max" and "end_key_ok end_key" and "length S + 2 < 2 ^ 31"
    and "list_all (rc_call_ok S isn) cs" and "rc_run end_key cs (TCPReceiver_init cap) = Inr (out, r)"
  shows "TCPReceiver_window_size r + ByteStream_buffer_size (TCPReceiver_stream_out r) = cap \<and>
    ar_got (sr_abs (rc_reassembler r)) \<subseteq>
      {..<ar_first (sr_abs (rc_reassembler r)) + TCPReceiver_window_size r}"
proof -
  obtain a: "sr_inv S (rc_reassembler r)" and "sr_run end_key (rc_pushes False cs) (StreamReassembler_init cap) =
      Inr (out, rc_reassembler r)"
    using rc_run_ok [OF rcv_inv_init [OF assms(1)] assms(4,2,3)] assms(5)
    by (auto simp: TCPReceiver_init_def rcv_inv_def Let_def)
  then have cap: "sr_capacity (rc_reassembler r) = cap"
    using sr_run_init [OF assms(1,2) rc_pushes_ok [OF assms(4)], of False] by auto
  have wf: "ByteStream_wf (sr_output (rc_reassembler r))" "bs_capacity (sr_output (rc_reassembler r)) = cap"
    using sr_inv_out_ok [OF a] cap by (simp_all add: sr_out_ok_def)
  have "sr_window_end (rc_reassembler r) = sr_first_index (rc_reassembler r) + TCPReceiver_window_size r"
    using wf cap by (simp add: sr_window_end_def TCPReceiver_window_size_def TCPReceiver_stream_out_def
        ByteStream_remaining_capacity_eq)
  then show ?thesis
    using pipe.within_capacity [OF wf(1)] wf sr_received_window [OF a] sr_window_end_consumed [OF a]
    by (simp add: TCPReceiver_window_size_def TCPReceiver_stream_out_def ByteStream_remaining_capacity_eq
        ByteStream_buffer_size_eq sr_abs_first [OF a])
qed

lemma TCPReceiver_window_witness:
  "TCPReceiver_window_size (TCPReceiver_init 8) +
     ByteStream_buffer_size (TCPReceiver_stream_out (TCPReceiver_init 8)) = 8"
  using TCPReceiver_window [of "[]" 8 length "WrappingInt32 9" "[]" "[]" "TCPReceiver_init 8"] end_key_ok_length
  by (simp add: size_max_def)

end
