(* ===== verification/TCP_Sender.thy ===== *)
theory TCP_Sender
  imports TCP_Receiver
begin

text \<open>
  \<^verbatim>\<open>libsponge/tcp_sender.hh\<close>, \<^verbatim>\<open>tcp_sender.cc\<close> and the sender's part of
  \<^verbatim>\<open>tcp_helpers/tcp_config.hh\<close>: the sender cuts its outgoing byte stream into segments that fit the
  peer's window, keeps those that are not acknowledged and retransmits the oldest when the timer
  expires. Absolute sequence numbers are 64-bit words, timers have the widths of their members.

  The loop of \<^verbatim>\<open>fill_window\<close> is shown to end for every state. Every segment that ever enters the
  outbound queue is a segment of the byte stream written by the application.
\<close>

section \<open>Configuration\<close>

definition TCPConfig_DEFAULT_CAPACITY :: size_t where
  "TCPConfig_DEFAULT_CAPACITY = 64000"

definition TCPConfig_MAX_PAYLOAD_SIZE :: "64 word" where
  "TCPConfig_MAX_PAYLOAD_SIZE = 1000"

definition TCPConfig_TIMEOUT_DFLT :: "16 word" where
  "TCPConfig_TIMEOUT_DFLT = 1000"

definition TCPConfig_MAX_RETX_ATTEMPTS :: "32 word" where
  "TCPConfig_MAX_RETX_ATTEMPTS = 8"

record TCPConfig =
  cfg_rt_timeout :: "16 word"
  cfg_recv_capacity :: size_t
  cfg_send_capacity :: size_t
  cfg_fixed_isn :: "WrappingInt32 option"

definition TCPConfig_default :: TCPConfig where
  "TCPConfig_default =
     \<lparr>cfg_rt_timeout = TCPConfig_TIMEOUT_DFLT, cfg_recv_capacity = TCPConfig_DEFAULT_CAPACITY,
      cfg_send_capacity = TCPConfig_DEFAULT_CAPACITY, cfg_fixed_isn = None\<rparr>"

section \<open>State and operations\<close>

record sent_t =
  st_expected_ack :: "64 word"
  st_seg :: TCPSegment

record TCPSender =
  tx_isn :: WrappingInt32
  tx_segments_out :: "TCPSegment list"
  tx_initial_retransmission_timeout :: "32 word"
  tx_timeout :: "32 word"
  tx_stream :: ByteStream
  tx_next_abs_seqno :: "64 word"
  tx_last_acked_abs_seqno :: "64 word"
  tx_sent :: "sent_t list"
  tx_resend_try_times :: "32 word"
  tx_last_time :: "64 word"
  tx_syned :: bool
  tx_syn_acked :: bool
  tx_fined :: bool
  tx_window_size :: "16 word"

text \<open>\<open>random\<close> is the value the random device yields, used when no sequence number is configured.\<close>

definition TCPSender_init :: "32 word \<Rightarrow> size_t \<Rightarrow> 16 word \<Rightarrow> WrappingInt32 option \<Rightarrow> TCPSender" where
  "TCPSender_init random capacity retx_timeout fixed_isn =
     \<lparr>tx_isn = (case fixed_isn of Some i \<Rightarrow> i | None \<Rightarrow> WrappingInt32 random),
      tx_segments_out = [], tx_initial_retransmission_timeout = ucast retx_timeout,
      tx_timeout = ucast retx_timeout, tx_stream = ByteStream_init capacity,
      tx_next_abs_seqno = 0, tx_last_acked_abs_seqno = 0, tx_sent = [], tx_resend_try_times = 0,
      tx_last_time = 0, tx_syned = False, tx_syn_acked = False, tx_fined = False,
      tx_window_size = 1\<rparr>"

definition TCPSender_bytes_in_flight :: "TCPSender \<Rightarrow> 64 word" where
  "TCPSender_bytes_in_flight s = tx_next_abs_seqno s - tx_last_acked_abs_seqno s"

definition TCPSender_fined :: "TCPSender \<Rightarrow> bool" where
  "TCPSender_fined s = tx_fined s"

definition TCPSender_full_fined :: "TCPSender \<Rightarrow> bool" where
  "TCPSender_full_fined s \<longleftrightarrow> tx_fined s \<and> tx_next_abs_seqno s = tx_last_acked_abs_seqno s"

definition TCPSender_syned :: "TCPSender \<Rightarrow> bool" where
  "TCPSender_syned s = tx_syned s"

definition TCPSender_next_seqno :: "TCPSender \<Rightarrow> WrappingInt32" where
  "TCPSender_next_seqno s = wrap (tx_next_abs_seqno s) (tx_isn s)"

definition TCPSender_consecutive_retransmissions :: "TCPSender \<Rightarrow> 32 word" where
  "TCPSender_consecutive_retransmissions s = tx_resend_try_times s"

text \<open>
  One iteration of the loop of \<^verbatim>\<open>fill_window\<close>: the room in the window less the SYN, the size of the
  read, whether the FIN goes along, and the segment; the flag says whether the loop goes on.
\<close>

definition tx_allow_size :: "64 word \<Rightarrow> TCPSender \<Rightarrow> 64 word" where
  "tx_allow_size ex s =
     (let allow_size = ucast (tx_window_size s) - TCPSender_bytes_in_flight s + ex
      in if \<not> tx_syned s then allow_size - 1 else allow_size)"

definition tx_read_size :: "64 word \<Rightarrow> TCPSender \<Rightarrow> 64 word" where
  "tx_read_size ex s =
     (if tx_allow_size ex s < TCPConfig_MAX_PAYLOAD_SIZE then tx_allow_size ex s
      else TCPConfig_MAX_PAYLOAD_SIZE)"

definition tx_sends_fin :: "64 word \<Rightarrow> TCPSender \<Rightarrow> bytes \<Rightarrow> ByteStream \<Rightarrow> bool" where
  "tx_sends_fin ex s data stream \<longleftrightarrow>
     \<not> tx_fined s \<and> tx_allow_size ex s - of_nat (Buffer_size (Buffer_of_string data)) > 0 \<and>
     ByteStream_input_ended stream \<and> ByteStream_buffer_empty stream"

definition fill_window_iter :: "64 word \<Rightarrow> TCPSender \<Rightarrow> (bool \<times> TCPSender) res" where
  "fill_window_iter ex s =
     (if tx_fined s then Inr (False, s)
      else
        bind_res (ByteStream_read (unat (tx_read_size ex s)) (tx_stream s)) (\<lambda>(data, stream).
          let syn = (\<not> tx_syned s);
              fin = tx_sends_fin ex s data stream;
              s1 = s\<lparr>tx_syned := True, tx_stream := stream, tx_fined := fin\<rparr>;
              segment = \<lparr>ts_header = TCPHeader_default\<lparr>th_syn := syn, th_fin := fin\<rparr>,
                         ts_payload = Buffer_of_string data\<rparr>;
              segment_length = length_in_sequence_space segment;
              ex' = ex AND 0
          in if segment_length = 0 then Inr (False, s1)
             else
               let seqno = (if ex' = 0 then wrap (tx_next_abs_seqno s1) (tx_isn s1)
                            else WrappingInt32_minus (wrap (tx_next_abs_seqno s1) (tx_isn s1)) 1);
                   segment = segment\<lparr>ts_header := (ts_header segment)\<lparr>th_seqno := seqno\<rparr>\<rparr>;
                   next_seqno = tx_next_abs_seqno s1 + of_nat segment_length
               in Inr (True,
                    s1\<lparr>tx_segments_out := tx_segments_out s1 @ [segment],
                       tx_next_abs_seqno := next_seqno,
                       tx_sent := tx_sent s1 @ [\<lparr>st_expected_ack = next_seqno, st_seg = segment\<rparr>]\<rparr>)))"

lemma ByteStream_read_length:
  "ByteStream_read n s = Inr (d, s') \<Longrightarrow> length d \<le> n"
  by (auto simp: ByteStream_read_def ByteStream_peek_output_def Let_def)

definition tx_segment :: "64 word \<Rightarrow> TCPSender \<Rightarrow> bytes \<Rightarrow> ByteStream \<Rightarrow> TCPSegment" where
  "tx_segment ex s data stream =
     \<lparr>ts_header = TCPHeader_default\<lparr>th_seqno := wrap (tx_next_abs_seqno s) (tx_isn s),
        th_syn := (\<not> tx_syned s), th_fin := tx_sends_fin ex s data stream\<rparr>,
      ts_payload = Buffer_of_string data\<rparr>"

lemma fill_window_iter_eq:
  assumes "\<not> tx_fined s" and "ByteStream_read (unat (tx_read_size ex s)) (tx_stream s) = Inr (data, stream)"
  shows "fill_window_iter ex s =
    (let n = length_in_sequence_space (tx_segment ex s data stream);
         s1 = s\<lparr>tx_syned := True, tx_stream := stream, tx_fined := tx_sends_fin ex s data stream\<rparr>
     in if n = 0 then Inr (False, s1)
        else Inr (True,
          s1\<lparr>tx_segments_out := tx_segments_out s @ [tx_segment ex s data stream],
             tx_next_abs_seqno := tx_next_abs_seqno s + of_nat n,
             tx_sent := tx_sent s @ [\<lparr>st_expected_ack = tx_next_abs_seqno s + of_nat n,
                                      st_seg = tx_segment ex s data stream\<rparr>]\<rparr>))"
  using assms
  by (simp add: fill_window_iter_def Let_def tx_segment_def length_in_sequence_space_def)

lemma tx_allow_size_room:
  assumes "TCPSender_bytes_in_flight s < ucast (tx_window_size s) + ex"
  shows "unat (TCPSender_bytes_in_flight s) + unat (tx_allow_size ex s) + (if tx_syned s then 0 else 1) =
    unat (ucast (tx_window_size s) + ex :: 64 word)"
proof -
  let ?W = "ucast (tx_window_size s) + ex :: 64 word" and ?F = "TCPSender_bytes_in_flight s"
  have allow: "ucast (tx_window_size s) - ?F + ex = ?W - ?F"
    by simp
  have "unat (?W - ?F) = unat ?W - unat ?F" "unat ?F < unat ?W"
    using assms by (simp_all add: unat_sub [OF less_imp_le] flip: word_less_nat_alt)
  moreover have "unat (?W - ?F - 1) = unat (?W - ?F) - 1" if "unat (?W - ?F) > 0"
    using that by (simp add: unat_sub word_le_nat_alt)
  ultimately show ?thesis
    unfolding tx_allow_size_def Let_def allow by simp
qed

lemma tx_read_size_le: "unat (tx_read_size ex s) \<le> unat (tx_allow_size ex s)"
  "unat (tx_read_size ex s) \<le> 1000"
  by (auto simp: tx_read_size_def TCPConfig_MAX_PAYLOAD_SIZE_def word_less_nat_alt)

lemma tx_segment_fits:
  assumes "ByteStream_read (unat (tx_read_size ex s)) (tx_stream s) = Inr (data, stream)"
  shows "length_in_sequence_space (tx_segment ex s data stream) \<le>
    (if tx_syned s then 0 else 1) + unat (tx_allow_size ex s)"
proof -
  let ?A = "tx_allow_size ex s"
  have d: "length data \<le> unat ?A"
    using ByteStream_read_length [OF assms] tx_read_size_le(1) [of ex s] by linarith
  then have "unat (of_nat (length data) :: 64 word) = length data"
    using unat_lt [of ?A] by (simp add: unat_of_nat)
  then have "unat (?A - of_nat (length data)) = unat ?A - length data"
    using d by (simp add: unat_sub word_le_nat_alt)
  then have "tx_sends_fin ex s data stream \<Longrightarrow> length data < unat ?A"
    by (auto simp: tx_sends_fin_def word_less_nat_alt Buffer_size_def)
  then show ?thesis
    using d by (auto simp: tx_segment_def length_in_sequence_space_def)
qed

lemma fill_window_iter_TrueE:
  assumes "fill_window_iter ex s = Inr (True, s')"
  obtains data stream where "\<not> tx_fined s"
    and "ByteStream_read (unat (tx_read_size ex s)) (tx_stream s) = Inr (data, stream)"
    and "length_in_sequence_space (tx_segment ex s data stream) \<noteq> 0"
    and "s' = s\<lparr>tx_syned := True, tx_stream := stream, tx_fined := tx_sends_fin ex s data stream,
           tx_segments_out := tx_segments_out s @ [tx_segment ex s data stream],
           tx_next_abs_seqno := tx_next_abs_seqno s + of_nat (length_in_sequence_space (tx_segment ex s data stream)),
           tx_sent := tx_sent s @
             [\<lparr>st_expected_ack =
                 tx_next_abs_seqno s + of_nat (length_in_sequence_space (tx_segment ex s data stream)),
               st_seg = tx_segment ex s data stream\<rparr>]\<rparr>"
proof -
  have nf: "\<not> tx_fined s"
    using assms by (auto simp: fill_window_iter_def)
  then obtain data stream where rd: "ByteStream_read (unat (tx_read_size ex s)) (tx_stream s) = Inr (data, stream)"
    using assms by (auto simp: fill_window_iter_def bind_res_eq_Inr)
  show thesis
    using that [OF nf rd] assms unfolding fill_window_iter_eq [OF nf rd]
    by (auto simp: Let_def split: if_splits)
qed

lemma fill_window_iter_grows:
  assumes it: "fill_window_iter ex s = Inr (True, s')"
    and room: "TCPSender_bytes_in_flight s < ucast (tx_window_size s) + ex"
  shows "tx_window_size s' = tx_window_size s"
    and "unat (TCPSender_bytes_in_flight s) < unat (TCPSender_bytes_in_flight s')"
    and "unat (TCPSender_bytes_in_flight s') \<le> unat (ucast (tx_window_size s) + ex :: 64 word)"
proof -
  obtain data stream
    where rd: "ByteStream_read (unat (tx_read_size ex s)) (tx_stream s) = Inr (data, stream)"
      and n: "length_in_sequence_space (tx_segment ex s data stream) \<noteq> 0"
      and s': "s' = s\<lparr>tx_syned := True, tx_stream := stream, tx_fined := tx_sends_fin ex s data stream,
           tx_segments_out := tx_segments_out s @ [tx_segment ex s data stream],
           tx_next_abs_seqno := tx_next_abs_seqno s + of_nat (length_in_sequence_space (tx_segment ex s data stream)),
           tx_sent := tx_sent s @
             [\<lparr>st_expected_ack =
                 tx_next_abs_seqno s + of_nat (length_in_sequence_space (tx_segment ex s data stream)),
               st_seg = tx_segment ex s data stream\<rparr>]\<rparr>"
    using it by (rule fill_window_iter_TrueE)
  let ?n = "length_in_sequence_space (tx_segment ex s data stream)"
  show "tx_window_size s' = tx_window_size s"
    by (simp add: s')
  have le: "unat (TCPSender_bytes_in_flight s) + ?n \<le> unat (ucast (tx_window_size s) + ex :: 64 word)"
    using tx_allow_size_room [OF room] tx_segment_fits [OF rd] by (auto split: if_splits)
  have "TCPSender_bytes_in_flight s' = TCPSender_bytes_in_flight s + of_nat ?n"
    by (simp add: s' TCPSender_bytes_in_flight_def)
  then have "unat (TCPSender_bytes_in_flight s') = unat (TCPSender_bytes_in_flight s) + ?n"
    using le unat_lt [of "ucast (tx_window_size s) + ex :: 64 word"]
    by (simp add: unat_word_ariths unat_of_nat)
  then show "unat (TCPSender_bytes_in_flight s) < unat (TCPSender_bytes_in_flight s')"
    and "unat (TCPSender_bytes_in_flight s') \<le> unat (ucast (tx_window_size s) + ex :: 64 word)"
    using n le by simp_all
qed

function fill_window_loop :: "64 word \<Rightarrow> TCPSender \<Rightarrow> TCPSender res" where
  "fill_window_loop ex s =
     (if ucast (tx_window_size s) + ex > TCPSender_bytes_in_flight s then
        case fill_window_iter ex s of
          Inl e \<Rightarrow> Inl e
        | Inr (continue, s') \<Rightarrow> if continue then fill_window_loop 0 s' else Inr s'
      else Inr s)"
  by pat_completeness auto

termination fill_window_loop
proof (relation "measures [\<lambda>(ex, s). if ex = 0 then 0 else 1,
    \<lambda>(ex, s). unat (tx_window_size s) - unat (TCPSender_bytes_in_flight s)]")
  fix ex s x continue s'
  assume room: "TCPSender_bytes_in_flight s < ucast (tx_window_size s) + ex"
    and "fill_window_iter ex s = Inr x" "(continue, s') = x" continue
  then have it: "fill_window_iter ex s = Inr (True, s')"
    by auto
  have w: "unat (ucast (tx_window_size s) :: 64 word) = unat (tx_window_size s)"
    using unat_lt [of "tx_window_size s"] by (simp add: unsigned_ucast_eq take_bit_eq_mod)
  show "((0, s'), ex, s) \<in> measures [\<lambda>(ex, s). if ex = 0 then 0 else 1,
    \<lambda>(ex, s). unat (tx_window_size s) - unat (TCPSender_bytes_in_flight s)]"
    using fill_window_iter_grows [OF it room] w by (cases "ex = 0") auto
qed simp

declare fill_window_loop.simps [simp del]

definition fill_window :: "TCPSender \<Rightarrow> TCPSender res" where
  "fill_window s = fill_window_loop (if tx_window_size s = 0 then 1 else 0) s"

text \<open>
  The loop over \<open>_sent\<close> pops the front while advancing an iterator over it: it drops the longest prefix
  of segments whose expected acknowledgment has been reached.
\<close>

definition ack_received :: "WrappingInt32 \<Rightarrow> 16 word \<Rightarrow> TCPSender \<Rightarrow> TCPSender" where
  "ack_received ackno window_size s =
     (let s1 = s\<lparr>tx_window_size := window_size\<rparr>;
          tmp = unwrap ackno (tx_isn s1) (tx_last_acked_abs_seqno s1)
      in if tmp \<le> tx_last_acked_abs_seqno s1 \<or> tmp > tx_next_abs_seqno s1 then s1
         else
           let s2 = s1\<lparr>tx_last_acked_abs_seqno := tmp\<rparr>
           in if tx_sent s2 \<noteq> [] then
                s2\<lparr>tx_timeout := tx_initial_retransmission_timeout s2, tx_last_time := 0,
                   tx_resend_try_times := 0,
                   tx_sent := dropWhile (\<lambda>x. st_expected_ack x \<le> tx_last_acked_abs_seqno s2) (tx_sent s2)\<rparr>
              else s2)"

definition TCPSender_tick :: "64 word \<Rightarrow> TCPSender \<Rightarrow> TCPSender" where
  "TCPSender_tick ms s =
     (let s1 = s\<lparr>tx_last_time := tx_last_time s + ms\<rparr>
      in if tx_sent s1 \<noteq> [] \<and> tx_last_time s1 \<ge> ucast (tx_timeout s1) then
           let s2 = s1\<lparr>tx_segments_out := tx_segments_out s1 @ [st_seg (hd (tx_sent s1))],
                       tx_last_time := 0\<rparr>
           in if tx_window_size s2 \<noteq> 0
              then s2\<lparr>tx_timeout := 2 * tx_timeout s2,
                      tx_resend_try_times := tx_resend_try_times s2 + 1\<rparr>
              else s2
         else if tx_sent s1 = [] then s1\<lparr>tx_last_time := 0\<rparr>
         else s1)"

definition send_empty_segment :: "TCPSender \<Rightarrow> TCPSender" where
  "send_empty_segment s =
     (let seg = TCPSegment_default\<lparr>ts_header :=
                  TCPHeader_default\<lparr>th_seqno := wrap (tx_next_abs_seqno s) (tx_isn s)\<rparr>\<rparr>
      in s\<lparr>tx_segments_out := tx_segments_out s @ [seg]\<rparr>)"

section \<open>The loop of \<^verbatim>\<open>fill_window\<close>\<close>

lemma ByteStream_read_wf:
  assumes "ByteStream_wf b" and "ByteStream_read n b = Inr (data, b')"
  shows "data = take n (ByteStream_contents b)" and "ByteStream_wf b'"
    and "ByteStream_contents b' = drop n (ByteStream_contents b)"
    and "ByteStream_input_ended b' = ByteStream_input_ended b"
    and "ByteStream_contents b = data @ ByteStream_contents b'"
proof -
  obtain b'' where "ByteStream_read n b = Inr (take n (ByteStream_contents b), b'')" and "ByteStream_wf b''"
    and "ByteStream_contents b'' = drop n (ByteStream_contents b)"
    and "bs_input_ended_flag b'' = bs_input_ended_flag b"
    using assms(1) by (rule ByteStream_readE)
  then show "data = take n (ByteStream_contents b)" and "ByteStream_wf b'"
    and "ByteStream_contents b' = drop n (ByteStream_contents b)"
    and "ByteStream_input_ended b' = ByteStream_input_ended b"
    and "ByteStream_contents b = data @ ByteStream_contents b'"
    using assms(2) by (simp_all add: ByteStream_input_ended_def)
qed

lemma fill_window_loop_induct:
  assumes "fill_window_loop ex s = Inr s'" and "P s"
    and "\<And>ex' s continue s'. P s \<Longrightarrow> ex' = ex \<or> ex' = 0 \<Longrightarrow>
      TCPSender_bytes_in_flight s < ucast (tx_window_size s) + ex' \<Longrightarrow>
      fill_window_iter ex' s = Inr (continue, s') \<Longrightarrow> P s'"
  shows "P s'"
  using assms
proof (induction ex s rule: fill_window_loop.induct)
  case (1 ex s)
  show ?case
  proof (cases "TCPSender_bytes_in_flight s < ucast (tx_window_size s) + ex")
    case True
    then obtain c s1 where it: "fill_window_iter ex s = Inr (c, s1)"
      and rest: "(if c then fill_window_loop 0 s1 else Inr s1) = Inr s'"
      using 1(2) by (subst (asm) fill_window_loop.simps) (auto split: sum.splits prod.splits)
    have "P s1"
      by (rule 1(4) [OF 1(3) _ True it]) simp
    show ?thesis
    proof (cases c)
      case c: True
      show ?thesis
      proof (rule 1(1) [OF True it refl c _ \<open>P s1\<close>])
        show "fill_window_loop 0 s1 = Inr s'"
          using rest c by simp
      qed (rule 1(4); simp)
    next
      case False
      then show ?thesis
        using rest \<open>P s1\<close> by simp
    qed
  next
    case False
    then show ?thesis
      using 1(2,3) by (simp add: fill_window_loop.simps)
  qed
qed

lemma fill_window_iter_total:
  assumes "ByteStream_wf (tx_stream s)"
  shows "\<exists>c s'. fill_window_iter ex s = Inr (c, s') \<and> ByteStream_wf (tx_stream s')"
proof (cases "tx_fined s")
  case True
  then show ?thesis
    using assms by (auto simp: fill_window_iter_def)
next
  case False
  obtain data b where rd: "ByteStream_read (unat (tx_read_size ex s)) (tx_stream s) = Inr (data, b)"
    and "ByteStream_wf b"
    using assms by (auto elim!: ByteStream_readE [of "tx_stream s" "unat (tx_read_size ex s)"])
  then show ?thesis
    by (cases "length_in_sequence_space (tx_segment ex s data b) = 0")
      (auto simp: fill_window_iter_eq [OF False rd] Let_def)
qed

lemma fill_window_iter_FalseE:
  assumes "fill_window_iter ex s = Inr (False, s')"
  obtains "tx_fined s" and "s' = s"
  | data b where "\<not> tx_fined s" and "data = []" and "tx_syned s" and "\<not> tx_sends_fin ex s data b"
    and "ByteStream_read (unat (tx_read_size ex s)) (tx_stream s) = Inr (data, b)"
    and "s' = s\<lparr>tx_stream := b\<rparr>"
proof (cases "tx_fined s")
  case True
  then show thesis
    using assms by (intro that(1)) (simp_all add: fill_window_iter_def)
next
  case False
  obtain data b where rd: "ByteStream_read (unat (tx_read_size ex s)) (tx_stream s) = Inr (data, b)"
    using assms False by (auto simp: fill_window_iter_def bind_res_eq_Inr)
  have n: "length_in_sequence_space (tx_segment ex s data b) = 0"
    and s': "s' = s\<lparr>tx_syned := True, tx_stream := b, tx_fined := tx_sends_fin ex s data b\<rparr>"
    using assms by (auto simp: fill_window_iter_eq [OF False rd] Let_def split: if_splits)
  have syn: "tx_syned s" and empty: "data = []" and fin: "\<not> tx_sends_fin ex s data b"
    using n by (auto simp: length_in_sequence_space_def tx_segment_def split: if_splits)
  show thesis
    using s' syn fin False by (intro that(2) [OF False empty syn fin rd]) simp
qed

lemma fill_window_iter_bounds:
  assumes "fill_window_iter ex s = Inr (c, s')"
    and "TCPSender_bytes_in_flight s < ucast (tx_window_size s) + ex"
  shows "tx_window_size s' = tx_window_size s"
    and "unat (TCPSender_bytes_in_flight s) \<le> unat (TCPSender_bytes_in_flight s')"
    and "unat (TCPSender_bytes_in_flight s') \<le> unat (ucast (tx_window_size s) + ex :: 64 word)"
    and "\<exists>q. tx_segments_out s' = tx_segments_out s @ q \<and> (\<forall>seg \<in> set q. length (Buffer_str (ts_payload seg)) \<le> 1000)"
proof -
  have len: "length data \<le> 1000"
    if "ByteStream_read (unat (tx_read_size ex s)) (tx_stream s) = Inr (data, b)" for data b
    using ByteStream_read_length [OF that] tx_read_size_le(2) [of ex s] by linarith
  show "tx_window_size s' = tx_window_size s"
    and "unat (TCPSender_bytes_in_flight s) \<le> unat (TCPSender_bytes_in_flight s')"
    and "unat (TCPSender_bytes_in_flight s') \<le> unat (ucast (tx_window_size s) + ex :: 64 word)"
    and "\<exists>q. tx_segments_out s' = tx_segments_out s @ q \<and> (\<forall>seg \<in> set q. length (Buffer_str (ts_payload seg)) \<le> 1000)"
    using assms fill_window_iter_grows [OF _ assms(2), of s'] len
    by (cases c; auto elim!: fill_window_iter_FalseE fill_window_iter_TrueE
        simp: TCPSender_bytes_in_flight_def word_less_nat_alt tx_segment_def)+
qed

lemma fill_window_loop_grows:
  assumes "fill_window_loop ex s = Inr s'"
  shows "unat (TCPSender_bytes_in_flight s) \<le> unat (TCPSender_bytes_in_flight s')"
  by (rule fill_window_loop_induct [OF assms]) (auto dest: fill_window_iter_bounds(2))

lemma fill_window_loop_total:
  "ByteStream_wf (tx_stream s) \<Longrightarrow> \<exists>s'. fill_window_loop ex s = Inr s'"
proof (induction ex s rule: fill_window_loop.induct)
  case (1 ex s)
  obtain c s1 where it: "fill_window_iter ex s = Inr (c, s1)" "ByteStream_wf (tx_stream s1)"
    using fill_window_iter_total [OF 1(2)] by blast
  show ?case
    using 1(1) [OF _ it(1) refl] it by (subst fill_window_loop.simps) auto
qed

text \<open>The loop stops only when nothing more may be sent.\<close>

definition tx_quiet :: "TCPSender \<Rightarrow> bool" where
  "tx_quiet s \<longleftrightarrow> tx_fined s \<or>
     tx_syned s \<and> ByteStream_buffer_empty (tx_stream s) \<and> \<not> ByteStream_input_ended (tx_stream s)"

lemma fill_window_iter_stops:
  assumes wf: "ByteStream_wf (tx_stream s)" and it: "fill_window_iter ex s = Inr (False, s')"
    and room: "TCPSender_bytes_in_flight s < ucast (tx_window_size s) + ex"
  shows "tx_quiet s'"
proof (cases "tx_fined s")
  case True
  then show ?thesis
    using it by (simp add: fill_window_iter_def tx_quiet_def)
next
  case False
  obtain data b where rd: "ByteStream_read (unat (tx_read_size ex s)) (tx_stream s) = Inr (data, b)"
    and s': "s' = s\<lparr>tx_stream := b\<rparr>"
    and syn: "tx_syned s" and empty: "data = []" and fin: "\<not> tx_sends_fin ex s data b"
    using it False by (auto elim: fill_window_iter_FalseE)
  have "0 < unat (tx_allow_size ex s)"
    using tx_allow_size_room [OF room] room syn by (simp add: word_less_nat_alt)
  then have "0 < unat (tx_read_size ex s)" "0 < tx_allow_size ex s"
    by (simp_all add: tx_read_size_def TCPConfig_MAX_PAYLOAD_SIZE_def word_less_nat_alt)
  then show ?thesis
    using ByteStream_read_wf(1,3,4) [OF wf rd] empty fin False
    by (auto simp: s' syn tx_quiet_def tx_sends_fin_def ByteStream_buffer_empty_iff Buffer_size_def)
qed

lemma fill_window_loop_stops:
  assumes "ByteStream_wf (tx_stream s)" and "fill_window_loop ex s = Inr s'"
  shows "tx_quiet s' \<or> unat (ucast (tx_window_size s) + ex :: 64 word) \<le> unat (TCPSender_bytes_in_flight s')
    \<or> unat (tx_window_size s) \<le> unat (TCPSender_bytes_in_flight s') \<and>
      unat (TCPSender_bytes_in_flight s) < unat (TCPSender_bytes_in_flight s')"
  using assms
proof (induction ex s rule: fill_window_loop.induct)
  case (1 ex s)
  show ?case
  proof (cases "TCPSender_bytes_in_flight s < ucast (tx_window_size s) + ex")
    case True
    then obtain c s1 where it: "fill_window_iter ex s = Inr (c, s1)"
      and rest: "(if c then fill_window_loop 0 s1 else Inr s1) = Inr s'"
      using 1(3) by (subst (asm) fill_window_loop.simps) (auto split: sum.splits prod.splits)
    show ?thesis
    proof (cases c)
      case c: True
      have w: "unat (ucast (tx_window_size s) :: 64 word) = unat (tx_window_size s)"
        using unat_lt [of "tx_window_size s"] by (simp add: unsigned_ucast_eq take_bit_eq_mod)
      have "ByteStream_wf (tx_stream s1)"
        using fill_window_iter_total [OF 1(2), of ex] it by auto
      then show ?thesis
        using 1(1) [OF True it refl c] it rest c fill_window_iter_grows [OF _ True, of s1] w
          fill_window_loop_grows [of 0 s1 s']
        by auto
    next
      case False
      then show ?thesis
        using fill_window_iter_stops [OF 1(2) _ True] it rest by auto
    qed
  next
    case False
    then show ?thesis
      using 1(3) by (auto simp: fill_window_loop.simps word_less_nat_alt)
  qed
qed

section \<open>The invariant\<close>

text \<open>
  The outstanding segments are consecutive in sequence space and end at the next sequence number;
  what is acknowledged reaches into the first of them.
\<close>

abbreviation st_length :: "sent_t \<Rightarrow> nat" where
  "st_length x \<equiv> length_in_sequence_space (st_seg x)"

fun sent_chain :: "(nat \<Rightarrow> TCPSegment \<Rightarrow> bool) \<Rightarrow> nat \<Rightarrow> sent_t list \<Rightarrow> nat \<Rightarrow> bool" where
  "sent_chain P a [] b \<longleftrightarrow> a = b"
| "sent_chain P a (x # xs) b \<longleftrightarrow>
     P a (st_seg x) \<and> 0 < st_length x \<and>
     unat (st_expected_ack x) = a + st_length x \<and> sent_chain P (a + st_length x) xs b"

lemma sent_chain_le: "sent_chain P a xs b \<Longrightarrow> a \<le> b"
  by (induction xs arbitrary: a) fastforce+

lemma sent_chain_append:
  "sent_chain P a (xs @ ys) c \<longleftrightarrow> (\<exists>b. sent_chain P a xs b \<and> sent_chain P b ys c)"
  by (induction xs arbitrary: a) auto

definition tx_outstanding :: "(nat \<Rightarrow> TCPSegment \<Rightarrow> bool) \<Rightarrow> TCPSender \<Rightarrow> bool" where
  "tx_outstanding P s \<longleftrightarrow>
     unat (tx_last_acked_abs_seqno s) \<le> unat (tx_next_abs_seqno s) \<and>
     (\<exists>a \<le> unat (tx_last_acked_abs_seqno s).
        sent_chain P a (tx_sent s) (unat (tx_next_abs_seqno s)) \<and>
        (if tx_sent s = [] then a = unat (tx_last_acked_abs_seqno s)
         else tx_last_acked_abs_seqno s < st_expected_ack (hd (tx_sent s))))"

lemma tx_outstanding_frame [simp]:
  "tx_outstanding P (s\<lparr>tx_stream := b\<rparr>) = tx_outstanding P s"
  "tx_outstanding P (s\<lparr>tx_window_size := w\<rparr>) = tx_outstanding P s"
  "tx_outstanding P (s\<lparr>tx_segments_out := q\<rparr>) = tx_outstanding P s"
  "tx_outstanding P (s\<lparr>tx_timeout := t\<rparr>) = tx_outstanding P s"
  "tx_outstanding P (s\<lparr>tx_last_time := ms\<rparr>) = tx_outstanding P s"
  "tx_outstanding P (s\<lparr>tx_resend_try_times := n\<rparr>) = tx_outstanding P s"
  by (simp_all add: tx_outstanding_def)

lemma sent_chain_dropWhile:
  assumes "sent_chain P a xs b" and "a \<le> unat l" and "unat l \<le> b"
  defines "ys \<equiv> dropWhile (\<lambda>x. st_expected_ack x \<le> l) xs"
  shows "\<exists>a' \<le> unat l. sent_chain P a' ys b \<and> (if ys = [] then a' = unat l else l < st_expected_ack (hd ys))"
  using assms(1,2) unfolding ys_def
proof (induction xs arbitrary: a)
  case Nil
  then show ?case
    using assms(3) by auto
next
  case (Cons x xs)
  show ?case
  proof (cases "st_expected_ack x \<le> l")
    case True
    then have "a + st_length x \<le> unat l"
      using Cons.prems(1) by (simp add: word_le_nat_alt)
    then show ?thesis
      using Cons.IH [of "a + st_length x"] Cons.prems(1) True
      by (simp only: dropWhile.simps sent_chain.simps if_True)
  next
    case False
    then show ?thesis
      using Cons.prems by auto
  qed
qed

lemma sent_chain_covers:
  assumes "sent_chain P a xs b" and "a \<le> j" and "j < b"
  shows "\<exists>x \<in> set xs. \<exists>k. P k (st_seg x) \<and> k \<le> j \<and> j < k + st_length x"
  using assms
proof (induction xs arbitrary: a)
  case (Cons x xs)
  then show ?case
    using Cons.IH [of "a + st_length x"] by (cases "j < a + st_length x") auto
qed simp

lemma sent_chain_mono:
  "sent_chain P a xs b \<Longrightarrow> (\<And>k seg. P k seg \<Longrightarrow> Q k seg) \<Longrightarrow> sent_chain Q a xs b"
  by (induction xs arbitrary: a) auto

lemma tx_outstanding_mono:
  "tx_outstanding P s \<Longrightarrow> (\<And>k seg. P k seg \<Longrightarrow> Q k seg) \<Longrightarrow> tx_outstanding Q s"
  unfolding tx_outstanding_def using sent_chain_mono by blast

lemma tx_outstanding_push:
  assumes out: "tx_outstanding P s" and seg: "P (unat (tx_next_abs_seqno s)) (st_seg x)" "0 < st_length x"
    and x: "unat (st_expected_ack x) = unat (tx_next_abs_seqno s) + st_length x"
    and s': "tx_last_acked_abs_seqno s' = tx_last_acked_abs_seqno s" "tx_sent s' = tx_sent s @ [x]"
      "tx_next_abs_seqno s' = st_expected_ack x"
  shows "tx_outstanding P s'"
proof -
  obtain a where a: "a \<le> unat (tx_last_acked_abs_seqno s)"
    "sent_chain P a (tx_sent s) (unat (tx_next_abs_seqno s))"
    "tx_sent s \<noteq> [] \<Longrightarrow> tx_last_acked_abs_seqno s < st_expected_ack (hd (tx_sent s))"
    and le: "unat (tx_last_acked_abs_seqno s) \<le> unat (tx_next_abs_seqno s)"
    using out by (auto simp: tx_outstanding_def split: if_splits)
  have "sent_chain P a (tx_sent s') (unat (tx_next_abs_seqno s'))"
    using a(2) seg x by (auto simp: s' sent_chain_append)
  moreover have "tx_last_acked_abs_seqno s < st_expected_ack (hd (tx_sent s'))"
    using a(3) le x seg(2) by (cases "tx_sent s") (auto simp: s' word_less_nat_alt)
  ultimately show ?thesis
    using a(1) le x by (auto simp: tx_outstanding_def s')
qed

text \<open>\<open>W\<close> is what the application has written so far.\<close>

definition tx_seg_ok :: "bytes \<Rightarrow> bool \<Rightarrow> WrappingInt32 \<Rightarrow> nat \<Rightarrow> TCPSegment \<Rightarrow> bool" where
  "tx_seg_ok W ended isn k seg \<longleftrightarrow>
     seg_of_stream W isn k seg \<and> (th_fin (ts_header seg) \<longrightarrow> ended)"

definition tx_sent_bytes :: "bytes \<Rightarrow> TCPSender \<Rightarrow> nat" where
  "tx_sent_bytes W s = length W - length (ByteStream_contents (tx_stream s))"

definition tx_inv :: "bytes \<Rightarrow> TCPSender \<Rightarrow> bool" where
  "tx_inv W s \<longleftrightarrow>
     ByteStream_wf (tx_stream s) \<and> length W + 2 < 2 ^ 64 \<and>
     length (ByteStream_contents (tx_stream s)) \<le> length W \<and>
     drop (tx_sent_bytes W s) W = ByteStream_contents (tx_stream s) \<and>
     unat (tx_next_abs_seqno s) =
       tx_sent_bytes W s + (if tx_syned s then 1 else 0) + (if tx_fined s then 1 else 0) \<and>
     (\<not> tx_syned s \<longrightarrow> tx_sent_bytes W s = 0 \<and> \<not> tx_fined s) \<and>
     (tx_fined s \<longrightarrow> ByteStream_input_ended (tx_stream s) \<and> ByteStream_contents (tx_stream s) = []) \<and>
     tx_outstanding (tx_seg_ok W (ByteStream_input_ended (tx_stream s)) (tx_isn s)) s \<and>
     (\<forall>seg \<in> set (tx_segments_out s).
        \<exists>k. tx_seg_ok W (ByteStream_input_ended (tx_stream s)) (tx_isn s) k seg)"

lemma seg_of_stream_mono:
  assumes "seg_of_stream W isn k seg" and "\<not> th_fin (ts_header seg)"
  shows "seg_of_stream (W @ V) isn k seg"
  using assms by (auto simp: seg_of_stream_def sr_push_ok_def sr_excerpt_at_def excerpt_def)

lemma tx_seg_ok_write: "tx_seg_ok W False isn k seg \<Longrightarrow> tx_seg_ok (W @ V) b isn k seg"
  by (auto simp: tx_seg_ok_def intro: seg_of_stream_mono)

lemma tx_seg_ok_end: "tx_seg_ok W b isn k seg \<Longrightarrow> tx_seg_ok W True isn k seg"
  by (auto simp: tx_seg_ok_def)

lemma tx_inv_init:
  "cap < size_max \<Longrightarrow> tx_inv [] (TCPSender_init random cap rto fixed)"
  by (simp add: tx_inv_def tx_sent_bytes_def tx_outstanding_def TCPSender_init_def ByteStream_wf_init)

lemma tx_invD:
  assumes "tx_inv W s"
  shows "ByteStream_wf (tx_stream s)" and "length W + 2 < 2 ^ 64"
    and "length (ByteStream_contents (tx_stream s)) \<le> length W"
    and "drop (tx_sent_bytes W s) W = ByteStream_contents (tx_stream s)"
    and "unat (tx_next_abs_seqno s) =
       tx_sent_bytes W s + (if tx_syned s then 1 else 0) + (if tx_fined s then 1 else 0)"
    and "\<not> tx_syned s \<Longrightarrow> tx_sent_bytes W s = 0 \<and> \<not> tx_fined s"
    and "tx_fined s \<Longrightarrow> ByteStream_input_ended (tx_stream s) \<and> ByteStream_contents (tx_stream s) = []"
    and "tx_outstanding (tx_seg_ok W (ByteStream_input_ended (tx_stream s)) (tx_isn s)) s"
    and "seg \<in> set (tx_segments_out s) \<Longrightarrow>
      \<exists>k. tx_seg_ok W (ByteStream_input_ended (tx_stream s)) (tx_isn s) k seg"
  using assms unfolding tx_inv_def by blast+

lemma tx_sent_bytes_eq:
  "tx_inv W s \<Longrightarrow> tx_sent_bytes W s + length (ByteStream_contents (tx_stream s)) = length W"
  by (simp add: tx_sent_bytes_def tx_invD(3))

lemma tx_inv_next:
  assumes "tx_inv W s"
  shows "unat (tx_next_abs_seqno s) \<le> length W + 2"
  using tx_sent_bytes_eq [OF assms] tx_invD(5) [OF assms] by (simp split: if_splits)

lemma wrap_seq_at: "wrap x isn = seq_at isn (unat x)"
  by (simp add: seq_at_def)

text \<open>The segment built by an iteration is the next piece of the stream.\<close>

lemma tx_segment_ok:
  assumes inv: "tx_inv W s" and nf: "\<not> tx_fined s"
    and rd: "ByteStream_read (unat (tx_read_size ex s)) (tx_stream s) = Inr (data, b)"
  shows "seg_of_stream W (tx_isn s) (unat (tx_next_abs_seqno s)) (tx_segment ex s data b)"
proof -
  let ?k = "tx_sent_bytes W s" and ?c = "ByteStream_contents (tx_stream s)"
  have wf: "ByteStream_wf (tx_stream s)" and c: "drop ?k W = ?c" and kW: "?k + length ?c = length W"
    and nxt: "unat (tx_next_abs_seqno s) = ?k + (if tx_syned s then 1 else 0)"
    and syn: "\<not> tx_syned s \<longrightarrow> ?k = 0"
    using tx_invD [OF inv] tx_sent_bytes_eq [OF inv] nf by simp_all
  note rd = ByteStream_read_wf [OF wf rd]
  have "sr_excerpt_at W data ?k (tx_sends_fin ex s data b)"
    using rd(5) c kW by (auto simp: sr_excerpt_at_def excerpt_def tx_sends_fin_def ByteStream_buffer_empty_iff)
  moreover have "unat (tx_next_abs_seqno s) - 1 = ?k"
    using nxt syn by simp
  ultimately show ?thesis
    using tx_inv_next [OF inv] nxt syn
    by (auto simp: seg_of_stream_def tx_segment_def sr_push_ok_def wrap_seq_at)
qed

lemma fill_window_iter_True_inv:
  assumes inv: "tx_inv W s" and it: "fill_window_iter ex s = Inr (True, s')"
  shows "tx_inv W s'"
  using it
proof (rule fill_window_iter_TrueE)
  fix data b
  let ?seg = "tx_segment ex s data b" and ?fin = "tx_sends_fin ex s data b"
  let ?n = "length_in_sequence_space ?seg" and ?k = "tx_sent_bytes W s"
  assume nf: "\<not> tx_fined s" and n: "?n \<noteq> 0"
    and rd: "ByteStream_read (unat (tx_read_size ex s)) (tx_stream s) = Inr (data, b)"
    and s': "s' = s\<lparr>tx_syned := True, tx_stream := b, tx_fined := ?fin,
       tx_segments_out := tx_segments_out s @ [?seg], tx_next_abs_seqno := tx_next_abs_seqno s + of_nat ?n,
       tx_sent := tx_sent s @ [\<lparr>st_expected_ack = tx_next_abs_seqno s + of_nat ?n, st_seg = ?seg\<rparr>]\<rparr>"
  note D = tx_invD [OF inv] and read = ByteStream_read_wf [OF tx_invD(1) [OF inv] rd]
  have len: "length data + length (ByteStream_contents b) = length (ByteStream_contents (tx_stream s))"
    using read(5) by simp
  have kW: "?k + length data + length (ByteStream_contents b) = length W"
    using tx_sent_bytes_eq [OF inv] len by simp
  then have k': "tx_sent_bytes W s' = ?k + length data"
    by (simp add: s' tx_sent_bytes_def)
  have c: "drop (?k + length data) W = ByteStream_contents b"
  proof -
    have "drop (?k + length data) W = drop (length data) (ByteStream_contents (tx_stream s))"
      using D(4) by (metis add.commute drop_drop)
    then show ?thesis
      using read(5) by simp
  qed
  have fin: "ByteStream_input_ended b \<and> ByteStream_contents b = []" if ?fin
    using that by (simp add: tx_sends_fin_def ByteStream_buffer_empty_iff)
  have nn: "?n = length data + (if tx_syned s then 0 else 1) + (if ?fin then 1 else 0)"
    by (simp add: length_in_sequence_space_def tx_segment_def)
  have "unat (tx_next_abs_seqno s) + ?n \<le> length W + 2"
    using D(5) nf kW nn by (simp split: if_splits)
  then have nxt: "unat (tx_next_abs_seqno s + of_nat ?n) = unat (tx_next_abs_seqno s) + ?n"
    using D(2) by (simp add: unat_word_ariths unat_of_nat)
  have ok: "tx_seg_ok W (ByteStream_input_ended b) (tx_isn s) (unat (tx_next_abs_seqno s)) ?seg"
    using tx_segment_ok [OF inv nf rd] fin by (simp add: tx_seg_ok_def tx_segment_def)
  have "tx_outstanding (tx_seg_ok W (ByteStream_input_ended b) (tx_isn s)) s'"
    using ok n nxt
    by (intro tx_outstanding_push [OF D(8) [folded read(4)],
          of "\<lparr>st_expected_ack = tx_next_abs_seqno s + of_nat ?n, st_seg = ?seg\<rparr>"])
      (simp_all add: s')
  then show ?thesis
    unfolding tx_inv_def k'
    using read(2,4) D(2,5,6,9) kW c fin nf nxt nn ok by (auto simp: s')
qed

lemma fill_window_iter_False_inv:
  assumes inv: "tx_inv W s" and it: "fill_window_iter ex s = Inr (False, s')"
  shows "tx_inv W s'"
  using it
proof (rule fill_window_iter_FalseE)
  fix data b
  assume "data = []" and rd: "ByteStream_read (unat (tx_read_size ex s)) (tx_stream s) = Inr (data, b)"
    and s': "s' = s\<lparr>tx_stream := b\<rparr>"
  note read = ByteStream_read_wf [OF tx_invD(1) [OF inv] rd]
  have "ByteStream_contents b = ByteStream_contents (tx_stream s)"
    using read(5) \<open>data = []\<close> by simp
  then show ?thesis
    using inv read(2,4) by (simp add: s' tx_inv_def tx_sent_bytes_def)
qed (use inv in simp)

lemma fill_window_inv:
  assumes "tx_inv W s" and "fill_window s = Inr s'"
  shows "tx_inv W s'"
proof (rule fill_window_loop_induct [OF assms(2) [unfolded fill_window_def], of "tx_inv W"])
  show "tx_inv W s"
    by fact
next
  fix ex s c s'
  assume "tx_inv W s" and "fill_window_iter ex s = Inr (c, s')"
  note inv = fill_window_iter_True_inv [OF this(1), of ex s'] fill_window_iter_False_inv [OF this(1), of ex s']
  show "tx_inv W s'"
    using inv \<open>fill_window_iter ex s = Inr (c, s')\<close> by (cases c) simp_all
qed

lemma tx_inv_frame [simp]:
  "tx_inv W (s\<lparr>tx_window_size := w\<rparr>) = tx_inv W s"
  "tx_inv W (s\<lparr>tx_timeout := t\<rparr>) = tx_inv W s"
  "tx_inv W (s\<lparr>tx_last_time := ms\<rparr>) = tx_inv W s"
  "tx_inv W (s\<lparr>tx_resend_try_times := n\<rparr>) = tx_inv W s"
  by (simp_all add: tx_inv_def tx_sent_bytes_def)

lemma tx_inv_out:
  assumes "tx_inv W s"
    and "\<And>seg. seg \<in> set q \<Longrightarrow> \<exists>k. tx_seg_ok W (ByteStream_input_ended (tx_stream s)) (tx_isn s) k seg"
  shows "tx_inv W (s\<lparr>tx_segments_out := q\<rparr>)"
  using assms by (simp add: tx_inv_def tx_sent_bytes_def)

lemma tx_inv_ack:
  assumes inv: "tx_inv W s" and l: "unat (tx_last_acked_abs_seqno s) \<le> unat l" "unat l \<le> unat (tx_next_abs_seqno s)"
  shows "tx_inv W (s\<lparr>tx_last_acked_abs_seqno := l,
    tx_sent := dropWhile (\<lambda>x. st_expected_ack x \<le> l) (tx_sent s)\<rparr>)" (is "tx_inv W ?s")
proof -
  let ?P = "tx_seg_ok W (ByteStream_input_ended (tx_stream s)) (tx_isn s)"
  obtain a where "a \<le> unat (tx_last_acked_abs_seqno s)" "sent_chain ?P a (tx_sent s) (unat (tx_next_abs_seqno s))"
    using tx_invD(8) [OF inv] by (auto simp: tx_outstanding_def)
  then have "tx_outstanding ?P ?s"
    using sent_chain_dropWhile [of ?P a "tx_sent s" "unat (tx_next_abs_seqno s)" l] l
    by (simp add: tx_outstanding_def cong: if_cong split del: if_split)
  then show ?thesis
    using inv by (simp add: tx_inv_def tx_sent_bytes_def)
qed

lemma tx_inv_cong:
  assumes "tx_inv W s" and "tx_stream s' = tx_stream s" and "tx_next_abs_seqno s' = tx_next_abs_seqno s"
    and "tx_last_acked_abs_seqno s' = tx_last_acked_abs_seqno s" and "tx_sent s' = tx_sent s"
    and "tx_segments_out s' = tx_segments_out s" and "tx_isn s' = tx_isn s"
    and "tx_syned s' = tx_syned s" and "tx_fined s' = tx_fined s"
  shows "tx_inv W s'"
  using assms(1) unfolding tx_inv_def tx_sent_bytes_def tx_outstanding_def assms(2-) .

lemma ack_received_inv:
  assumes "tx_inv W s"
  shows "tx_inv W (ack_received ackno w s)"
proof -
  let ?l = "unwrap ackno (tx_isn s) (tx_last_acked_abs_seqno s)"
  show ?thesis
  proof (cases "?l \<le> tx_last_acked_abs_seqno s \<or> ?l > tx_next_abs_seqno s")
    case True
    then show ?thesis
      using assms by (simp add: ack_received_def Let_def)
  next
    case False
    then have "tx_inv W (s\<lparr>tx_last_acked_abs_seqno := ?l,
        tx_sent := dropWhile (\<lambda>x. st_expected_ack x \<le> ?l) (tx_sent s)\<rparr>)"
      by (intro tx_inv_ack assms) (simp_all add: word_less_nat_alt word_le_nat_alt)
    then show ?thesis
      by (rule tx_inv_cong) (use False in \<open>simp_all add: ack_received_def Let_def\<close>)
  qed
qed

lemma tx_inv_head:
  assumes "tx_inv W s" and "tx_sent s \<noteq> []"
  shows "\<exists>k \<le> unat (tx_last_acked_abs_seqno s).
    tx_seg_ok W (ByteStream_input_ended (tx_stream s)) (tx_isn s) k (st_seg (hd (tx_sent s))) \<and>
    unat (tx_last_acked_abs_seqno s) < k + st_length (hd (tx_sent s))"
  using tx_invD(8) [OF assms(1)] assms(2)
  by (cases "tx_sent s") (auto simp: tx_outstanding_def word_less_nat_alt)

lemma TCPSender_tick_inv:
  assumes "tx_inv W s"
  shows "tx_inv W (TCPSender_tick ms s)"
proof -
  have "tx_inv W (s\<lparr>tx_segments_out := tx_segments_out s @ [st_seg (hd (tx_sent s))]\<rparr>)" if "tx_sent s \<noteq> []"
    using tx_inv_head [OF assms that] tx_invD(9) [OF assms] by (intro tx_inv_out [OF assms]) auto
  then show ?thesis
    using assms by (auto simp: TCPSender_tick_def Let_def elim!: tx_inv_cong)
qed

lemma send_empty_segment_inv:
  assumes "tx_inv W s"
  shows "tx_inv W (send_empty_segment s)"
proof -
  let ?seg = "TCPSegment_default\<lparr>ts_header := TCPHeader_default\<lparr>th_seqno := wrap (tx_next_abs_seqno s) (tx_isn s)\<rparr>\<rparr>"
  have "tx_seg_ok W b (tx_isn s) (unat (tx_next_abs_seqno s)) ?seg" for b
    using tx_inv_next [OF assms]
    by (simp add: tx_seg_ok_def seg_of_stream_def sr_push_ok_def TCPSegment_default_def TCPHeader_default_def wrap_seq_at)
  then show ?thesis
    unfolding send_empty_segment_def Let_def
    using tx_invD(9) [OF assms] by (intro tx_inv_out [OF assms]) auto
qed

lemma tx_inv_write:
  assumes inv: "tx_inv W s" and wr: "ByteStream_write d (tx_stream s) = (n, b)"
    and ended: "\<not> ByteStream_input_ended (tx_stream s)" and bound: "length (W @ take n d) + 2 < 2 ^ 64"
  shows "tx_inv (W @ take n d) (s\<lparr>tx_stream := b\<rparr>)"
proof -
  let ?s = "s\<lparr>tx_stream := b\<rparr>" and ?W = "W @ take n d"
  note D = tx_invD [OF inv]
  have c: "ByteStream_contents b = ByteStream_contents (tx_stream s) @ take n d" and "ByteStream_wf b"
    and e: "\<not> ByteStream_input_ended b"
    using wr ByteStream_write_contents ByteStream_write_wf [OF D(1)] ByteStream_write_flags(2) ended
    by (auto simp: ByteStream_input_ended_def)
  have k: "tx_sent_bytes ?W ?s = tx_sent_bytes W s" and nf: "\<not> tx_fined s"
    using D(3,7) ended by (auto simp: tx_sent_bytes_def c)
  have "tx_outstanding (tx_seg_ok ?W False (tx_isn s)) s"
    using D(8) ended by (auto intro: tx_outstanding_mono tx_seg_ok_write)
  moreover have "\<exists>k. tx_seg_ok ?W False (tx_isn s) k seg" if "seg \<in> set (tx_segments_out s)" for seg
    using D(9) [OF that] ended by (auto intro: tx_seg_ok_write)
  moreover have "drop (tx_sent_bytes W s) ?W = ByteStream_contents b"
    using D(4) tx_sent_bytes_eq [OF inv] by (simp add: c)
  ultimately show ?thesis
    unfolding tx_inv_def k
    using D(3,5,6) bound e nf \<open>ByteStream_wf b\<close> by (simp add: c)
qed

lemma tx_inv_end_input:
  assumes inv: "tx_inv W s"
  shows "tx_inv W (s\<lparr>tx_stream := ByteStream_end_input (tx_stream s)\<rparr>)"
proof -
  have "tx_outstanding (tx_seg_ok W True (tx_isn s)) s"
    using tx_invD(8) [OF inv] by (auto intro: tx_outstanding_mono tx_seg_ok_end)
  moreover have "\<exists>k. tx_seg_ok W True (tx_isn s) k seg" if "seg \<in> set (tx_segments_out s)" for seg
    using tx_invD(9) [OF inv that] by (auto intro: tx_seg_ok_end)
  ultimately show ?thesis
    using inv by (simp add: tx_inv_def tx_sent_bytes_def)
qed

section \<open>Runs of the sender\<close>

text \<open>
  Calls from the application, the peer and the clock. \<open>TxDrain\<close> takes the segments out of the queue,
  as the connection does. A run records what was accepted for sending and what was sent.
\<close>

datatype tx_call =
  TxWrite bytes | TxEndInput | TxFillWindow | TxAck WrappingInt32 "16 word" | TxTick "64 word" | TxEmpty | TxDrain

record tx_trace =
  tt_written :: bytes
  tt_sender :: TCPSender
  tt_emitted :: "TCPSegment list"

fun tx_step :: "tx_call \<Rightarrow> tx_trace \<Rightarrow> tx_trace res" where
  "tx_step (TxWrite d) t =
     (let (n, b) = ByteStream_write d (tx_stream (tt_sender t))
      in Inr (t\<lparr>tt_written := tt_written t @ take n d, tt_sender := (tt_sender t)\<lparr>tx_stream := b\<rparr>\<rparr>))"
| "tx_step TxEndInput t =
     Inr (t\<lparr>tt_sender := (tt_sender t)\<lparr>tx_stream := ByteStream_end_input (tx_stream (tt_sender t))\<rparr>\<rparr>)"
| "tx_step TxFillWindow t = bind_res (fill_window (tt_sender t)) (\<lambda>s. Inr (t\<lparr>tt_sender := s\<rparr>))"
| "tx_step (TxAck ackno w) t = Inr (t\<lparr>tt_sender := ack_received ackno w (tt_sender t)\<rparr>)"
| "tx_step (TxTick ms) t = Inr (t\<lparr>tt_sender := TCPSender_tick ms (tt_sender t)\<rparr>)"
| "tx_step TxEmpty t = Inr (t\<lparr>tt_sender := send_empty_segment (tt_sender t)\<rparr>)"
| "tx_step TxDrain t =
     Inr (t\<lparr>tt_emitted := tt_emitted t @ tx_segments_out (tt_sender t),
            tt_sender := (tt_sender t)\<lparr>tx_segments_out := []\<rparr>\<rparr>)"

fun tx_run :: "tx_call list \<Rightarrow> tx_trace \<Rightarrow> tx_trace res" where
  "tx_run [] t = Inr t"
| "tx_run (c # cs) t = bind_res (tx_step c t) (tx_run cs)"

definition tx_start :: "32 word \<Rightarrow> size_t \<Rightarrow> 16 word \<Rightarrow> WrappingInt32 option \<Rightarrow> tx_trace" where
  "tx_start random cap rto fixed =
     \<lparr>tt_written = [], tt_sender = TCPSender_init random cap rto fixed, tt_emitted = []\<rparr>"

text \<open>The application does not write after it ended the stream.\<close>

fun tx_calls_ok :: "bool \<Rightarrow> tx_call list \<Rightarrow> bool" where
  "tx_calls_ok ended [] = True"
| "tx_calls_ok ended (TxWrite d # cs) = (\<not> ended \<and> tx_calls_ok ended cs)"
| "tx_calls_ok ended (TxEndInput # cs) = tx_calls_ok True cs"
| "tx_calls_ok ended (c # cs) = tx_calls_ok ended cs"

fun tx_volume :: "tx_call list \<Rightarrow> nat" where
  "tx_volume [] = 0"
| "tx_volume (TxWrite d # cs) = length d + tx_volume cs"
| "tx_volume (c # cs) = tx_volume cs"

definition tx_trace_ok :: "WrappingInt32 \<Rightarrow> bool \<Rightarrow> tx_trace \<Rightarrow> bool" where
  "tx_trace_ok isn ended t \<longleftrightarrow>
     tx_inv (tt_written t) (tt_sender t) \<and> tx_isn (tt_sender t) = isn \<and>
     ByteStream_input_ended (tx_stream (tt_sender t)) = ended \<and>
     (\<forall>seg \<in> set (tt_emitted t). \<exists>k. tx_seg_ok (tt_written t) ended isn k seg)"

lemma fill_window_iter_frame:
  assumes "ByteStream_wf (tx_stream s)" and "fill_window_iter ex s = Inr (c, s')"
  shows "tx_isn s' = tx_isn s"
    and "ByteStream_input_ended (tx_stream s') = ByteStream_input_ended (tx_stream s)"
  using assms
  by (cases c; auto elim!: fill_window_iter_TrueE fill_window_iter_FalseE dest: ByteStream_read_wf(4))+

lemma fill_window_frame:
  assumes "ByteStream_wf (tx_stream s)" and "fill_window s = Inr s'"
  shows "tx_isn s' = tx_isn s \<and>
    ByteStream_input_ended (tx_stream s') = ByteStream_input_ended (tx_stream s) \<and> ByteStream_wf (tx_stream s')"
proof (rule fill_window_loop_induct [OF assms(2) [unfolded fill_window_def],
      where P = "\<lambda>s'. tx_isn s' = tx_isn s \<and>
        ByteStream_input_ended (tx_stream s') = ByteStream_input_ended (tx_stream s) \<and> ByteStream_wf (tx_stream s')"])
  fix ex t c t'
  assume t: "tx_isn t = tx_isn s \<and>
      ByteStream_input_ended (tx_stream t) = ByteStream_input_ended (tx_stream s) \<and> ByteStream_wf (tx_stream t)"
    and it: "fill_window_iter ex t = Inr (c, t')"
  show "tx_isn t' = tx_isn s \<and>
      ByteStream_input_ended (tx_stream t') = ByteStream_input_ended (tx_stream s) \<and> ByteStream_wf (tx_stream t')"
    using t fill_window_iter_frame [OF _ it] fill_window_iter_total [of t ex] it by auto
qed (use assms in simp)

lemma ack_received_frame [simp]:
  "tx_isn (ack_received ackno w s) = tx_isn s"
  "tx_stream (ack_received ackno w s) = tx_stream s"
  "tx_next_abs_seqno (ack_received ackno w s) = tx_next_abs_seqno s"
  by (simp_all add: ack_received_def Let_def)

lemma TCPSender_tick_frame [simp]:
  "tx_isn (TCPSender_tick ms s) = tx_isn s"
  "tx_stream (TCPSender_tick ms s) = tx_stream s"
  by (simp_all add: TCPSender_tick_def Let_def)

lemma send_empty_segment_frame [simp]:
  "tx_isn (send_empty_segment s) = tx_isn s"
  "tx_stream (send_empty_segment s) = tx_stream s"
  by (simp_all add: send_empty_segment_def Let_def)

lemma tx_step_ok:
  assumes ok: "tx_trace_ok isn ended t" and call: "tx_calls_ok ended [c]"
    and bound: "length (tt_written t) + tx_volume [c] + 2 < 2 ^ 64"
  shows "\<exists>t'. tx_step c t = Inr t' \<and> tx_trace_ok isn (ended \<or> c = TxEndInput) t' \<and>
    length (tt_written t') \<le> length (tt_written t) + tx_volume [c]"
proof -
  let ?s = "tt_sender t" and ?W = "tt_written t"
  have inv: "tx_inv ?W ?s" and isn: "tx_isn ?s = isn"
    and ended: "ByteStream_input_ended (tx_stream ?s) = ended"
    and em: "\<And>seg. seg \<in> set (tt_emitted t) \<Longrightarrow> \<exists>k. tx_seg_ok ?W ended isn k seg"
    using ok by (simp_all add: tx_trace_ok_def)
  show ?thesis
  proof (cases c)
    case (TxWrite d)
    obtain n b where wr: "ByteStream_write d (tx_stream ?s) = (n, b)"
      by fastforce
    then have "ByteStream_input_ended b = ended"
      using ended ByteStream_write_flags(2) by (auto simp: ByteStream_input_ended_def)
    moreover have "tx_inv (?W @ take n d) (?s\<lparr>tx_stream := b\<rparr>)"
      using TxWrite call bound ended by (intro tx_inv_write [OF inv wr]) simp_all
    ultimately show ?thesis
      using TxWrite call em isn wr by (fastforce simp: tx_trace_ok_def intro: tx_seg_ok_write)
  next
    case TxEndInput
    then show ?thesis
      using tx_inv_end_input [OF inv] em isn by (fastforce simp: tx_trace_ok_def intro: tx_seg_ok_end)
  next
    case TxFillWindow
    obtain s' where s': "fill_window ?s = Inr s'"
      using fill_window_loop_total [OF tx_invD(1) [OF inv]] unfolding fill_window_def by blast
    then show ?thesis
      using TxFillWindow fill_window_inv [OF inv s'] fill_window_frame [OF tx_invD(1) [OF inv] s'] em isn ended
      by (simp add: tx_trace_ok_def)
  next
    case (TxAck ackno w)
    then show ?thesis
      using ack_received_inv [OF inv] em isn ended by (simp add: tx_trace_ok_def)
  next
    case (TxTick ms)
    then show ?thesis
      using TCPSender_tick_inv [OF inv] em isn ended by (simp add: tx_trace_ok_def)
  next
    case TxEmpty
    then show ?thesis
      using send_empty_segment_inv [OF inv] em isn ended by (simp add: tx_trace_ok_def)
  next
    case TxDrain
    then show ?thesis
      using tx_inv_out [OF inv, of "[]"] tx_invD(9) [OF inv] em isn ended by (auto simp: tx_trace_ok_def)
  qed
qed

lemma tx_run_ok:
  assumes "tx_trace_ok isn ended t" and "tx_calls_ok ended cs"
    and "length (tt_written t) + tx_volume cs + 2 < 2 ^ 64"
  shows "\<exists>t' ended'. tx_run cs t = Inr t' \<and> tx_trace_ok isn ended' t'"
  using assms
proof (induction cs arbitrary: t ended)
  case (Cons c cs)
  have call: "tx_calls_ok ended [c]" "tx_calls_ok (ended \<or> c = TxEndInput) cs"
    and vol: "tx_volume (c # cs) = tx_volume [c] + tx_volume cs"
    using Cons.prems(2) by (cases c; simp)+
  obtain t' where t': "tx_step c t = Inr t'" "tx_trace_ok isn (ended \<or> c = TxEndInput) t'"
    "length (tt_written t') \<le> length (tt_written t) + tx_volume [c]"
    using tx_step_ok [OF Cons.prems(1) call(1)] Cons.prems(3) vol by force
  then show ?case
    using Cons.IH [OF t'(2) call(2)] Cons.prems(3) vol by simp
qed auto

lemma tx_start_ok:
  "cap < size_max \<Longrightarrow>
     tx_trace_ok (tx_isn (TCPSender_init random cap rto fixed)) False (tx_start random cap rto fixed)"
  using tx_inv_init by (simp add: tx_trace_ok_def tx_start_def)
    (simp add: TCPSender_init_def ByteStream_init_def ByteStream_input_ended_def)

lemma tx_run_start_ok:
  assumes "cap < size_max" and "tx_calls_ok False cs" and "tx_volume cs + 2 < 2 ^ 64"
  shows "\<exists>t ended. tx_run cs (tx_start random cap rto fixed) = Inr t \<and>
    tx_trace_ok (tx_isn (TCPSender_init random cap rto fixed)) ended t"
  using assms by (intro tx_run_ok [OF tx_start_ok]) (simp_all add: tx_start_def)

lemma tx_run_inv:
  assumes "cap < size_max" and "tx_calls_ok False cs" and "tx_volume cs + 2 < 2 ^ 64"
    and "tx_run cs (tx_start random cap rto fixed) = Inr t"
  shows "tx_inv (tt_written t) (tt_sender t)"
    and "tx_isn (tt_sender t) = tx_isn (TCPSender_init random cap rto fixed)"
  using tx_run_start_ok [OF assms(1-3), of random rto fixed] assms(4) by (auto simp: tx_trace_ok_def)

lemma sent_chain_gt: "sent_chain P a xs b \<Longrightarrow> x \<in> set xs \<Longrightarrow> a < unat (st_expected_ack x)"
  by (induction xs arbitrary: a) fastforce+

lemma sent_chain_filter:
  "sent_chain P a xs b \<Longrightarrow>
     dropWhile (\<lambda>x. st_expected_ack x \<le> l) xs = filter (\<lambda>x. unat l < unat (st_expected_ack x)) xs"
proof (induction xs arbitrary: a)
  case (Cons x xs)
  have gt: "unat (st_expected_ack x) < unat (st_expected_ack y)" if "y \<in> set xs" for y
    using sent_chain_gt [of P "unat (st_expected_ack x)" xs b y] Cons.prems that by simp
  show ?case
  proof (cases "st_expected_ack x \<le> l")
    case True
    then show ?thesis
      using Cons.IH [of "a + st_length x"] Cons.prems by (simp add: word_le_nat_alt)
  next
    case False
    then have "filter (\<lambda>x. unat l < unat (st_expected_ack x)) xs = xs"
      by (intro filter_True ballI) (metis gt less_trans linorder_not_less word_le_nat_alt)
    then show ?thesis
      using False by (simp add: word_le_nat_alt)
  qed
qed simp

lemma tx_inv_idle:
  assumes "tx_inv W s"
  shows "tx_sent s = [] \<longleftrightarrow> TCPSender_bytes_in_flight s = 0"
    and "unat (TCPSender_bytes_in_flight s) = unat (tx_next_abs_seqno s) - unat (tx_last_acked_abs_seqno s)"
proof -
  let ?l = "tx_last_acked_abs_seqno s" and ?n = "tx_next_abs_seqno s"
  obtain a where le: "unat ?l \<le> unat ?n" and a: "sent_chain (tx_seg_ok W (ByteStream_input_ended (tx_stream s)) (tx_isn s)) a (tx_sent s) (unat ?n)"
    and sent: "if tx_sent s = [] then a = unat ?l else ?l < st_expected_ack (hd (tx_sent s))"
    using tx_invD(8) [OF assms] by (auto simp: tx_outstanding_def)
  show F: "unat (TCPSender_bytes_in_flight s) = unat ?n - unat ?l"
    using le by (simp add: TCPSender_bytes_in_flight_def unat_sub word_le_nat_alt)
  have "unat ?l < unat ?n" if "tx_sent s = x # xs" for x xs
    using a sent sent_chain_le that by (fastforce simp: word_less_nat_alt)
  then show "tx_sent s = [] \<longleftrightarrow> TCPSender_bytes_in_flight s = 0"
    using a sent F by (cases "tx_sent s") (auto simp: word_unat_eq_iff)
qed

text \<open>A fresh sender fills the initial window of one with its SYN.\<close>

definition tx_example :: TCPSender where
  "tx_example = TCPSender_init 0 8 1000 (Some (WrappingInt32 5))"

definition tx_example_syn :: TCPSegment where
  "tx_example_syn = \<lparr>ts_header = TCPHeader_default\<lparr>th_seqno := WrappingInt32 5, th_syn := True\<rparr>,
     ts_payload = Buffer_of_string []\<rparr>"

lemma fill_window_example:
  "fill_window tx_example = Inr (tx_example\<lparr>tx_syned := True, tx_segments_out := [tx_example_syn],
     tx_next_abs_seqno := 1, tx_sent := [\<lparr>st_expected_ack = 1, st_seg = tx_example_syn\<rparr>]\<rparr>)"
  (is "_ = Inr ?s'")
proof -
  note init = tx_example_def TCPSender_init_def
  have allow: "tx_allow_size 0 tx_example = 0"
    by (simp add: tx_allow_size_def init TCPSender_bytes_in_flight_def)
  then have read: "tx_read_size 0 tx_example = 0"
    by (simp add: tx_read_size_def TCPConfig_MAX_PAYLOAD_SIZE_def)
  have rd: "ByteStream_read 0 (tx_stream tx_example) = Inr ([], tx_stream tx_example)"
    by (simp add: init ByteStream_init_def ByteStream_read_def ByteStream_peek_output_def
        ByteStream_pop_output_def add64_def size_max_def)
  have fin: "\<not> tx_sends_fin 0 tx_example [] (tx_stream tx_example)"
    by (simp add: tx_sends_fin_def init ByteStream_init_def ByteStream_input_ended_def)
  have seg: "tx_segment 0 tx_example [] (tx_stream tx_example) = tx_example_syn"
    using fin by (simp add: tx_segment_def tx_example_syn_def) (simp add: init wrap_def TCPHeader_default_def)
  have "length_in_sequence_space tx_example_syn = 1"
    by (simp add: tx_example_syn_def length_in_sequence_space_def TCPHeader_default_def)
  then have "fill_window_iter 0 tx_example = Inr (True, ?s')"
    using fill_window_iter_eq [of tx_example 0 "[]" "tx_stream tx_example"] fin
    unfolding seg read by (simp add: rd Let_def) (simp add: init)
  moreover have "fill_window_loop 0 ?s' = Inr ?s'"
    by (simp add: fill_window_loop.simps TCPSender_bytes_in_flight_def init)
  ultimately show ?thesis
    by (simp add: fill_window_def fill_window_loop.simps [of 0 tx_example])
      (simp add: init TCPSender_bytes_in_flight_def)
qed

lemma tx_run_example:
  "tx_run [TxFillWindow] (tx_start 0 8 1000 (Some (WrappingInt32 5))) = Inr
     \<lparr>tt_written = [], tt_sender = tx_example\<lparr>tx_syned := True, tx_segments_out := [tx_example_syn],
        tx_next_abs_seqno := 1, tx_sent := [\<lparr>st_expected_ack = 1, st_seg = tx_example_syn\<rparr>]\<rparr>,
      tt_emitted = []\<rparr>"
  using fill_window_example by (simp add: tx_start_def tx_example_def)

section \<open>Properties\<close>

text \<open>
  C10. Whatever the application, the peer and the clock do, as long as nothing is written after the end
  of the stream: the sender never throws, and every segment it ever sends, first or repeated, is a
  segment of the stream written: its sequence number is that of its place in the stream, its payload
  the bytes there, with SYN only at the beginning and FIN only at the end.
\<close>

theorem TCPSender_sends_stream:
  assumes "cap < size_max" and "tx_calls_ok False cs" and "tx_volume cs + 2 < 2 ^ 64"
  shows "\<exists>t. tx_run cs (tx_start random cap rto fixed) = Inr t \<and>
    (\<forall>seg \<in> set (tt_emitted t).
       \<exists>k. seg_of_stream (tt_written t) (tx_isn (TCPSender_init random cap rto fixed)) k seg)"
  using tx_run_start_ok [OF assms, of random rto fixed] by (fastforce simp: tx_trace_ok_def tx_seg_ok_def)

theorem TCPSender_sends_stream_witness:
  "\<exists>t. tx_run [TxWrite [7, 8, 9], TxFillWindow, TxEndInput, TxAck (WrappingInt32 6) 2, TxFillWindow, TxTick 1000, TxDrain]
      (tx_start 0 8 1000 (Some (WrappingInt32 5))) = Inr t \<and>
    (\<forall>seg \<in> set (tt_emitted t). \<exists>k. seg_of_stream (tt_written t) (WrappingInt32 5) k seg)"
  using TCPSender_sends_stream [of 8 "[TxWrite [7, 8, 9], TxFillWindow, TxEndInput, TxAck (WrappingInt32 6) 2, TxFillWindow, TxTick 1000, TxDrain]"
      0 1000 "Some (WrappingInt32 5)"]
  by (simp add: size_max_def) (simp add: TCPSender_init_def)

text \<open>
  C12. \<^verbatim>\<open>fill_window\<close> returns for every sender whose stream is well formed, and it stops only when the window
  is used up, counting a window of zero as one, when the FIN has been sent, or when there is nothing
  to send at all.
\<close>

theorem fill_window_returns:
  assumes "ByteStream_wf (tx_stream s)"
  shows "\<exists>s'. fill_window s = Inr s' \<and>
    (tx_fined s' \<or>
     max 1 (unat (tx_window_size s)) \<le> unat (TCPSender_bytes_in_flight s') \<or>
     tx_syned s' \<and> ByteStream_buffer_empty (tx_stream s') \<and> \<not> ByteStream_input_ended (tx_stream s'))"
proof -
  obtain s' where s': "fill_window s = Inr s'"
    using fill_window_loop_total [OF assms] unfolding fill_window_def by blast
  have w: "unat (ucast (tx_window_size s) :: 64 word) = unat (tx_window_size s)"
    using unat_lt [of "tx_window_size s"] by (simp add: unsigned_ucast_eq take_bit_eq_mod)
  show ?thesis
    using s' fill_window_loop_stops [OF assms s' [unfolded fill_window_def]] w
    by (cases "tx_window_size s = 0") (auto simp: tx_quiet_def word_neq_0_conv word_less_nat_alt)
qed

theorem fill_window_returns_witness:
  "ByteStream_wf (tx_stream (TCPSender_init 0 8 1000 None)) \<and>
   (\<exists>s'. fill_window (TCPSender_init 0 8 1000 None) = Inr s' \<and>
    (tx_fined s' \<or> 1 \<le> unat (TCPSender_bytes_in_flight s') \<or>
     tx_syned s' \<and> ByteStream_buffer_empty (tx_stream s') \<and> \<not> ByteStream_input_ended (tx_stream s')))"
proof -
  have "ByteStream_wf (tx_stream (TCPSender_init 0 8 1000 None))"
    by (simp add: TCPSender_init_def ByteStream_wf_init size_max_def)
  then show ?thesis
    using fill_window_returns [of "TCPSender_init 0 8 1000 None"] by (simp add: TCPSender_init_def)
qed

text \<open>
  C13. What \<^verbatim>\<open>fill_window\<close> adds respects the peer's window and the maximal payload: the sequence numbers in
  flight do not exceed the window, counting a window of zero as one, unless they already did, and no
  segment added carries more than 1000 bytes.
\<close>

theorem fill_window_bounds:
  assumes "fill_window s = Inr s'"
  shows "unat (TCPSender_bytes_in_flight s') \<le>
      max (unat (TCPSender_bytes_in_flight s)) (max 1 (unat (tx_window_size s)))
    \<and> (\<exists>q. tx_segments_out s' = tx_segments_out s @ q \<and>
      (\<forall>seg \<in> set q. length (Buffer_str (ts_payload seg)) \<le> 1000))"
proof -
  let ?m = "max (unat (TCPSender_bytes_in_flight s)) (max 1 (unat (tx_window_size s)))"
  let ?P = "\<lambda>s'. tx_window_size s' = tx_window_size s \<and> unat (TCPSender_bytes_in_flight s') \<le> ?m \<and>
    (\<exists>q. tx_segments_out s' = tx_segments_out s @ q \<and>
      (\<forall>seg \<in> set q. length (Buffer_str (ts_payload seg)) \<le> 1000))"
  have "?P s'"
  proof (rule fill_window_loop_induct [OF assms [unfolded fill_window_def], where P = ?P])
    fix ex t c t'
    assume t: "?P t" and ex: "ex = (if tx_window_size s = 0 then 1 else 0) \<or> ex = 0"
      and room: "TCPSender_bytes_in_flight t < ucast (tx_window_size t) + ex"
      and it: "fill_window_iter ex t = Inr (c, t')"
    have "unat (ucast (tx_window_size s) :: 64 word) = unat (tx_window_size s)"
      using unat_lt [of "tx_window_size s"] by (simp add: unsigned_ucast_eq take_bit_eq_mod)
    then have "unat (ucast (tx_window_size t) + ex :: 64 word) \<le> max 1 (unat (tx_window_size s))"
      using t ex by (auto split: if_splits)
    then show "?P t'"
      using t fill_window_iter_bounds [OF it room] by fastforce
  qed simp
  then show ?thesis
    by blast
qed

theorem fill_window_bounds_witness:
  "\<exists>s'. fill_window tx_example = Inr s' \<and> unat (TCPSender_bytes_in_flight s') \<le> 1"
  using fill_window_bounds [OF fill_window_example] fill_window_example
  by (simp add: tx_example_def TCPSender_init_def TCPSender_bytes_in_flight_def)

text \<open>
  C14. An acknowledgment of data in flight is taken exactly: it becomes the last one acknowledged, the
  outstanding segments are those not fully covered by it, and the retransmission timer and its
  counter start afresh. Any other acknowledgment less than \<open>2 ^ 31\<close> away, old or for data never
  sent, only updates the window.
\<close>

theorem ack_received_effect:
  assumes "cap < size_max" and "tx_calls_ok False cs" and "tx_volume cs + 2 < 2 ^ 64"
    and "tx_run cs (tx_start random cap rto fixed) = Inr t"
    and "\<bar>int a - int (unat (tx_last_acked_abs_seqno (tt_sender t)))\<bar> < 2 ^ 31" and "a < 2 ^ 64"
  shows "let s = tt_sender t; s' = ack_received (seq_at (tx_isn s) a) w s
    in if unat (tx_last_acked_abs_seqno s) < a \<and> a \<le> unat (tx_next_abs_seqno s)
       then s' = s\<lparr>tx_window_size := w, tx_last_acked_abs_seqno := of_nat a,
              tx_sent := filter (\<lambda>x. a < unat (st_expected_ack x)) (tx_sent s),
              tx_timeout := tx_initial_retransmission_timeout s, tx_last_time := 0, tx_resend_try_times := 0\<rparr> \<and>
            unat (TCPSender_bytes_in_flight s') = unat (tx_next_abs_seqno s) - a
       else s' = s\<lparr>tx_window_size := w\<rparr>"
proof -
  let ?s = "tt_sender t"
  have inv: "tx_inv (tt_written t) ?s"
    by (rule tx_run_inv [OF assms(1-4)])
  have l: "unwrap (seq_at (tx_isn ?s) a) (tx_isn ?s) (tx_last_acked_abs_seqno ?s) = of_nat a"
    using unwrap_seq_at [of a "unat (tx_last_acked_abs_seqno ?s)"] assms(5,6) unat_lt [of "tx_last_acked_abs_seqno ?s"]
    by simp
  have a: "unat (of_nat a :: 64 word) = a"
    using assms(6) by (simp add: unat_of_nat)
  obtain a0 where chain: "sent_chain (tx_seg_ok (tt_written t) (ByteStream_input_ended (tx_stream ?s)) (tx_isn ?s))
      a0 (tx_sent ?s) (unat (tx_next_abs_seqno ?s))"
    using tx_invD(8) [OF inv] by (auto simp: tx_outstanding_def)
  have "tx_sent ?s \<noteq> []" if "unat (tx_last_acked_abs_seqno ?s) < unat (tx_next_abs_seqno ?s)"
    using tx_inv_idle [OF inv] that by (auto simp: word_unat_eq_iff)
  then show ?thesis
    using sent_chain_filter [OF chain, of "of_nat a"] a unat_sub [of "of_nat a" "tx_next_abs_seqno ?s"]
    by (simp add: Let_def ack_received_def l TCPSender_bytes_in_flight_def word_le_nat_alt word_less_nat_alt)
qed

theorem ack_received_effect_witness:
  "\<exists>t. tx_run [TxFillWindow] (tx_start 0 8 1000 (Some (WrappingInt32 5))) = Inr t \<and>
    tx_sent (ack_received (seq_at (WrappingInt32 5) 1) 9 (tt_sender t)) = []"
  using ack_received_effect [OF _ _ _ tx_run_example, of 1 9] tx_run_example
  by (simp add: Let_def tx_example_def TCPSender_init_def size_max_def)

text \<open>
  C15. When the clock has run for the timeout and something is in flight, \<^verbatim>\<open>tick\<close> sends exactly one segment,
  a segment of the stream that contains the first sequence number not acknowledged, restarts the
  clock and, unless the window is zero, doubles the timeout and counts the attempt. Otherwise it
  sends nothing and leaves timeout and counter.
\<close>

theorem TCPSender_tick_effect:
  assumes "cap < size_max" and "tx_calls_ok False cs" and "tx_volume cs + 2 < 2 ^ 64"
    and "tx_run cs (tx_start random cap rto fixed) = Inr t"
  shows "let s = tt_sender t; s' = TCPSender_tick ms s
    in if TCPSender_bytes_in_flight s \<noteq> 0 \<and> ucast (tx_timeout s) \<le> tx_last_time s + ms
       then \<exists>k seg. seg_of_stream (tt_written t) (tx_isn s) k seg \<and>
              k \<le> unat (tx_last_acked_abs_seqno s) \<and>
              unat (tx_last_acked_abs_seqno s) < k + length_in_sequence_space seg \<and>
              s' = s\<lparr>tx_segments_out := tx_segments_out s @ [seg], tx_last_time := 0,
                tx_timeout := (if tx_window_size s = 0 then 1 else 2) * tx_timeout s,
                tx_resend_try_times := tx_resend_try_times s + (if tx_window_size s = 0 then 0 else 1)\<rparr>
       else s' = s\<lparr>tx_last_time := (if TCPSender_bytes_in_flight s = 0 then 0 else tx_last_time s + ms)\<rparr>"
proof -
  let ?s = "tt_sender t"
  have inv: "tx_inv (tt_written t) ?s"
    by (rule tx_run_inv [OF assms])
  have idle: "TCPSender_bytes_in_flight ?s = 0 \<longleftrightarrow> tx_sent ?s = []"
    using tx_inv_idle(1) [OF inv] by simp
  show ?thesis
  proof (cases "tx_sent ?s = []")
    case True
    then show ?thesis
      by (simp add: TCPSender_tick_def Let_def idle)
  next
    case False
    then obtain k where "k \<le> unat (tx_last_acked_abs_seqno ?s)"
      "seg_of_stream (tt_written t) (tx_isn ?s) k (st_seg (hd (tx_sent ?s)))"
      "unat (tx_last_acked_abs_seqno ?s) < k + st_length (hd (tx_sent ?s))"
      using tx_inv_head [OF inv False] by (auto simp: tx_seg_ok_def)
    then show ?thesis
      using False unfolding Let_def idle TCPSender_tick_def by (auto intro!: exI [of _ k])
  qed
qed

theorem TCPSender_tick_effect_witness:
  "\<exists>t. tx_run [TxFillWindow] (tx_start 0 8 1000 (Some (WrappingInt32 5))) = Inr t \<and>
    (\<exists>k seg. seg_of_stream (tt_written t) (WrappingInt32 5) k seg \<and>
       tx_segments_out (TCPSender_tick 1000 (tt_sender t)) = tx_segments_out (tt_sender t) @ [seg] \<and>
       tx_timeout (TCPSender_tick 1000 (tt_sender t)) = 2000)"
  using TCPSender_tick_effect [OF _ _ _ tx_run_example, of 1000] tx_run_example
  by (auto simp: Let_def tx_example_def TCPSender_init_def TCPSender_bytes_in_flight_def size_max_def)

end
