(* ===== verification/TCP_State.thy ===== *)
theory TCP_State
  imports TCP_Sender
begin

text \<open>
  \<^verbatim>\<open>tcp_helpers/tcp_state.hh\<close> and \<^verbatim>\<open>tcp_state.cc\<close>: the summary of a connection's state and the official states
  of the TCP specification in terms of it. The summaries tell the official states apart.
\<close>

section \<open>Summaries\<close>

record TCPState =
  ss_sender :: string
  ss_receiver :: string
  ss_active :: bool
  ss_linger_after_streams_finish :: bool

datatype State =
    LISTEN
  | SYN_RCVD
  | SYN_SENT
  | ESTABLISHED
  | CLOSE_WAIT
  | LAST_ACK
  | FIN_WAIT_1
  | FIN_WAIT_2
  | CLOSING
  | TIME_WAIT
  | CLOSED
  | RESET

definition TCPReceiverStateSummary_ERROR :: string where
  "TCPReceiverStateSummary_ERROR = ''error (connection was reset)''"

definition TCPReceiverStateSummary_LISTEN :: string where
  "TCPReceiverStateSummary_LISTEN = ''waiting for SYN: ackno is empty''"

definition TCPReceiverStateSummary_SYN_RECV :: string where
  "TCPReceiverStateSummary_SYN_RECV = ''SYN received (ackno exists), and input to stream hasn't ended''"

definition TCPReceiverStateSummary_FIN_RECV :: string where
  "TCPReceiverStateSummary_FIN_RECV = ''input to stream has ended''"

definition TCPSenderStateSummary_ERROR :: string where
  "TCPSenderStateSummary_ERROR = ''error (connection was reset)''"

definition TCPSenderStateSummary_CLOSED :: string where
  "TCPSenderStateSummary_CLOSED = ''waiting for stream to begin (no SYN sent)''"

definition TCPSenderStateSummary_SYN_SENT :: string where
  "TCPSenderStateSummary_SYN_SENT = ''stream started but nothing acknowledged''"

definition TCPSenderStateSummary_SYN_ACKED :: string where
  "TCPSenderStateSummary_SYN_ACKED = ''stream ongoing''"

definition TCPSenderStateSummary_FIN_SENT :: string where
  "TCPSenderStateSummary_FIN_SENT = ''stream finished (FIN sent) but not fully acknowledged''"

definition TCPSenderStateSummary_FIN_ACKED :: string where
  "TCPSenderStateSummary_FIN_ACKED = ''stream finished and fully acknowledged''"

lemmas summary_defs =
  TCPReceiverStateSummary_ERROR_def TCPReceiverStateSummary_LISTEN_def
  TCPReceiverStateSummary_SYN_RECV_def TCPReceiverStateSummary_FIN_RECV_def
  TCPSenderStateSummary_ERROR_def TCPSenderStateSummary_CLOSED_def
  TCPSenderStateSummary_SYN_SENT_def TCPSenderStateSummary_SYN_ACKED_def
  TCPSenderStateSummary_FIN_SENT_def TCPSenderStateSummary_FIN_ACKED_def

definition TCPState_eq :: "TCPState \<Rightarrow> TCPState \<Rightarrow> bool" where
  "TCPState_eq s other \<longleftrightarrow>
     ss_active s = ss_active other \<and>
     ss_linger_after_streams_finish s = ss_linger_after_streams_finish other \<and>
     ss_sender s = ss_sender other \<and> ss_receiver s = ss_receiver other"

definition TCPState_ne :: "TCPState \<Rightarrow> TCPState \<Rightarrow> bool" where
  "TCPState_ne s other \<longleftrightarrow> \<not> TCPState_eq s other"

definition bool_to_string :: "bool \<Rightarrow> string" where
  "bool_to_string b = (if b then ''1'' else ''0'')"

definition TCPState_name :: "TCPState \<Rightarrow> string" where
  "TCPState_name s =
     ''sender=`'' @ ss_sender s @ ''`, receiver=`'' @ ss_receiver s @ ''`, active='' @
     bool_to_string (ss_active s) @ '', linger_after_streams_finish='' @
     bool_to_string (ss_linger_after_streams_finish s)"

text \<open>The members start empty and true; each official state overwrites some of them.\<close>

fun TCPState_of_State :: "State \<Rightarrow> TCPState" where
  "TCPState_of_State LISTEN =
     \<lparr>ss_sender = TCPSenderStateSummary_CLOSED, ss_receiver = TCPReceiverStateSummary_LISTEN,
      ss_active = True, ss_linger_after_streams_finish = True\<rparr>"
| "TCPState_of_State SYN_RCVD =
     \<lparr>ss_sender = TCPSenderStateSummary_SYN_SENT, ss_receiver = TCPReceiverStateSummary_SYN_RECV,
      ss_active = True, ss_linger_after_streams_finish = True\<rparr>"
| "TCPState_of_State SYN_SENT =
     \<lparr>ss_sender = TCPSenderStateSummary_SYN_SENT, ss_receiver = TCPReceiverStateSummary_LISTEN,
      ss_active = True, ss_linger_after_streams_finish = True\<rparr>"
| "TCPState_of_State ESTABLISHED =
     \<lparr>ss_sender = TCPSenderStateSummary_SYN_ACKED, ss_receiver = TCPReceiverStateSummary_SYN_RECV,
      ss_active = True, ss_linger_after_streams_finish = True\<rparr>"
| "TCPState_of_State CLOSE_WAIT =
     \<lparr>ss_sender = TCPSenderStateSummary_SYN_ACKED, ss_receiver = TCPReceiverStateSummary_FIN_RECV,
      ss_active = True, ss_linger_after_streams_finish = False\<rparr>"
| "TCPState_of_State LAST_ACK =
     \<lparr>ss_sender = TCPSenderStateSummary_FIN_SENT, ss_receiver = TCPReceiverStateSummary_FIN_RECV,
      ss_active = True, ss_linger_after_streams_finish = False\<rparr>"
| "TCPState_of_State CLOSING =
     \<lparr>ss_sender = TCPSenderStateSummary_FIN_SENT, ss_receiver = TCPReceiverStateSummary_FIN_RECV,
      ss_active = True, ss_linger_after_streams_finish = True\<rparr>"
| "TCPState_of_State FIN_WAIT_1 =
     \<lparr>ss_sender = TCPSenderStateSummary_FIN_SENT, ss_receiver = TCPReceiverStateSummary_SYN_RECV,
      ss_active = True, ss_linger_after_streams_finish = True\<rparr>"
| "TCPState_of_State FIN_WAIT_2 =
     \<lparr>ss_sender = TCPSenderStateSummary_FIN_ACKED, ss_receiver = TCPReceiverStateSummary_SYN_RECV,
      ss_active = True, ss_linger_after_streams_finish = True\<rparr>"
| "TCPState_of_State TIME_WAIT =
     \<lparr>ss_sender = TCPSenderStateSummary_FIN_ACKED, ss_receiver = TCPReceiverStateSummary_FIN_RECV,
      ss_active = True, ss_linger_after_streams_finish = True\<rparr>"
| "TCPState_of_State RESET =
     \<lparr>ss_sender = TCPSenderStateSummary_ERROR, ss_receiver = TCPReceiverStateSummary_ERROR,
      ss_active = False, ss_linger_after_streams_finish = False\<rparr>"
| "TCPState_of_State CLOSED =
     \<lparr>ss_sender = TCPSenderStateSummary_FIN_ACKED, ss_receiver = TCPReceiverStateSummary_FIN_RECV,
      ss_active = False, ss_linger_after_streams_finish = False\<rparr>"

definition state_summary_receiver :: "TCPReceiver \<Rightarrow> string res" where
  "state_summary_receiver receiver =
     (if bs_error (TCPReceiver_stream_out receiver) then Inr TCPReceiverStateSummary_ERROR
      else
        bind_res (TCPReceiver_ackno receiver) (\<lambda>ackno.
          if ackno = None then Inr TCPReceiverStateSummary_LISTEN
          else if ByteStream_input_ended (TCPReceiver_stream_out receiver)
          then Inr TCPReceiverStateSummary_FIN_RECV
          else Inr TCPReceiverStateSummary_SYN_RECV))"

definition state_summary_sender :: "TCPSender \<Rightarrow> string" where
  "state_summary_sender sender =
     (if bs_error (tx_stream sender) then TCPSenderStateSummary_ERROR
      else if tx_next_abs_seqno sender = 0 then TCPSenderStateSummary_CLOSED
      else if tx_next_abs_seqno sender = TCPSender_bytes_in_flight sender then TCPSenderStateSummary_SYN_SENT
      else if \<not> ByteStream_eof (tx_stream sender) then TCPSenderStateSummary_SYN_ACKED
      else if unat (tx_next_abs_seqno sender) < add64 (ByteStream_bytes_written (tx_stream sender)) 2
      then TCPSenderStateSummary_SYN_ACKED
      else if TCPSender_bytes_in_flight sender \<noteq> 0 then TCPSenderStateSummary_FIN_SENT
      else TCPSenderStateSummary_FIN_ACKED)"

definition TCPState_of :: "TCPSender \<Rightarrow> TCPReceiver \<Rightarrow> bool \<Rightarrow> bool \<Rightarrow> TCPState res" where
  "TCPState_of sender receiver active linger =
     bind_res (state_summary_receiver receiver) (\<lambda>rcv.
       Inr \<lparr>ss_sender = state_summary_sender sender, ss_receiver = rcv, ss_active = active,
            ss_linger_after_streams_finish = (if active then linger else False)\<rparr>)"

section \<open>Properties\<close>

text \<open>The comparison of summaries is equality, and the summaries of the official states are pairwise
  different: a test against one of them cannot be satisfied by a connection in another.\<close>

lemma TCPState_official_distinct:
  "TCPState_eq (TCPState_of_State a) (TCPState_of_State b) \<longleftrightarrow> a = b"
  by (cases a; cases b; simp add: TCPState_eq_def summary_defs)

end
