(* ===== verification/TCP_Connection.thy ===== *)
theory TCP_Connection
  imports TCP_State
begin

text \<open>
  \<^verbatim>\<open>libsponge/tcp_connection.hh\<close> and \<^verbatim>\<open>tcp_connection.cc\<close>: a sender and a receiver joined to an endpoint, which
  stamps outgoing segments with acknowledgment and window, reacts to resets and decides when the
  connection is over. \<open>end_key\<close> is the value the reassembler reads through its end iterator.

  Whatever happens to an endpoint, as long as what arrives are segments of its peer's stream: nothing
  throws, what it sends are segments of what its application wrote, and what its application reads is
  a prefix of the peer's stream.
\<close>

section \<open>State and operations\<close>

record TCPConnection =
  cn_cfg :: TCPConfig
  cn_receiver :: TCPReceiver
  cn_sender :: TCPSender
  cn_segments_out :: "TCPSegment list"
  cn_linger_after_streams_finish :: bool
  cn_active :: bool
  cn_rst :: bool
  cn_last_seg_timer :: "64 word"

definition TCPConnection_init :: "32 word \<Rightarrow> TCPConfig \<Rightarrow> TCPConnection" where
  "TCPConnection_init random cfg =
     \<lparr>cn_cfg = cfg, cn_receiver = TCPReceiver_init (cfg_recv_capacity cfg),
      cn_sender = TCPSender_init random (cfg_send_capacity cfg) (cfg_rt_timeout cfg) (cfg_fixed_isn cfg),
      cn_segments_out = [], cn_linger_after_streams_finish = True, cn_active = True, cn_rst = False,
      cn_last_seg_timer = 0\<rparr>"

definition TCPConnection_remaining_outbound_capacity :: "TCPConnection \<Rightarrow> size_t" where
  "TCPConnection_remaining_outbound_capacity c = ByteStream_remaining_capacity (tx_stream (cn_sender c))"

definition TCPConnection_bytes_in_flight :: "TCPConnection \<Rightarrow> 64 word" where
  "TCPConnection_bytes_in_flight c = TCPSender_bytes_in_flight (cn_sender c)"

definition TCPConnection_unassembled_bytes :: "TCPConnection \<Rightarrow> size_t" where
  "TCPConnection_unassembled_bytes c = TCPReceiver_unassembled_bytes (cn_receiver c)"

definition TCPConnection_time_since_last_segment_received :: "TCPConnection \<Rightarrow> 64 word" where
  "TCPConnection_time_since_last_segment_received c = cn_last_seg_timer c"

definition TCPConnection_active :: "TCPConnection \<Rightarrow> bool" where
  "TCPConnection_active c = cn_active c"

definition TCPConnection_inbound_stream :: "TCPConnection \<Rightarrow> ByteStream" where
  "TCPConnection_inbound_stream c = TCPReceiver_stream_out (cn_receiver c)"

definition TCPConnection_state :: "TCPConnection \<Rightarrow> TCPState res" where
  "TCPConnection_state c =
     TCPState_of (cn_sender c) (cn_receiver c) (TCPConnection_active c) (cn_linger_after_streams_finish c)"

text \<open>
  The loop that moves the sender's queue to the connection's, one segment at a time, with the reset
  flag or the acknowledgment and the window, which is clamped to 16 bits.
\<close>

definition cn_stamp :: "TCPConnection \<Rightarrow> TCPSegment \<Rightarrow> TCPSegment res" where
  "cn_stamp c seg =
     (let hder = ts_header seg
      in if cn_rst c then Inr (seg\<lparr>ts_header := hder\<lparr>th_rst := True\<rparr>\<rparr>)
         else
           bind_res (TCPReceiver_ackno (cn_receiver c)) (\<lambda>ackno.
             let hder = (case ackno of Some a \<Rightarrow> hder\<lparr>th_ack := True, th_ackno := a\<rparr> | None \<Rightarrow> hder);
                 window = TCPReceiver_window_size (cn_receiver c);
                 win = (if window \<le> 65535 then window else 65535)
             in Inr (seg\<lparr>ts_header := hder\<lparr>th_win := of_nat win\<rparr>\<rparr>)))"

fun pull_push_loop :: "TCPSegment list \<Rightarrow> TCPConnection \<Rightarrow> TCPConnection res" where
  "pull_push_loop [] c = Inr c"
| "pull_push_loop (seg # sender_queue) c =
     bind_res (cn_stamp c seg) (\<lambda>seg'.
       pull_push_loop sender_queue
         (c\<lparr>cn_segments_out := cn_segments_out c @ [seg'],
            cn_sender := (cn_sender c)\<lparr>tx_segments_out := sender_queue\<rparr>\<rparr>))"

definition pull_push_segments :: "TCPConnection \<Rightarrow> TCPConnection res" where
  "pull_push_segments c = pull_push_loop (tx_segments_out (cn_sender c)) c"

definition cn_fill_window :: "TCPConnection \<Rightarrow> TCPConnection res" where
  "cn_fill_window c = bind_res (fill_window (cn_sender c)) (\<lambda>s. Inr (c\<lparr>cn_sender := s\<rparr>))"

definition cn_set_errors :: "TCPConnection \<Rightarrow> TCPConnection" where
  "cn_set_errors c =
     c\<lparr>cn_receiver := TCPReceiver_set_stream_out
          (ByteStream_set_error (TCPReceiver_stream_out (cn_receiver c))) (cn_receiver c),
       cn_sender := (cn_sender c)\<lparr>tx_stream := ByteStream_set_error (tx_stream (cn_sender c))\<rparr>\<rparr>"

definition fully_dead :: "size_t \<Rightarrow> TCPConnection \<Rightarrow> TCPConnection res" where
  "fully_dead error_type c =
     bind_res
       (if error_type = 0 then cn_fill_window c
        else
          let c1 = c\<lparr>cn_rst := True\<rparr>;
              c2 = (if error_type > 1 \<and> tx_segments_out (cn_sender c1) = []
                    then c1\<lparr>cn_sender := send_empty_segment (cn_sender c1)\<rparr> else c1)
          in Inr (cn_set_errors c2))
       (\<lambda>c3. bind_res (pull_push_segments c3) (\<lambda>c4. Inr (c4\<lparr>cn_active := False\<rparr>)))"

definition judge_do :: "TCPConnection \<Rightarrow> TCPConnection res" where
  "judge_do c =
     (if \<not> cn_active c then Inr c
      else if cn_rst c then fully_dead 1 c
      else if TCPSender_consecutive_retransmissions (cn_sender c) > TCPConfig_MAX_RETX_ATTEMPTS
      then fully_dead 2 c
      else if cn_linger_after_streams_finish c \<and> TCPSender_full_fined (cn_sender c) \<and>
              TCPReceiver_full_fined (cn_receiver c) \<and>
              cn_last_seg_timer c \<ge> 10 * ucast (cfg_rt_timeout (cn_cfg c))
      then fully_dead 0 (c\<lparr>cn_linger_after_streams_finish := False\<rparr>)
      else if cn_linger_after_streams_finish c = False \<and> TCPSender_full_fined (cn_sender c)
      then fully_dead 0 c
      else pull_push_segments c)"

definition TCPConnection_connect :: "TCPConnection \<Rightarrow> TCPConnection res" where
  "TCPConnection_connect c = bind_res (cn_fill_window c) judge_do"

text \<open>The reaction to an acknowledgment, and whether an empty segment answers the one received.\<close>

definition cn_take_ack :: "TCPSegment \<Rightarrow> TCPConnection \<Rightarrow> TCPConnection res" where
  "cn_take_ack seg c =
     (let c1 = (if th_ack (ts_header seg)
                then c\<lparr>cn_sender := ack_received (th_ackno (ts_header seg)) (th_win (ts_header seg)) (cn_sender c)\<rparr>
                else c)
      in if TCPSender_syned (cn_sender c1) then cn_fill_window c1 else Inr c1)"

definition cn_passive_close :: "TCPConnection \<Rightarrow> TCPConnection" where
  "cn_passive_close c =
     (if TCPReceiver_full_fined (cn_receiver c) \<and> \<not> TCPSender_fined (cn_sender c)
      then c\<lparr>cn_linger_after_streams_finish := False\<rparr> else c)"

definition cn_send_empty :: "TCPSegment \<Rightarrow> TCPConnection \<Rightarrow> bool res" where
  "cn_send_empty seg c =
     (let send_empty = (tx_segments_out (cn_sender c) = [] \<and> length_in_sequence_space seg \<noteq> 0)
      in if length_in_sequence_space seg = 0
         then bind_res (TCPReceiver_ackno (cn_receiver c)) (\<lambda>ackno.
           case ackno of
             Some a \<Rightarrow> Inr (if th_seqno (ts_header seg) = WrappingInt32_minus a 1 then True else send_empty)
           | None \<Rightarrow> Inr send_empty)
         else Inr send_empty)"

definition TCPConnection_segment_received ::
  "(sr_map \<Rightarrow> size_t) \<Rightarrow> TCPSegment \<Rightarrow> TCPConnection \<Rightarrow> TCPConnection res" where
  "TCPConnection_segment_received end_key seg c =
     (let c1 = c\<lparr>cn_last_seg_timer := 0\<rparr>
      in if th_rst (ts_header seg) then judge_do (c1\<lparr>cn_rst := True\<rparr>)
         else
           bind_res (TCPReceiver_segment_received end_key seg (cn_receiver c1)) (\<lambda>r.
             let c2 = c1\<lparr>cn_receiver := r\<rparr>
             in if th_syn (ts_header seg) \<and> \<not> TCPSender_syned (cn_sender c2) then TCPConnection_connect c2
                else
                  bind_res (cn_take_ack seg c2) (\<lambda>c3.
                    let c4 = cn_passive_close c3
                    in bind_res (cn_send_empty seg c4) (\<lambda>send_empty.
                      judge_do
                        (if send_empty then c4\<lparr>cn_sender := send_empty_segment (cn_sender c4)\<rparr> else c4)))))"

definition TCPConnection_write :: "bytes \<Rightarrow> TCPConnection \<Rightarrow> (size_t \<times> TCPConnection) res" where
  "TCPConnection_write data c =
     (let (written, b) = ByteStream_write data (tx_stream (cn_sender c));
          c1 = c\<lparr>cn_sender := (cn_sender c)\<lparr>tx_stream := b\<rparr>\<rparr>
      in bind_res (if TCPSender_syned (cn_sender c1) then cn_fill_window c1 else Inr c1)
           (\<lambda>c2. bind_res (judge_do c2) (\<lambda>c3. Inr (written, c3))))"

definition TCPConnection_tick :: "64 word \<Rightarrow> TCPConnection \<Rightarrow> TCPConnection res" where
  "TCPConnection_tick ms c =
     (let c1 = c\<lparr>cn_last_seg_timer := cn_last_seg_timer c + ms, cn_sender := TCPSender_tick ms (cn_sender c)\<rparr>
      in bind_res (if TCPSender_syned (cn_sender c1) then cn_fill_window c1 else Inr c1) judge_do)"

definition TCPConnection_end_input_stream :: "TCPConnection \<Rightarrow> TCPConnection res" where
  "TCPConnection_end_input_stream c =
     (let c1 = c\<lparr>cn_sender := (cn_sender c)\<lparr>tx_stream := ByteStream_end_input (tx_stream (cn_sender c))\<rparr>\<rparr>
      in bind_res (cn_fill_window c1) judge_do)"

text \<open>An exception in the destructor is caught and reported; the object is gone in any case.\<close>

definition TCPConnection_destroy :: "TCPConnection \<Rightarrow> TCPConnection" where
  "TCPConnection_destroy c =
     (if cn_active c then case fully_dead 2 c of Inr c' \<Rightarrow> c' | Inl _ \<Rightarrow> c else c)"

section \<open>Frame facts\<close>

text \<open>A stream that grows keeps the receiver's invariant as long as its end has not been seen.\<close>

lemma excerpt_mono: "i + n \<le> length S \<Longrightarrow> excerpt (S @ V) i n = excerpt S i n"
  by (simp add: excerpt_def)

lemma sr_inv_grow:
  assumes "sr_inv S r" and "\<not> sr_eof r" and "2 * length (S @ V) + sr_capacity r < size_max"
  shows "sr_inv (S @ V) r"
proof -
  have out: "sr_out_ok S r" and map: "sr_map_in S r (sr_unassembled r)"
    and bytes: "sr_unassembled_bytes r = sr_bytes (sr_unassembled r)"
    using assms(1) by (simp_all add: sr_inv_def sr_inv0_def)
  have "sr_out_ok (S @ V) r"
    using out assms(2,3) unfolding sr_out_ok_def by (auto simp: excerpt_mono)
  moreover have "sr_map_in (S @ V) r (sr_unassembled r)"
    using map by (fastforce simp: sr_map_in_def sr_map_ok_def sr_entry_ok_def excerpt_mono)
  ultimately show ?thesis
    using bytes assms(2) by (simp add: sr_inv_def sr_inv0_def)
qed

lemma rcv_inv_grow:
  assumes "rcv_inv S isn r" and "\<not> sr_eof (rc_reassembler r)"
    and "2 * length (S @ V) + sr_capacity (rc_reassembler r) < size_max"
  shows "rcv_inv (S @ V) isn r"
  using assms sr_inv_grow [of S "rc_reassembler r" V] by (simp add: rcv_inv_def Let_def)

lemma rcv_inv_set_error:
  assumes "rcv_inv S isn r"
  shows "rcv_inv S isn (TCPReceiver_set_stream_out (ByteStream_set_error (TCPReceiver_stream_out r)) r)"
proof -
  let ?b = "sr_output (rc_reassembler r)"
  have [simp]: "bs_write_count (ByteStream_set_error ?b) = bs_write_count ?b"
    by (simp add: ByteStream_set_error_def)
  let ?a = "(rc_reassembler r)\<lparr>sr_output := ByteStream_set_error ?b\<rparr>"
  have inv: "sr_inv S (rc_reassembler r)"
    using assms by (simp add: rcv_inv_def Let_def)
  have "sr_out_ok S ?a"
    using sr_inv_out_ok [OF inv] by (simp add: sr_out_ok_def)
  moreover have "sr_map_in S ?a (sr_unassembled ?a)"
    using inv by (simp add: sr_inv_def sr_inv0_def sr_map_in_def sr_window_end_def)
  ultimately have "sr_inv S ?a"
    using inv unfolding sr_inv_def sr_inv0_def by simp
  then show ?thesis
    using assms by (simp add: rcv_inv_def Let_def TCPReceiver_set_stream_out_def TCPReceiver_stream_out_def)
qed

lemma tx_inv_set_error:
  assumes "tx_inv W s"
  shows "tx_inv W (s\<lparr>tx_stream := ByteStream_set_error (tx_stream s)\<rparr>)"
  using assms by (simp add: tx_inv_def tx_sent_bytes_def)

text \<open>What the receiver's side of an endpoint keeps: the reader's position and the knowledge of the end.\<close>

definition rcv_pos :: "TCPReceiver \<Rightarrow> nat" where
  "rcv_pos r = sr_consumed (rc_reassembler r)"

definition rcv_eof :: "TCPReceiver \<Rightarrow> bool" where
  "rcv_eof r = sr_eof (rc_reassembler r)"

definition rcv_cap :: "TCPReceiver \<Rightarrow> size_t" where
  "rcv_cap r = sr_capacity (rc_reassembler r)"

lemma set_error_frame [simp]:
  "rcv_pos (TCPReceiver_set_stream_out (ByteStream_set_error (TCPReceiver_stream_out r)) r) = rcv_pos r"
  "rcv_eof (TCPReceiver_set_stream_out (ByteStream_set_error (TCPReceiver_stream_out r)) r) = rcv_eof r"
  "rcv_cap (TCPReceiver_set_stream_out (ByteStream_set_error (TCPReceiver_stream_out r)) r) = rcv_cap r"
  by (simp_all add: rcv_pos_def rcv_eof_def rcv_cap_def sr_consumed_def TCPReceiver_set_stream_out_def
      TCPReceiver_stream_out_def)

lemma segment_received_delivers:
  assumes inv: "rcv_inv T isn r" and seg: "seg_of_stream T isn k seg" and key: "end_key_ok end_key"
    and T: "length T + 2 < 2 ^ 31"
  shows "\<exists>r'. TCPReceiver_segment_received end_key seg r = Inr r' \<and> rcv_inv T isn r' \<and>
    rcv_pos r' = rcv_pos r \<and> rcv_cap r' = rcv_cap r \<and>
    (rcv_eof r' \<longrightarrow> rcv_eof r \<or> th_fin (ts_header seg))"
proof -
  let ?a = "rc_reassembler r" and ?d = "Buffer_str (ts_payload seg)" and ?fin = "th_fin (ts_header seg)"
  have a: "sr_inv T ?a" and ok: "sr_push_ok T ?d (k - 1) ?fin"
    using inv seg by (simp_all add: rcv_inv_def Let_def seg_of_stream_def)
  have "sr_first_index ?a \<le> length T" "k \<le> length T + 2"
    using sr_inv_out_ok [OF a] seg by (auto simp: sr_out_ok_def seg_of_stream_def)
  then have near: "seq_near (k - 1) (sr_first_index ?a - 1)"
    using T by (auto simp: seq_near_def)
  obtain r' where r': "TCPReceiver_segment_received end_key seg r = Inr r'" "rcv_inv T isn r'"
    "sr_capacity (rc_reassembler r') = sr_capacity ?a"
    "if th_syn (ts_header seg) = rc_syn r then r' = r
     else rc_syn r' \<and> push_substring end_key ?d (k - 1) ?fin ?a = Inr (rc_reassembler r')"
    using segment_received_step [OF inv seg key near] by blast
  obtain a' where a': "push_substring end_key ?d (k - 1) ?fin ?a = Inr a'"
    "sr_abs a' = ar_push (sr_capacity ?a) ?d (k - 1) ?fin (sr_abs ?a)"
    using push_substring_abs [OF a ok key] by blast
  have "sr_consumed a' = sr_consumed ?a" "sr_eof a' = (sr_eof ?a \<or> ?fin)"
    using arg_cong [OF a'(2), of ar_taken] arg_cong [OF a'(2), of ar_eof]
    by (simp_all add: sr_abs_def ar_push_def)
  then show ?thesis
    using r' a'(1) by (auto simp: rcv_pos_def rcv_eof_def rcv_cap_def split: if_splits)
qed

section \<open>The invariant of an endpoint\<close>

text \<open>
  What surrounds a connection: the bytes its application wrote and whether it ended the stream, the
  peer's stream so far and whether that has ended, and how much of it the application has read.
\<close>

record cn_view =
  cv_written :: bytes
  cv_ended :: bool
  cv_isn :: WrappingInt32
  cv_peer :: bytes
  cv_peer_ended :: bool
  cv_peer_isn :: WrappingInt32
  cv_pos :: nat
  cv_cap :: size_t

definition cn_seg_ok :: "cn_view \<Rightarrow> TCPSegment \<Rightarrow> bool" where
  "cn_seg_ok v seg \<longleftrightarrow> (\<exists>k. tx_seg_ok (cv_written v) (cv_ended v) (cv_isn v) k seg)"

definition cn_inv :: "cn_view \<Rightarrow> TCPConnection \<Rightarrow> bool" where
  "cn_inv v c \<longleftrightarrow>
     tx_inv (cv_written v) (cn_sender c) \<and> tx_isn (cn_sender c) = cv_isn v \<and>
     ByteStream_input_ended (tx_stream (cn_sender c)) = cv_ended v \<and>
     rcv_inv (cv_peer v) (cv_peer_isn v) (cn_receiver c) \<and> rcv_pos (cn_receiver c) = cv_pos v \<and>
     rcv_cap (cn_receiver c) = cv_cap v \<and> (rcv_eof (cn_receiver c) \<longrightarrow> cv_peer_ended v) \<and>
     (\<forall>seg \<in> set (cn_segments_out c). cn_seg_ok v seg)"

text \<open>A call that returns, and returns to the invariant.\<close>

definition cn_ok :: "cn_view \<Rightarrow> TCPConnection res \<Rightarrow> bool" where
  "cn_ok v m \<longleftrightarrow> (\<exists>c. m = Inr c \<and> cn_inv v c)"

named_theorems cn_intros \<open>calls that return to the invariant\<close>

lemma cn_ok_Inr [cn_intros]: "cn_inv v c \<Longrightarrow> cn_ok v (Inr c)"
  by (simp add: cn_ok_def)

lemma cn_ok_bind [cn_intros]:
  "cn_ok v m \<Longrightarrow> (\<And>c. cn_inv v c \<Longrightarrow> cn_ok v (f c)) \<Longrightarrow> cn_ok v (bind_res m f)"
  by (auto simp: cn_ok_def)

lemma cn_inv_frame [simp]:
  "cn_inv v (c\<lparr>cn_linger_after_streams_finish := b\<rparr>) = cn_inv v c"
  "cn_inv v (c\<lparr>cn_active := b\<rparr>) = cn_inv v c"
  "cn_inv v (c\<lparr>cn_rst := b\<rparr>) = cn_inv v c"
  "cn_inv v (c\<lparr>cn_last_seg_timer := t\<rparr>) = cn_inv v c"
  by (simp_all add: cn_inv_def)

lemma cn_inv_sender:
  assumes "cn_inv v c" and "tx_inv (cv_written v) s" and "tx_isn s = cv_isn v"
    and "ByteStream_input_ended (tx_stream s) = cv_ended v"
  shows "cn_inv v (c\<lparr>cn_sender := s\<rparr>)"
  using assms by (simp add: cn_inv_def)

lemma cn_inv_queue:
  assumes "cn_inv v c" and "seg \<in> set (tx_segments_out (cn_sender c))"
  shows "cn_seg_ok v seg"
  using assms tx_invD(9) [of "cv_written v" "cn_sender c" seg] by (simp add: cn_inv_def cn_seg_ok_def)

lemma cn_inv_fill [cn_intros]:
  assumes "cn_inv v c"
  shows "cn_ok v (cn_fill_window c)"
proof -
  have inv: "tx_inv (cv_written v) (cn_sender c)"
    using assms by (simp add: cn_inv_def)
  obtain s where s: "fill_window (cn_sender c) = Inr s"
    using fill_window_loop_total [OF tx_invD(1) [OF inv]] unfolding fill_window_def by blast
  show ?thesis
    using fill_window_inv [OF inv s] fill_window_frame [OF tx_invD(1) [OF inv] s] assms
    by (auto simp: cn_fill_window_def s cn_ok_def cn_inv_def)
qed

lemma cn_inv_send_empty:
  assumes "cn_inv v c"
  shows "cn_inv v (c\<lparr>cn_sender := send_empty_segment (cn_sender c)\<rparr>)"
  using assms by (intro cn_inv_sender [OF assms]) (auto simp: cn_inv_def intro: send_empty_segment_inv)

lemma cn_inv_ack:
  assumes "cn_inv v c"
  shows "cn_inv v (c\<lparr>cn_sender := ack_received ackno w (cn_sender c)\<rparr>)"
  using assms by (intro cn_inv_sender [OF assms]) (auto simp: cn_inv_def intro: ack_received_inv)

lemma cn_inv_tick:
  assumes "cn_inv v c"
  shows "cn_inv v (c\<lparr>cn_sender := TCPSender_tick ms (cn_sender c)\<rparr>)"
  using assms by (intro cn_inv_sender [OF assms]) (auto simp: cn_inv_def intro: TCPSender_tick_inv)

lemma cn_inv_errors:
  assumes "cn_inv v c"
  shows "cn_inv v (cn_set_errors c)"
  using assms by (auto simp: cn_inv_def cn_set_errors_def intro: tx_inv_set_error rcv_inv_set_error)

text \<open>Stamping changes neither the place of a segment in the stream nor its contents.\<close>

definition cn_stamped :: "WrappingInt32 option \<Rightarrow> TCPConnection \<Rightarrow> TCPSegment \<Rightarrow> TCPSegment" where
  "cn_stamped ackno c seg =
     seg\<lparr>ts_header :=
       (if cn_rst c then (ts_header seg)\<lparr>th_rst := True\<rparr>
        else (case ackno of Some a \<Rightarrow> (ts_header seg)\<lparr>th_ack := True, th_ackno := a\<rparr> | None \<Rightarrow> ts_header seg)
          \<lparr>th_win := of_nat (min (TCPReceiver_window_size (cn_receiver c)) 65535)\<rparr>)\<rparr>"

lemma cn_stamp_eq:
  "TCPReceiver_ackno (cn_receiver c) = Inr ackno \<Longrightarrow> cn_stamp c seg = Inr (cn_stamped ackno c seg)"
  by (simp add: cn_stamp_def cn_stamped_def Let_def min_def)

lemma cn_stamped_frame [simp]:
  "ts_payload (cn_stamped ackno c seg) = ts_payload seg"
  "th_seqno (ts_header (cn_stamped ackno c seg)) = th_seqno (ts_header seg)"
  "th_syn (ts_header (cn_stamped ackno c seg)) = th_syn (ts_header seg)"
  "th_fin (ts_header (cn_stamped ackno c seg)) = th_fin (ts_header seg)"
  by (simp_all add: cn_stamped_def split: option.splits)

lemma cn_seg_ok_stamped [simp]: "cn_seg_ok v (cn_stamped ackno c seg) = cn_seg_ok v seg"
  by (simp add: cn_seg_ok_def tx_seg_ok_def seg_of_stream_def)

lemma pull_push_loop_eq:
  assumes "TCPReceiver_ackno (cn_receiver c) = Inr ackno" and "q = tx_segments_out (cn_sender c)"
  shows "pull_push_loop q c = Inr (c\<lparr>cn_segments_out := cn_segments_out c @ map (cn_stamped ackno c) q,
    cn_sender := (cn_sender c)\<lparr>tx_segments_out := []\<rparr>\<rparr>)"
  using assms
proof (induction q arbitrary: c)
  case (Cons seg q)
  let ?c = "c\<lparr>cn_segments_out := cn_segments_out c @ [cn_stamped ackno c seg],
      cn_sender := (cn_sender c)\<lparr>tx_segments_out := q\<rparr>\<rparr>"
  have "cn_stamped ackno ?c = cn_stamped ackno c"
    by (simp add: fun_eq_iff cn_stamped_def)
  then show ?case
    using Cons.IH [of ?c] Cons.prems(1) by (simp add: cn_stamp_eq)
qed simp

lemma cn_inv_ackno: "cn_inv v c \<Longrightarrow> \<exists>ackno. TCPReceiver_ackno (cn_receiver c) = Inr ackno"
  using rcv_ackno [of "cv_peer v" "cv_peer_isn v" "cn_receiver c"] by (simp add: cn_inv_def)

lemma cn_inv_pull_push [cn_intros]:
  assumes "cn_inv v c"
  shows "cn_ok v (pull_push_segments c)"
proof -
  obtain ackno where "TCPReceiver_ackno (cn_receiver c) = Inr ackno"
    using cn_inv_ackno [OF assms] by blast
  moreover have "tx_inv (cv_written v) ((cn_sender c)\<lparr>tx_segments_out := []\<rparr>)"
    using assms by (intro tx_inv_out) (simp_all add: cn_inv_def)
  ultimately show ?thesis
    using assms cn_inv_queue [OF assms]
    by (auto simp: pull_push_segments_def pull_push_loop_eq cn_ok_def cn_inv_def)
qed

lemma cn_inv_fully_dead [cn_intros]: "cn_inv v c \<Longrightarrow> cn_ok v (fully_dead e c)"
  unfolding fully_dead_def Let_def
  using cn_inv_send_empty [of v "c\<lparr>cn_rst := True\<rparr>"] by (auto intro!: cn_intros cn_inv_errors)

lemma cn_inv_judge_do [cn_intros]: "cn_inv v c \<Longrightarrow> cn_ok v (judge_do c)"
  by (auto simp: judge_do_def intro: cn_intros)

lemma cn_inv_connect [cn_intros]: "cn_inv v c \<Longrightarrow> cn_ok v (TCPConnection_connect c)"
  by (auto simp: TCPConnection_connect_def intro: cn_intros)

lemma cn_inv_take_ack [cn_intros]: "cn_inv v c \<Longrightarrow> cn_ok v (cn_take_ack seg c)"
  by (auto simp: cn_take_ack_def Let_def intro: cn_intros cn_inv_ack)

lemma cn_inv_passive_close: "cn_inv v (cn_passive_close c) = cn_inv v c"
  by (simp add: cn_passive_close_def)

lemma cn_send_empty_total: "cn_inv v c \<Longrightarrow> \<exists>b. cn_send_empty seg c = Inr b"
  using cn_inv_ackno [of v c] by (auto simp: cn_send_empty_def Let_def split: option.splits)

lemma cn_inv_tick_op: "cn_inv v c \<Longrightarrow> cn_ok v (TCPConnection_tick ms c)"
  using cn_inv_tick [of v "c\<lparr>cn_last_seg_timer := cn_last_seg_timer c + ms\<rparr>" ms]
  by (auto simp: TCPConnection_tick_def Let_def intro!: cn_intros)

lemma cn_inv_segment_received:
  assumes inv: "cn_inv v c" and key: "end_key_ok end_key" and T: "length (cv_peer v) + 2 < 2 ^ 31"
    and seg: "tx_seg_ok (cv_peer v) (cv_peer_ended v) (cv_peer_isn v) k seg"
  shows "cn_ok v (TCPConnection_segment_received end_key seg c)"
proof -
  obtain r where r: "TCPReceiver_segment_received end_key seg (cn_receiver c) = Inr r"
    "rcv_inv (cv_peer v) (cv_peer_isn v) r" "rcv_pos r = rcv_pos (cn_receiver c)"
    "rcv_cap r = rcv_cap (cn_receiver c)" "rcv_eof r \<longrightarrow> rcv_eof (cn_receiver c) \<or> th_fin (ts_header seg)"
    using segment_received_delivers [OF _ _ key T] inv seg unfolding cn_inv_def tx_seg_ok_def by blast
  have c2: "cn_inv v (c\<lparr>cn_last_seg_timer := 0, cn_receiver := r\<rparr>)"
    using inv r(2-5) seg by (auto simp: cn_inv_def tx_seg_ok_def)
  show ?thesis
  proof (cases "th_rst (ts_header seg)")
    case True
    then show ?thesis
      using inv by (auto simp: TCPConnection_segment_received_def Let_def intro!: cn_intros)
  next
    case False
    have "cn_ok v (let c4 = cn_passive_close c3
        in bind_res (cn_send_empty seg c4) (\<lambda>send_empty.
          judge_do (if send_empty then c4\<lparr>cn_sender := send_empty_segment (cn_sender c4)\<rparr> else c4)))"
      if "cn_inv v c3" for c3
    proof -
      have c4: "cn_inv v (cn_passive_close c3)"
        using that by (simp add: cn_inv_passive_close)
      show ?thesis
        using cn_send_empty_total [OF c4, of seg] c4
        by (auto simp: Let_def intro!: cn_intros cn_inv_send_empty)
    qed
    then show ?thesis
      using False r(1) c2 by (auto simp: TCPConnection_segment_received_def Let_def intro!: cn_intros)
  qed
qed

text \<open>Writing and ending change what surrounds the connection.\<close>

lemma cn_seg_ok_write:
  "cn_seg_ok v seg \<Longrightarrow> \<not> cv_ended v \<Longrightarrow> cn_seg_ok (v\<lparr>cv_written := cv_written v @ d\<rparr>) seg"
  by (auto simp: cn_seg_ok_def intro: tx_seg_ok_write)

lemma cn_seg_ok_end: "cn_seg_ok v seg \<Longrightarrow> cn_seg_ok (v\<lparr>cv_ended := True\<rparr>) seg"
  by (auto simp: cn_seg_ok_def intro: tx_seg_ok_end)

lemma cn_inv_write:
  assumes inv: "cn_inv v c" and "\<not> cv_ended v" and "length (cv_written v @ data) + 2 < 2 ^ 64"
  shows "\<exists>n c'. TCPConnection_write data c = Inr (n, c') \<and> n \<le> length data \<and>
    cn_inv (v\<lparr>cv_written := cv_written v @ take n data\<rparr>) c'"
proof -
  obtain n b where wr: "ByteStream_write data (tx_stream (cn_sender c)) = (n, b)"
    by fastforce
  let ?v = "v\<lparr>cv_written := cv_written v @ take n data\<rparr>"
  let ?c = "c\<lparr>cn_sender := (cn_sender c)\<lparr>tx_stream := b\<rparr>\<rparr>"
  have "n \<le> length data"
    using wr by (auto simp: ByteStream_write_def Let_def)
  have "ByteStream_input_ended b = cv_ended v"
    using ByteStream_write_flags(2) [OF wr] inv by (simp add: cn_inv_def ByteStream_input_ended_def)
  moreover have "tx_inv (cv_written ?v) (cn_sender ?c)"
    using tx_inv_write [OF _ wr, of "cv_written v"] inv assms(2,3) by (simp add: cn_inv_def)
  ultimately have "cn_inv ?v ?c"
    using inv assms(2) by (auto simp: cn_inv_def intro: cn_seg_ok_write)
  then have "cn_ok ?v (bind_res (if TCPSender_syned (cn_sender ?c) then cn_fill_window ?c else Inr ?c) judge_do)"
    by (auto intro!: cn_intros)
  then show ?thesis
    using wr \<open>n \<le> length data\<close>
    by (auto simp: TCPConnection_write_def Let_def cn_ok_def bind_res_eq_Inr split: if_splits)
qed

lemma cn_inv_end_input_stream:
  assumes inv: "cn_inv v c"
  shows "cn_ok (v\<lparr>cv_ended := True\<rparr>) (TCPConnection_end_input_stream c)"
proof -
  have "cn_inv (v\<lparr>cv_ended := True\<rparr>)
      (c\<lparr>cn_sender := (cn_sender c)\<lparr>tx_stream := ByteStream_end_input (tx_stream (cn_sender c))\<rparr>\<rparr>)"
    using inv by (auto simp: cn_inv_def intro: tx_inv_end_input cn_seg_ok_end)
  then show ?thesis
    by (auto simp: TCPConnection_end_input_stream_def Let_def intro!: cn_intros)
qed

text \<open>The peer's stream grows behind the connection's back.\<close>

lemma cn_inv_peer_write:
  assumes "cn_inv v c" and "\<not> cv_peer_ended v"
    and "2 * length (cv_peer v @ d) + cv_cap v < size_max"
  shows "cn_inv (v\<lparr>cv_peer := cv_peer v @ d\<rparr>) c"
  using assms rcv_inv_grow [of "cv_peer v" "cv_peer_isn v" "cn_receiver c" d]
  by (auto simp: cn_inv_def rcv_eof_def rcv_cap_def cn_seg_ok_def)

lemma cn_inv_peer_end: "cn_inv v c \<Longrightarrow> cn_inv (v\<lparr>cv_peer_ended := True\<rparr>) c"
  by (auto simp: cn_inv_def cn_seg_ok_def)

lemma cn_inv_read:
  assumes inv: "cn_inv v c"
  shows "\<exists>d r. TCPReceiver_read n (cn_receiver c) = Inr (d, r) \<and>
    excerpt (cv_peer v) (cv_pos v) (length d) = d \<and> cv_pos v + length d \<le> length (cv_peer v) \<and>
    cn_inv (v\<lparr>cv_pos := cv_pos v + length d\<rparr>) (c\<lparr>cn_receiver := r\<rparr>)"
proof -
  let ?r = "cn_receiver c" and ?T = "cv_peer v"
  let ?a = "rc_reassembler ?r"
  have rcv: "rcv_inv ?T (cv_peer_isn v) ?r" and pos: "sr_consumed ?a = cv_pos v"
    using inv by (simp_all add: cn_inv_def rcv_pos_def)
  have a: "sr_inv ?T ?a"
    using rcv by (simp add: rcv_inv_def Let_def)
  obtain d r where r: "TCPReceiver_read n ?r = Inr (d, r)" "rcv_inv ?T (cv_peer_isn v) r"
    "sr_capacity (rc_reassembler r) = sr_capacity ?a"
    "sr_abs (rc_reassembler r) = ar_read n (sr_abs ?a)" "sr_read n ?a = Inr (d, rc_reassembler r)"
    using TCPReceiver_read_ok [OF rcv] by blast
  have first: "sr_first_index ?a \<le> length ?T" "sr_consumed ?a \<le> sr_first_index ?a"
    using sr_inv_out_ok [OF a] by (simp_all add: sr_out_ok_def sr_consumed_def)
  have d: "d = excerpt ?T (cv_pos v) (min n (sr_first_index ?a - cv_pos v))"
    using sr_read_ok [OF a, of n] r(5) pos by auto
  then have len: "length d = min n (sr_first_index ?a - cv_pos v)"
    using first pos by (auto simp: excerpt_def)
  have "sr_consumed (rc_reassembler r) = cv_pos v + length d" "sr_eof (rc_reassembler r) = sr_eof ?a"
    using arg_cong [OF r(4), of ar_taken] arg_cong [OF r(4), of ar_eof] sr_abs_first [OF a] first pos len
    by (simp_all add: ar_read_def sr_abs_def)
  then show ?thesis
    using r(1-3) d len inv first pos
    by (auto simp: cn_inv_def rcv_pos_def rcv_eof_def rcv_cap_def cn_seg_ok_def)
qed

lemma cn_inv_delivered:
  assumes "cn_inv v c"
  defines "b \<equiv> TCPConnection_inbound_stream c"
  shows "take (cv_pos v) (cv_peer v) @ ByteStream_contents b = take (cv_pos v + length (ByteStream_contents b)) (cv_peer v)"
    and "cv_pos v + length (ByteStream_contents b) \<le> length (cv_peer v)"
    and "ByteStream_input_ended b \<Longrightarrow>
      cv_peer_ended v \<and> cv_pos v + length (ByteStream_contents b) = length (cv_peer v)"
proof -
  let ?a = "rc_reassembler (cn_receiver c)"
  have a: "sr_inv (cv_peer v) ?a" and pos: "sr_consumed ?a = cv_pos v" and eof: "sr_eof ?a \<longrightarrow> cv_peer_ended v"
    using assms(1) by (simp_all add: cn_inv_def rcv_inv_def Let_def rcv_pos_def rcv_eof_def)
  have b: "b = sr_output ?a"
    by (simp add: b_def TCPConnection_inbound_stream_def TCPReceiver_stream_out_def)
  have first: "cv_pos v + length (ByteStream_contents b) = sr_first_index ?a"
    and ex: "excerpt (cv_peer v) (cv_pos v) (length (ByteStream_contents b)) = ByteStream_contents b"
    using sr_inv_out_ok [OF a] pos by (auto simp: sr_out_ok_def sr_consumed_def b)
  show "take (cv_pos v) (cv_peer v) @ ByteStream_contents b = take (cv_pos v + length (ByteStream_contents b)) (cv_peer v)"
    using ex by (simp add: excerpt_def take_add)
  show "cv_pos v + length (ByteStream_contents b) \<le> length (cv_peer v)"
    and "ByteStream_input_ended b \<Longrightarrow>
      cv_peer_ended v \<and> cv_pos v + length (ByteStream_contents b) = length (cv_peer v)"
    using sr_inv_out_ok [OF a] first eof by (auto simp: sr_out_ok_def b)
qed

section \<open>The end of a connection\<close>

lemma pull_push_loop_rst:
  "cn_rst c \<Longrightarrow> q = tx_segments_out (cn_sender c) \<Longrightarrow>
     pull_push_loop q c = Inr (c\<lparr>cn_segments_out := cn_segments_out c @ map (\<lambda>seg. seg\<lparr>ts_header := (ts_header seg)\<lparr>th_rst := True\<rparr>\<rparr>) q,
       cn_sender := (cn_sender c)\<lparr>tx_segments_out := []\<rparr>\<rparr>)"
proof (induction q arbitrary: c)
  case (Cons seg q)
  show ?case
    using Cons.prems(1) Cons.IH [of "c\<lparr>cn_segments_out := cn_segments_out c @ [seg\<lparr>ts_header := (ts_header seg)\<lparr>th_rst := True\<rparr>\<rparr>],
        cn_sender := (cn_sender c)\<lparr>tx_segments_out := q\<rparr>\<rparr>"]
    by (simp add: cn_stamp_def)
qed simp

lemma fully_dead_rst:
  assumes "0 < e"
  shows "\<exists>c'. fully_dead e c = Inr c' \<and> \<not> cn_active c' \<and> cn_rst c' \<and>
    bs_error (tx_stream (cn_sender c')) \<and> bs_error (TCPReceiver_stream_out (cn_receiver c')) \<and>
    (\<exists>q. cn_segments_out c' = cn_segments_out c @ q \<and> (\<forall>seg \<in> set q. th_rst (ts_header seg)) \<and>
       length q = max (length (tx_segments_out (cn_sender c))) (if e > 1 then 1 else 0))"
proof -
  let ?rst = "\<lambda>seg. seg\<lparr>ts_header := (ts_header seg)\<lparr>th_rst := True\<rparr>\<rparr>"
  let ?c1 = "c\<lparr>cn_rst := True\<rparr>"
  let ?c2 = "if e > 1 \<and> tx_segments_out (cn_sender c) = []
    then ?c1\<lparr>cn_sender := send_empty_segment (cn_sender c)\<rparr> else ?c1"
  let ?q = "tx_segments_out (cn_sender ?c2)"
  have "fully_dead e c = Inr ((cn_set_errors ?c2)\<lparr>cn_segments_out := cn_segments_out c @ map ?rst ?q,
      cn_sender := (cn_sender (cn_set_errors ?c2))\<lparr>tx_segments_out := []\<rparr>, cn_active := False\<rparr>)"
    using assms by (simp add: fully_dead_def Let_def pull_push_segments_def pull_push_loop_rst cn_set_errors_def)
  moreover have "length ?q = max (length (tx_segments_out (cn_sender c))) (if e > 1 then 1 else 0)"
    by (cases "tx_segments_out (cn_sender c)") (auto simp: send_empty_segment_def Let_def)
  ultimately show ?thesis
    by (auto simp: cn_set_errors_def ByteStream_set_error_def TCPReceiver_set_stream_out_def
        TCPReceiver_stream_out_def)
qed

lemma TCPConnection_state_reset:
  "\<not> cn_active c \<Longrightarrow> bs_error (tx_stream (cn_sender c)) \<Longrightarrow>
     bs_error (TCPReceiver_stream_out (cn_receiver c)) \<Longrightarrow>
     TCPConnection_state c = Inr (TCPState_of_State RESET)"
  by (simp add: TCPConnection_state_def TCPState_of_def TCPConnection_active_def state_summary_receiver_def
      state_summary_sender_def)

lemma pull_push_loop_active:
  "pull_push_loop q c = Inr c' \<Longrightarrow> cn_active c' = cn_active c"
proof (induction q arbitrary: c)
  case (Cons seg q)
  then show ?case
    by (fastforce simp: bind_res_eq_Inr)
qed simp

lemma fully_dead_inactive: "fully_dead e c = Inr c' \<Longrightarrow> \<not> cn_active c'"
  by (auto simp: fully_dead_def bind_res_eq_Inr)

lemma cn_fill_window_frame:
  "cn_fill_window c = Inr c' \<Longrightarrow> cn_active c' = cn_active c \<and> cn_segments_out c' = cn_segments_out c"
  by (auto simp: cn_fill_window_def bind_res_eq_Inr)

section \<open>Resets\<close>

text \<open>
  A connection after any calls of its owner, who may also read from the inbound stream and take
  segments from the queue.
\<close>

inductive cn_reachable :: "(sr_map \<Rightarrow> size_t) \<Rightarrow> TCPConnection \<Rightarrow> bool" for end_key where
  new: "cn_reachable end_key (TCPConnection_init random cfg)"
| segment: "cn_reachable end_key c \<Longrightarrow> TCPConnection_segment_received end_key seg c = Inr c' \<Longrightarrow> cn_reachable end_key c'"
| put: "cn_reachable end_key c \<Longrightarrow> TCPConnection_write data c = Inr (n, c') \<Longrightarrow> cn_reachable end_key c'"
| tick: "cn_reachable end_key c \<Longrightarrow> TCPConnection_tick ms c = Inr c' \<Longrightarrow> cn_reachable end_key c'"
| end_input: "cn_reachable end_key c \<Longrightarrow> TCPConnection_end_input_stream c = Inr c' \<Longrightarrow> cn_reachable end_key c'"
| connect: "cn_reachable end_key c \<Longrightarrow> TCPConnection_connect c = Inr c' \<Longrightarrow> cn_reachable end_key c'"
| get: "cn_reachable end_key c \<Longrightarrow> ByteStream_read n (TCPConnection_inbound_stream c) = Inr (d, b) \<Longrightarrow>
    cn_reachable end_key (c\<lparr>cn_receiver := TCPReceiver_set_stream_out b (cn_receiver c)\<rparr>)"
| collect: "cn_reachable end_key c \<Longrightarrow> cn_reachable end_key (c\<lparr>cn_segments_out := drop n (cn_segments_out c)\<rparr>)"

text \<open>An active connection has passed on everything its sender queued.\<close>

lemma pull_push_loop_drains:
  "pull_push_loop q c = Inr c' \<Longrightarrow> q = tx_segments_out (cn_sender c) \<Longrightarrow> tx_segments_out (cn_sender c') = []"
proof (induction q arbitrary: c)
  case (Cons seg q)
  obtain seg' where "pull_push_loop q
      (c\<lparr>cn_segments_out := cn_segments_out c @ [seg'], cn_sender := (cn_sender c)\<lparr>tx_segments_out := q\<rparr>\<rparr>) = Inr c'"
    using Cons.prems(1) by (auto simp: bind_res_eq_Inr)
  then show ?case
    by (rule Cons.IH) simp
qed simp

lemma judge_do_drains: "judge_do c = Inr c' \<Longrightarrow> cn_active c' \<Longrightarrow> tx_segments_out (cn_sender c') = []"
  by (auto simp: judge_do_def pull_push_segments_def split: if_splits dest: fully_dead_inactive pull_push_loop_drains)

lemma cn_reachable_drained: "cn_reachable end_key c \<Longrightarrow> cn_active c \<Longrightarrow> tx_segments_out (cn_sender c) = []"
proof (induction rule: cn_reachable.induct)
  case (new random cfg)
  then show ?case
    by (simp add: TCPConnection_init_def TCPSender_init_def)
next
  case (segment c seg c')
  then show ?case
    by (auto simp: TCPConnection_segment_received_def TCPConnection_connect_def Let_def bind_res_eq_Inr
        split: if_splits dest: judge_do_drains)
qed (auto simp: TCPConnection_write_def TCPConnection_tick_def TCPConnection_end_input_stream_def
    TCPConnection_connect_def Let_def bind_res_eq_Inr split: prod.splits dest: judge_do_drains)

text \<open>
  A reset to be obeyed. Once the peer's initial sequence number is known, its sequence number is the next
  expected one or inside the window; before, an own SYN must have been sent and the reset acknowledge it.
\<close>

definition rst_acceptable :: "TCPSegment \<Rightarrow> TCPConnection \<Rightarrow> bool" where
  "rst_acceptable seg c \<longleftrightarrow>
     (case TCPReceiver_ackno (cn_receiver c) of
        Inl _ \<Rightarrow> False
      | Inr (Some ackno) \<Rightarrow>
          th_seqno (ts_header seg) = ackno \<or>
          unat (raw_value (th_seqno (ts_header seg)) - raw_value ackno) < TCPReceiver_window_size (cn_receiver c)
      | Inr None \<Rightarrow>
          TCPSender_syned (cn_sender c) \<and> th_ack (ts_header seg) \<and>
          th_ackno (ts_header seg) = TCPSender_next_seqno (cn_sender c))"

text \<open>The code does not make the distinction: it obeys every reset.\<close>

lemma TCPConnection_reset_anywhere:
  assumes "th_rst (ts_header seg)" and "cn_active c"
  shows "\<exists>c'. TCPConnection_segment_received end_key seg c = Inr c' \<and> \<not> TCPConnection_active c' \<and>
    TCPConnection_state c' = Inr (TCPState_of_State RESET) \<and>
    bs_error (tx_stream (cn_sender c')) \<and> bs_error (TCPConnection_inbound_stream c') \<and>
    (\<exists>q. cn_segments_out c' = cn_segments_out c @ q \<and> (\<forall>seg \<in> set q. th_rst (ts_header seg)) \<and>
       length q = length (tx_segments_out (cn_sender c)))"
  using assms fully_dead_rst [of 1 "c\<lparr>cn_last_seg_timer := 0, cn_rst := True\<rparr>"]
  by (auto simp: TCPConnection_segment_received_def Let_def judge_do_def TCPConnection_active_def
      TCPConnection_state_reset TCPConnection_inbound_stream_def)

text \<open>A reset that should be ignored: it arrives at a connection that listens.\<close>

lemma TCPConnection_reset_listening:
  "\<exists>c'. TCPConnection_segment_received end_key
      (TCPSegment_default\<lparr>ts_header := TCPHeader_default\<lparr>th_rst := True\<rparr>\<rparr>) (TCPConnection_init 0 TCPConfig_default) = Inr c' \<and>
    TCPConnection_state c' = Inr (TCPState_of_State RESET)"
  using TCPConnection_reset_anywhere [of "TCPSegment_default\<lparr>ts_header := TCPHeader_default\<lparr>th_rst := True\<rparr>\<rparr>"
      "TCPConnection_init 0 TCPConfig_default" end_key]
  by (auto simp: TCPConnection_init_def)

section \<open>Properties\<close>

text \<open>
  C23. A reset that is to be obeyed ends the connection at once: after whatever calls, when an active
  connection receives a segment with the reset flag that lies in its window, or that acknowledges its
  SYN while it waits for the peer's, nothing is thrown, the connection is inactive and in the official
  state RESET, both its streams are in error, and nothing is sent in response.
\<close>

theorem TCPConnection_reset_received:
  assumes "cn_reachable end_key c" and "TCPConnection_active c" and "th_rst (ts_header seg)" and "rst_acceptable seg c"
  shows "\<exists>c'. TCPConnection_segment_received end_key seg c = Inr c' \<and> \<not> TCPConnection_active c' \<and>
    TCPConnection_state c' = Inr (TCPState_of_State RESET) \<and>
    ByteStream_error (tx_stream (cn_sender c')) \<and> ByteStream_error (TCPConnection_inbound_stream c') \<and>
    cn_segments_out c' = cn_segments_out c"
proof -
  have "cn_active c" "tx_segments_out (cn_sender c) = []"
    using assms(2) cn_reachable_drained [OF assms(1)] by (simp_all add: TCPConnection_active_def)
  then show ?thesis
    using TCPConnection_reset_anywhere [OF assms(3), of c end_key] by (auto simp: ByteStream_error_def)
qed

text \<open>A connection that has sent its SYN.\<close>

definition cn_syn_sent :: TCPConnection where
  "cn_syn_sent = (case TCPConnection_connect (TCPConnection_init 5 TCPConfig_default) of
     Inr c \<Rightarrow> c | Inl _ \<Rightarrow> TCPConnection_init 5 TCPConfig_default)"

lemma fill_window_first:
  "\<exists>s. fill_window (TCPSender_init random cap rto None) = Inr s \<and> tx_syned s \<and> tx_resend_try_times s = 0 \<and>
    \<not> tx_fined s \<and> tx_next_abs_seqno s = 1 \<and> tx_isn s = WrappingInt32 random \<and> (\<exists>g. tx_segments_out s = [g])"
proof -
  let ?s = "TCPSender_init random cap rto None"
  have read: "ByteStream_read n (ByteStream_init cap) = Inr ([], ByteStream_init cap)" for n
    by (simp add: ByteStream_read_def ByteStream_peek_output_def ByteStream_pop_output_def ByteStream_init_def
        BufferList_size_def Let_def add64_def)
  let ?g = "tx_segment 0 ?s [] (ByteStream_init cap)"
  let ?s' = "?s\<lparr>tx_syned := True, tx_segments_out := [?g], tx_next_abs_seqno := 1,
    tx_sent := [\<lparr>st_expected_ack = 1, st_seg = ?g\<rparr>]\<rparr>"
  have "\<not> tx_sends_fin 0 ?s [] (ByteStream_init cap)"
    by (simp add: tx_sends_fin_def ByteStream_init_def ByteStream_input_ended_def)
  then have "fill_window_iter 0 ?s = Inr (True, ?s')"
    using fill_window_iter_eq [of ?s 0 "[]" "ByteStream_init cap"] read
    by (simp add: TCPSender_init_def length_in_sequence_space_def tx_segment_def)
  then have "fill_window_loop 0 ?s = Inr ?s'"
    by (subst fill_window_loop.simps) (simp add: fill_window_loop.simps TCPSender_bytes_in_flight_def TCPSender_init_def)
  then show ?thesis
    by (simp add: fill_window_def TCPSender_init_def)
qed

lemma cn_syn_sent_facts:
  "TCPConnection_connect (TCPConnection_init 5 TCPConfig_default) = Inr cn_syn_sent"
  "cn_active cn_syn_sent" "TCPReceiver_ackno (cn_receiver cn_syn_sent) = Inr None"
  "TCPSender_syned (cn_sender cn_syn_sent)" "TCPSender_next_seqno (cn_sender cn_syn_sent) = WrappingInt32 6"
proof -
  let ?i = "TCPConnection_init 5 TCPConfig_default"
  obtain s g where s: "fill_window (cn_sender ?i) = Inr s" "tx_syned s" "tx_resend_try_times s = 0" "\<not> tx_fined s"
    "tx_next_abs_seqno s = 1" "tx_isn s = WrappingInt32 5" "tx_segments_out s = [g]"
    using fill_window_first [of 5 "cfg_send_capacity TCPConfig_default" "cfg_rt_timeout TCPConfig_default"]
    by (auto simp: TCPConnection_init_def TCPConfig_default_def)
  have r: "TCPReceiver_ackno (cn_receiver ?i) = Inr None"
    by (simp add: TCPConnection_init_def TCPReceiver_init_def TCPReceiver_ackno_def)
  obtain g' where "cn_stamp (?i\<lparr>cn_sender := s\<rparr>) g = Inr g'"
    using r by (simp add: cn_stamp_def TCPConnection_init_def Let_def)
  then have c: "TCPConnection_connect ?i = Inr (?i\<lparr>cn_segments_out := [g'], cn_sender := s\<lparr>tx_segments_out := []\<rparr>\<rparr>)"
    using s by (simp add: TCPConnection_connect_def cn_fill_window_def judge_do_def pull_push_segments_def
        TCPSender_consecutive_retransmissions_def TCPConfig_MAX_RETX_ATTEMPTS_def TCPSender_full_fined_def)
      (simp add: TCPConnection_init_def)
  then have syn: "cn_syn_sent = ?i\<lparr>cn_segments_out := [g'], cn_sender := s\<lparr>tx_segments_out := []\<rparr>\<rparr>"
    by (simp add: cn_syn_sent_def)
  show "TCPConnection_connect ?i = Inr cn_syn_sent"
    using c syn by simp
  show "cn_active cn_syn_sent"
    by (simp add: syn) (simp add: TCPConnection_init_def)
  show "TCPReceiver_ackno (cn_receiver cn_syn_sent) = Inr None"
    using r by (simp add: syn)
  show "TCPSender_syned (cn_sender cn_syn_sent)" "TCPSender_next_seqno (cn_sender cn_syn_sent) = WrappingInt32 6"
    using s by (simp_all add: syn TCPSender_syned_def TCPSender_next_seqno_def wrap_def)
qed

theorem TCPConnection_reset_received_witness:
  "\<exists>c'. TCPConnection_segment_received length
      (TCPSegment_default\<lparr>ts_header := TCPHeader_default\<lparr>th_rst := True, th_ack := True, th_ackno := WrappingInt32 6\<rparr>\<rparr>)
      cn_syn_sent = Inr c' \<and>
    TCPConnection_state c' = Inr (TCPState_of_State RESET) \<and> cn_segments_out c' = cn_segments_out cn_syn_sent"
proof -
  let ?seg = "TCPSegment_default\<lparr>ts_header := TCPHeader_default\<lparr>th_rst := True, th_ack := True, th_ackno := WrappingInt32 6\<rparr>\<rparr>"
  have r: "cn_reachable length cn_syn_sent" "TCPConnection_active cn_syn_sent" "th_rst (ts_header ?seg)"
    "rst_acceptable ?seg cn_syn_sent"
    using cn_syn_sent_facts
    by (auto simp: TCPConnection_active_def rst_acceptable_def intro: cn_reachable.connect cn_reachable.new)
  from TCPConnection_reset_received [OF r] show ?thesis
    by blast
qed

text \<open>
  Destroying an active connection aborts it: it sends at least one segment, everything it sends
  carries the reset flag, and it ends in the official state RESET. An inactive one is left alone.
\<close>

lemma TCPConnection_destroy_aborts:
  "if cn_active c
   then TCPConnection_state (TCPConnection_destroy c) = Inr (TCPState_of_State RESET) \<and>
     (\<exists>q. q \<noteq> [] \<and> cn_segments_out (TCPConnection_destroy c) = cn_segments_out c @ q \<and>
        list_all (\<lambda>seg. th_rst (ts_header seg)) q)
   else TCPConnection_destroy c = c"
  using fully_dead_rst [of 2 c]
  by (fastforce simp: TCPConnection_destroy_def TCPConnection_state_reset list_all_iff split: if_splits)

text \<open>
  C22. When the connection ends: an active connection whose calls have been processed is inactive
  afterwards exactly when it was reset, when the sender has retransmitted more than eight times in a
  row, or when its own stream is sent and acknowledged completely and it need not linger, or has
  lingered for ten times the initial timeout after the peer's stream was complete as well.
\<close>

theorem judge_do_ends:
  assumes "judge_do c = Inr c'" and "cn_active c"
  shows "cn_active c' \<longleftrightarrow>
    \<not> (cn_rst c \<or> 8 < TCPSender_consecutive_retransmissions (cn_sender c) \<or>
       TCPSender_full_fined (cn_sender c) \<and>
       (\<not> cn_linger_after_streams_finish c \<or>
        TCPReceiver_full_fined (cn_receiver c) \<and>
        10 * ucast (cfg_rt_timeout (cn_cfg c)) \<le> cn_last_seg_timer c))"
proof -
  have pull: "pull_push_segments c = Inr c' \<Longrightarrow> cn_active c'"
    using assms(2) pull_push_loop_active by (auto simp: pull_push_segments_def)
  have dead: "\<And>e d. fully_dead e d = Inr c' \<Longrightarrow> \<not> cn_active c'"
    by (rule fully_dead_inactive)
  show ?thesis
    using assms pull dead unfolding judge_do_def TCPConfig_MAX_RETX_ATTEMPTS_def
    by (auto split: if_splits)
qed

theorem judge_do_ends_witness:
  "\<exists>c'. judge_do (TCPConnection_init 0 TCPConfig_default) = Inr c' \<and> cn_active c'"
proof -
  let ?c = "TCPConnection_init 0 TCPConfig_default"
  have "judge_do ?c = Inr ?c"
    by (simp add: judge_do_def TCPConnection_init_def TCPSender_init_def TCPSender_consecutive_retransmissions_def
        TCPConfig_MAX_RETX_ATTEMPTS_def TCPSender_full_fined_def pull_push_segments_def)
  then show ?thesis
    using judge_do_ends [of ?c ?c]
    by (simp add: TCPConnection_init_def TCPSender_init_def TCPSender_consecutive_retransmissions_def
        TCPSender_full_fined_def)
qed

text \<open>
  C24. A connection that is over stays over: no call on an inactive connection makes it active again
  or sends anything.
\<close>

theorem TCPConnection_stays_inactive:
  assumes "\<not> TCPConnection_active c"
    and "TCPConnection_segment_received end_key seg c = Inr c' \<or> TCPConnection_tick ms c = Inr c' \<or>
      TCPConnection_connect c = Inr c' \<or> TCPConnection_end_input_stream c = Inr c' \<or>
      TCPConnection_write data c = Inr (n, c') \<or> TCPConnection_destroy c = c'"
  shows "\<not> TCPConnection_active c' \<and> cn_segments_out c' = cn_segments_out c"
proof -
  have judge: "judge_do d = Inr c' \<Longrightarrow> \<not> cn_active d \<Longrightarrow> c' = d" for d
    by (simp add: judge_do_def)
  have ack: "cn_active d' = cn_active d \<and> cn_segments_out d' = cn_segments_out d"
    if "cn_take_ack seg d = Inr d'" for d d'
    using that by (auto simp: cn_take_ack_def Let_def split: if_splits dest: cn_fill_window_frame)
  have close: "cn_active (cn_passive_close d) = cn_active d \<and> cn_segments_out (cn_passive_close d) = cn_segments_out d" for d
    by (simp add: cn_passive_close_def)
  show ?thesis
    using assms
    by (fastforce simp: TCPConnection_active_def TCPConnection_segment_received_def TCPConnection_tick_def
        TCPConnection_connect_def TCPConnection_end_input_stream_def TCPConnection_write_def
        TCPConnection_destroy_def Let_def bind_res_eq_Inr close split: if_splits prod.splits
        dest!: judge ack cn_fill_window_frame)
qed

theorem TCPConnection_stays_inactive_witness:
  "\<exists>c c' n. TCPConnection_segment_received length
      (TCPSegment_default\<lparr>ts_header := TCPHeader_default\<lparr>th_rst := True\<rparr>\<rparr>) (TCPConnection_init 5 TCPConfig_default) = Inr c \<and>
    \<not> TCPConnection_active c \<and> TCPConnection_write [1, 2] c = Inr (n, c') \<and>
    \<not> TCPConnection_active c' \<and> cn_segments_out c' = cn_segments_out c"
proof -
  let ?seg = "TCPSegment_default\<lparr>ts_header := TCPHeader_default\<lparr>th_rst := True\<rparr>\<rparr>"
    and ?i = "TCPConnection_init 5 TCPConfig_default"
  obtain c where c: "TCPConnection_segment_received length ?seg ?i = Inr c" "\<not> TCPConnection_active c" "\<not> tx_syned (cn_sender c)"
    by (simp add: TCPConnection_segment_received_def judge_do_def fully_dead_def pull_push_segments_def Let_def
        cn_set_errors_def TCPConnection_init_def TCPSender_init_def TCPConnection_active_def)
  obtain n c' where w: "TCPConnection_write [1, 2] c = Inr (n, c')"
    using c(2,3) by (cases "ByteStream_write [1, 2] (tx_stream (cn_sender c))")
      (simp add: TCPConnection_write_def judge_do_def Let_def TCPSender_syned_def TCPConnection_active_def)
  show ?thesis
    using TCPConnection_stays_inactive [OF c(2), where c' = c' and data = "[1, 2]" and n = n] c w by blast
qed

end
