(* ===== verification/TCP_Pair.thy ===== *)
theory TCP_Pair
  imports TCP_Connection "HOL-Library.Sublist"
begin

text \<open>
  Two connections and the network between them, as a step relation. An endpoint is a connection with
  its application: what was written, what was read, and every segment handed to the network. A segment
  handed over may be delivered to the peer at any time, any number of times, in any order, or never;
  ports, checksum and the buffer of the payload may differ on arrival.
\<close>

section \<open>Endpoints\<close>

record endpoint =
  ep_conn :: TCPConnection
  ep_written :: bytes
  ep_read :: bytes
  ep_sent :: "TCPSegment list"

definition ep_init :: "32 word \<Rightarrow> TCPConfig \<Rightarrow> endpoint" where
  "ep_init random cfg =
     \<lparr>ep_conn = TCPConnection_init random cfg, ep_written = [], ep_read = [], ep_sent = []\<rparr>"

abbreviation ep_ended :: "endpoint \<Rightarrow> bool" where
  "ep_ended e \<equiv> ByteStream_input_ended (tx_stream (cn_sender (ep_conn e)))"

text \<open>
  Calls on one endpoint. Streams stay below \<open>2 ^ 31\<close> bytes, and an application does not write after it
  ended its stream; everything else is arbitrary.
\<close>

inductive ep_step :: "(sr_map \<Rightarrow> size_t) \<Rightarrow> endpoint \<Rightarrow> endpoint \<Rightarrow> endpoint \<Rightarrow> bool"
  for end_key and peer where
  connect: "TCPConnection_connect (ep_conn e) = Inr c \<Longrightarrow> ep_step end_key peer e (e\<lparr>ep_conn := c\<rparr>)"
| tick: "TCPConnection_tick ms (ep_conn e) = Inr c \<Longrightarrow> ep_step end_key peer e (e\<lparr>ep_conn := c\<rparr>)"
| end_input: "TCPConnection_end_input_stream (ep_conn e) = Inr c \<Longrightarrow>
    ep_step end_key peer e (e\<lparr>ep_conn := c\<rparr>)"
| write_data: "\<not> ep_ended e \<Longrightarrow> length (ep_written e @ data) + 2 < 2 ^ 31 \<Longrightarrow>
    TCPConnection_write data (ep_conn e) = Inr (n, c) \<Longrightarrow>
    ep_step end_key peer e (e\<lparr>ep_conn := c, ep_written := ep_written e @ take n data\<rparr>)"
| read_data: "TCPReceiver_read n (cn_receiver (ep_conn e)) = Inr (d, r) \<Longrightarrow>
    ep_step end_key peer e (e\<lparr>ep_conn := (ep_conn e)\<lparr>cn_receiver := r\<rparr>, ep_read := ep_read e @ d\<rparr>)"
| send: "ep_step end_key peer e (e\<lparr>ep_conn := (ep_conn e)\<lparr>cn_segments_out := []\<rparr>,
    ep_sent := ep_sent e @ cn_segments_out (ep_conn e)\<rparr>)"
| deliver: "seg \<in> set (ep_sent peer) \<Longrightarrow> tcp_same seg seg' \<Longrightarrow>
    TCPConnection_segment_received end_key seg' (ep_conn e) = Inr c \<Longrightarrow>
    ep_step end_key peer e (e\<lparr>ep_conn := c\<rparr>)"

inductive pair_step :: "(sr_map \<Rightarrow> size_t) \<Rightarrow> endpoint \<times> endpoint \<Rightarrow> endpoint \<times> endpoint \<Rightarrow> bool"
  for end_key where
  left: "ep_step end_key f e e' \<Longrightarrow> pair_step end_key (e, f) (e', f)"
| right: "ep_step end_key e f f' \<Longrightarrow> pair_step end_key (e, f) (e, f')"

inductive_cases pair_stepE: "pair_step end_key (e, f) p"

inductive pair_reachable :: "(sr_map \<Rightarrow> size_t) \<Rightarrow> endpoint \<times> endpoint \<Rightarrow> endpoint \<times> endpoint \<Rightarrow> bool"
  for end_key init where
  start: "pair_reachable end_key init init"
| step: "pair_reachable end_key init p \<Longrightarrow> pair_step end_key p q \<Longrightarrow> pair_reachable end_key init q"

section \<open>The invariant of a pair\<close>

definition ep_view :: "endpoint \<Rightarrow> endpoint \<Rightarrow> cn_view" where
  "ep_view e f =
     \<lparr>cv_written = ep_written e, cv_ended = ep_ended e, cv_isn = tx_isn (cn_sender (ep_conn e)),
      cv_peer = ep_written f, cv_peer_ended = ep_ended f, cv_peer_isn = tx_isn (cn_sender (ep_conn f)),
      cv_pos = length (ep_read e), cv_cap = rcv_cap (cn_receiver (ep_conn e))\<rparr>"

definition ep_inv :: "endpoint \<Rightarrow> endpoint \<Rightarrow> bool" where
  "ep_inv e f \<longleftrightarrow>
     cn_inv (ep_view e f) (ep_conn e) \<and> prefix (ep_read e) (ep_written f) \<and>
     (\<forall>seg \<in> set (ep_sent e). cn_seg_ok (ep_view e f) seg) \<and>
     length (ep_written e) + 2 < 2 ^ 31 \<and> rcv_cap (cn_receiver (ep_conn e)) < 2 ^ 63"

text \<open>
  A step of one endpoint seen from both: its own view and the peer's view change only in what was
  written, whether the stream ended and what was read.
\<close>

lemma cn_invD:
  assumes "cn_inv v c"
  shows "tx_isn (cn_sender c) = cv_isn v" "ByteStream_input_ended (tx_stream (cn_sender c)) = cv_ended v"
    "rcv_cap (cn_receiver c) = cv_cap v"
  using assms by (simp_all add: cn_inv_def)

lemma cn_seg_ok_same: "cn_seg_ok v seg \<Longrightarrow> tcp_same seg seg' \<Longrightarrow> cn_seg_ok v seg'"
  by (auto simp: cn_seg_ok_def tx_seg_ok_def seg_of_stream_def tcp_same_def)

lemma ep_inv_same:
  assumes inv: "ep_inv e f" "ep_inv f e" and c: "cn_inv (ep_view e f) c"
  shows "ep_inv (e\<lparr>ep_conn := c\<rparr>) f \<and> ep_inv f (e\<lparr>ep_conn := c\<rparr>)"
proof -
  have "ep_view (e\<lparr>ep_conn := c\<rparr>) f = ep_view e f" "ep_view f (e\<lparr>ep_conn := c\<rparr>) = ep_view f e"
    using cn_invD [OF c] by (simp_all add: ep_view_def)
  then show ?thesis
    using inv c cn_invD [OF c] by (simp add: ep_inv_def) (simp add: ep_view_def)
qed

lemma ep_inv_step:
  assumes "ep_step end_key f e e'" and inv: "ep_inv e f" "ep_inv f e" and key: "end_key_ok end_key"
  shows "ep_inv e' f \<and> ep_inv f e'"
proof -
  have cn: "cn_inv (ep_view e f) (ep_conn e)"
    using inv(1) by (simp add: ep_inv_def)
  note same = ep_inv_same [OF inv]
  from assms(1) show ?thesis
  proof cases
    case (connect c)
    then show ?thesis
      using same cn_inv_connect [OF cn] by (auto simp: cn_ok_def)
  next
    case (tick ms c)
    then show ?thesis
      using same cn_inv_tick_op [OF cn, of ms] by (auto simp: cn_ok_def)
  next
    case (deliver seg seg' c)
    have "cn_seg_ok (ep_view f e) seg'"
      using inv(2) deliver(2,3) by (auto simp: ep_inv_def intro: cn_seg_ok_same)
    then obtain k where "tx_seg_ok (cv_peer (ep_view e f)) (cv_peer_ended (ep_view e f)) (cv_peer_isn (ep_view e f)) k seg'"
      by (auto simp: cn_seg_ok_def ep_view_def)
    then have "cn_ok (ep_view e f) (TCPConnection_segment_received end_key seg' (ep_conn e))"
      using inv by (intro cn_inv_segment_received [OF _ key]) (auto simp: ep_inv_def ep_view_def)
    then show ?thesis
      using same deliver by (auto simp: cn_ok_def)
  next
    case (end_input c)
    have c: "cn_inv ((ep_view e f)\<lparr>cv_ended := True\<rparr>) c"
      using inv end_input cn_inv_end_input_stream [of "ep_view e f" "ep_conn e"] by (auto simp: ep_inv_def cn_ok_def)
    have v: "ep_view e' f = (ep_view e f)\<lparr>cv_ended := True\<rparr>" "ep_view f e' = (ep_view f e)\<lparr>cv_peer_ended := True\<rparr>"
      using cn_invD [OF c] end_input(1) by (simp_all add: ep_view_def)
    show ?thesis
      unfolding ep_inv_def v
      using inv c end_input(1) cn_invD(3) [OF c] cn_seg_ok_end cn_inv_peer_end [of "ep_view f e"]
      by (auto simp: ep_inv_def) (simp_all add: ep_view_def cn_seg_ok_def)
  next
    case (write_data data n c)
    have ne: "\<not> cv_ended (ep_view e f)" "\<not> cv_peer_ended (ep_view f e)"
      using write_data(2) by (simp_all add: ep_view_def)
    have c: "cn_inv ((ep_view e f)\<lparr>cv_written := cv_written (ep_view e f) @ take n data\<rparr>) c"
      using inv ne(1) write_data(3,4) cn_inv_write [of "ep_view e f" "ep_conn e" data]
      by (auto simp: ep_inv_def ep_view_def)
    have v: "ep_view e' f = (ep_view e f)\<lparr>cv_written := cv_written (ep_view e f) @ take n data\<rparr>"
      "ep_view f e' = (ep_view f e)\<lparr>cv_peer := cv_peer (ep_view f e) @ take n data\<rparr>"
      using cn_invD [OF c] write_data(1) by (simp_all add: ep_view_def)
    have "cn_inv ((ep_view f e)\<lparr>cv_peer := cv_peer (ep_view f e) @ take n data\<rparr>) (ep_conn f)"
      using inv ne(2) write_data(3) by (intro cn_inv_peer_write) (auto simp: ep_inv_def ep_view_def size_max_def)
    then show ?thesis
      unfolding ep_inv_def v
      using inv c write_data(1,3) cn_invD(3) [OF c] cn_seg_ok_write [OF _ ne(1)]
      by (auto simp: ep_inv_def prefix_def) (simp_all add: ep_view_def cn_seg_ok_def)
  next
    case (read_data n d r)
    obtain d' r' where r: "TCPReceiver_read n (cn_receiver (ep_conn e)) = Inr (d', r')"
      "excerpt (cv_peer (ep_view e f)) (cv_pos (ep_view e f)) (length d') = d'"
      "cv_pos (ep_view e f) + length d' \<le> length (cv_peer (ep_view e f))"
      "cn_inv ((ep_view e f)\<lparr>cv_pos := cv_pos (ep_view e f) + length d'\<rparr>) ((ep_conn e)\<lparr>cn_receiver := r'\<rparr>)"
      using inv(1) cn_inv_read [of "ep_view e f" "ep_conn e" n] by (auto simp: ep_inv_def)
    have [simp]: "d' = d" "r' = r"
      using r(1) read_data(2) by simp_all
    have v: "ep_view e' f = (ep_view e f)\<lparr>cv_pos := cv_pos (ep_view e f) + length d'\<rparr>" "ep_view f e' = ep_view f e"
      using cn_invD(3) [OF r(4)] read_data(1) by (simp_all add: ep_view_def)
    have "prefix (ep_read e @ d) (ep_written f)"
      using r(2) inv(1) by (auto simp: ep_inv_def ep_view_def excerpt_def prefix_def)
        (metis append_take_drop_id)
    then show ?thesis
      unfolding ep_inv_def v
      using inv r(4) read_data(1) cn_invD(3) [OF r(4)]
      by (auto simp: ep_inv_def) (simp_all add: ep_view_def cn_seg_ok_def)
  next
    case send
    have v: "ep_view e' f = ep_view e f" "ep_view f e' = ep_view f e"
      using send by (simp_all add: ep_view_def)
    show ?thesis
      unfolding ep_inv_def v using inv send by (auto simp: ep_inv_def cn_inv_def)
  qed
qed

lemma ep_inv_init:
  assumes "cfg_send_capacity cfg < size_max" and "cfg_recv_capacity cfg < 2 ^ 63"
  shows "ep_inv (ep_init random cfg) (ep_init random' cfg')"
proof -
  let ?s = "TCPSender_init random (cfg_send_capacity cfg) (cfg_rt_timeout cfg) (cfg_fixed_isn cfg)"
  let ?r = "TCPReceiver_init (cfg_recv_capacity cfg)"
  have [simp]: "rcv_pos ?r = 0" "rcv_cap ?r = cfg_recv_capacity cfg" "\<not> rcv_eof ?r"
    by (simp_all add: rcv_pos_def rcv_cap_def rcv_eof_def sr_consumed_def TCPReceiver_init_def
        StreamReassembler_init_def)
  have "rcv_inv [] isn ?r" for isn
    using assms(2) by (intro rcv_inv_init) (simp add: size_max_def)
  then show ?thesis
    using tx_inv_init [OF assms(1)] assms(2)
    by (simp add: ep_inv_def ep_view_def cn_inv_def ep_init_def TCPConnection_init_def)
qed

lemma pair_reachable_inv:
  assumes "pair_reachable end_key p q" and "end_key_ok end_key"
    and "ep_inv (fst p) (snd p)" and "ep_inv (snd p) (fst p)"
  shows "ep_inv (fst q) (snd q) \<and> ep_inv (snd q) (fst q)"
  using assms(1)
proof induction
  case start
  then show ?case
    using assms(3,4) by simp
next
  case (step q q')
  obtain e f where "q = (e, f)"
    by fastforce
  with step show ?case
    using ep_inv_step [OF _ _ _ assms(2)] by (auto elim!: pair_stepE)
qed

definition pair_init :: "32 word \<Rightarrow> TCPConfig \<Rightarrow> 32 word \<Rightarrow> TCPConfig \<Rightarrow> endpoint \<times> endpoint" where
  "pair_init ra ca rb cb = (ep_init ra ca, ep_init rb cb)"

definition cfg_ok :: "TCPConfig \<Rightarrow> bool" where
  "cfg_ok cfg \<longleftrightarrow> cfg_send_capacity cfg < 2 ^ 63 \<and> cfg_recv_capacity cfg < 2 ^ 63"

lemma pair_run_inv:
  assumes "pair_reachable end_key (pair_init ra ca rb cb) (e, f)" and "end_key_ok end_key"
    and "cfg_ok ca" and "cfg_ok cb"
  shows "ep_inv e f" and "ep_inv f e"
  using pair_reachable_inv [OF assms(1,2)] assms(3,4) ep_inv_init
  by (simp_all add: pair_init_def cfg_ok_def size_max_def)

lemma ep_inv_delivered:
  assumes "ep_inv e f"
  defines "b \<equiv> TCPConnection_inbound_stream (ep_conn e)"
  shows "prefix (ep_read e @ ByteStream_contents b) (ep_written f)"
    and "ByteStream_input_ended b \<Longrightarrow> ep_ended f \<and> ep_read e @ ByteStream_contents b = ep_written f"
proof -
  let ?v = "ep_view e f"
  have cn: "cn_inv ?v (ep_conn e)" and "prefix (ep_read e) (ep_written f)"
    using assms(1) by (simp_all add: ep_inv_def)
  then have rd: "take (length (ep_read e)) (ep_written f) = ep_read e"
    by (auto simp: prefix_def)
  have b: "ep_read e @ ByteStream_contents b =
      take (length (ep_read e) + length (ByteStream_contents b)) (ep_written f)"
    using cn_inv_delivered(1) [OF cn] by (simp add: b_def ep_view_def rd)
  show "prefix (ep_read e @ ByteStream_contents b) (ep_written f)"
    unfolding b by (rule take_is_prefix)
  assume "ByteStream_input_ended b"
  then have "ep_ended f" "length (ep_read e) + length (ByteStream_contents b) = length (ep_written f)"
    using cn_inv_delivered(3) [OF cn] by (simp_all add: b_def ep_view_def)
  then show "ep_ended f \<and> ep_read e @ ByteStream_contents b = ep_written f"
    unfolding b by simp
qed

text \<open>No call on an endpoint throws.\<close>

lemma ep_inv_total:
  assumes "ep_inv e f" "ep_inv f e" and key: "end_key_ok end_key"
  shows "\<exists>c. TCPConnection_connect (ep_conn e) = Inr c" and "\<exists>c. TCPConnection_tick ms (ep_conn e) = Inr c"
    and "\<exists>c. TCPConnection_end_input_stream (ep_conn e) = Inr c"
    and "\<exists>d r. TCPReceiver_read n (cn_receiver (ep_conn e)) = Inr (d, r)"
    and "\<not> ep_ended e \<Longrightarrow> length (ep_written e @ data) + 2 < 2 ^ 31 \<Longrightarrow>
      \<exists>n c. TCPConnection_write data (ep_conn e) = Inr (n, c)"
    and "seg \<in> set (ep_sent f) \<Longrightarrow> tcp_same seg seg' \<Longrightarrow>
      \<exists>c. TCPConnection_segment_received end_key seg' (ep_conn e) = Inr c"
    and "\<exists>st. TCPConnection_state (ep_conn e) = Inr st"
proof -
  have cn: "cn_inv (ep_view e f) (ep_conn e)"
    using assms(1) by (simp add: ep_inv_def)
  show "\<exists>c. TCPConnection_connect (ep_conn e) = Inr c" "\<exists>c. TCPConnection_tick ms (ep_conn e) = Inr c"
    "\<exists>c. TCPConnection_end_input_stream (ep_conn e) = Inr c"
    "\<exists>d r. TCPReceiver_read n (cn_receiver (ep_conn e)) = Inr (d, r)"
    using cn_inv_connect [OF cn] cn_inv_tick_op [OF cn, of ms] cn_inv_end_input_stream [OF cn] cn_inv_read [OF cn, of n]
    by (auto simp: cn_ok_def)
  show "\<exists>st. TCPConnection_state (ep_conn e) = Inr st"
    using cn_inv_ackno [OF cn]
    by (auto simp: TCPConnection_state_def TCPState_of_def state_summary_receiver_def)
  show "\<exists>n c. TCPConnection_write data (ep_conn e) = Inr (n, c)"
    if "\<not> ep_ended e" "length (ep_written e @ data) + 2 < 2 ^ 31"
    using cn_inv_write [OF cn, of data] that by (auto simp: ep_view_def)
  show "\<exists>c. TCPConnection_segment_received end_key seg' (ep_conn e) = Inr c"
    if "seg \<in> set (ep_sent f)" "tcp_same seg seg'"
  proof -
    have "cn_seg_ok (ep_view f e) seg'" "length (cv_peer (ep_view e f)) + 2 < 2 ^ 31"
      using assms(2) that cn_seg_ok_same by (auto simp: ep_inv_def ep_view_def)
    then show ?thesis
      using cn_inv_segment_received [OF cn key] by (fastforce simp: cn_seg_ok_def cn_ok_def ep_view_def)
  qed
qed

text \<open>A reachable pair in which something has been written.\<close>

lemma pair_example:
  "\<exists>e f. pair_reachable length (pair_init 0 TCPConfig_default 1 TCPConfig_default) (e, f) \<and>
    ep_written e = [7, 8] \<and> \<not> ep_ended f"
proof -
  let ?e = "ep_init 0 TCPConfig_default" and ?f = "ep_init 1 TCPConfig_default"
  have open_streams: "\<not> ep_ended (ep_init r TCPConfig_default)" for r
    by (simp add: ep_init_def TCPConnection_init_def TCPSender_init_def ByteStream_init_def ByteStream_input_ended_def)
  have inv: "ep_inv ?e ?f" "ep_inv ?f ?e"
    by (rule ep_inv_init;
        simp add: TCPConfig_default_def TCPConfig_DEFAULT_CAPACITY_def size_max_def)+
  have "length (ep_written ?e @ [7, 8]) + 2 < 2 ^ 31"
    by (simp add: ep_init_def)
  then obtain n c where c: "TCPConnection_write [7, 8] (ep_conn ?e) = Inr (n, c)"
    using ep_inv_total(5) [OF inv end_key_ok_length open_streams] by blast
  then have "n = 2"
    by (auto simp: TCPConnection_write_def Let_def bind_res_eq_Inr ep_init_def TCPConnection_init_def TCPSender_init_def
        TCPConfig_default_def TCPConfig_DEFAULT_CAPACITY_def ByteStream_write_def ByteStream_remaining_capacity_def
        ByteStream_init_def sub64_def size_max_def bufl.size_contents split: if_splits)
  have "ep_step length ?f ?e (?e\<lparr>ep_conn := c, ep_written := ep_written ?e @ take n [7, 8]\<rparr>)"
    using c open_streams by (intro ep_step.write_data) (simp_all add: ep_init_def)
  then have "pair_reachable length (?e, ?f) (?e\<lparr>ep_conn := c, ep_written := [7, 8]\<rparr>, ?f)"
    using \<open>n = 2\<close> by (intro pair_reachable.step [OF pair_reachable.start] pair_step.left) (simp add: ep_init_def)
  then show ?thesis
    using open_streams by (fastforce simp: pair_init_def)
qed

end
