(* ===== verification/TCP_Benchmark.thy ===== *)
theory TCP_Benchmark
  imports TCP_Pair
begin

text \<open>
  \<^verbatim>\<open>apps/tcp_benchmark.cc\<close>: two connections in one process that exchange their segments directly, in order
  or with the segments of one direction reversed, and a check that what arrived is what was sent. The
  random contents are an argument; the measurement of time is left out. A run is a sequence of steps of
  \<open>TCP_Pair\<close>, whose invariant shows that the check cannot fail.
\<close>

section \<open>The program\<close>

fun receive_all :: "(sr_map \<Rightarrow> size_t) \<Rightarrow> TCPSegment list \<Rightarrow> TCPConnection \<Rightarrow> TCPConnection res" where
  "receive_all end_key [] y = Inr y"
| "receive_all end_key (seg # segments) y =
     bind_res (TCPConnection_segment_received end_key seg y) (receive_all end_key segments)"

definition move_segments ::
  "(sr_map \<Rightarrow> size_t) \<Rightarrow> TCPConnection \<Rightarrow> TCPConnection \<Rightarrow> TCPSegment list \<Rightarrow> bool \<Rightarrow>
   (TCPConnection \<times> TCPConnection \<times> TCPSegment list) res" where
  "move_segments end_key x y segments reorder =
     (let segments = segments @ cn_segments_out x;
          x = x\<lparr>cn_segments_out := []\<rparr>
      in bind_res (receive_all end_key (if reorder then rev segments else segments) y) (\<lambda>y. Inr (x, y, [])))"

record benchmark =
  be_x :: TCPConnection
  be_y :: TCPConnection
  be_bytes_to_send :: Buffer
  be_x_closed :: bool
  be_string_received :: bytes

definition benchmark_init :: "32 word \<Rightarrow> 32 word \<Rightarrow> bytes \<Rightarrow> benchmark res" where
  "benchmark_init random_x random_y string_to_send =
     bind_res (TCPConnection_connect (TCPConnection_init random_x TCPConfig_default)) (\<lambda>x.
     bind_res (TCPConnection_end_input_stream (TCPConnection_init random_y TCPConfig_default)) (\<lambda>y.
       Inr \<lparr>be_x = x, be_y = y, be_bytes_to_send = Buffer_of_string string_to_send, be_x_closed = False,
            be_string_received = []\<rparr>))"

function write_input :: "Buffer \<Rightarrow> TCPConnection \<Rightarrow> (Buffer \<times> TCPConnection) res" where
  "write_input bytes_to_send x =
     (if Buffer_size bytes_to_send \<noteq> 0 \<and> TCPConnection_remaining_outbound_capacity x \<noteq> 0 then
        let want = min (TCPConnection_remaining_outbound_capacity x) (Buffer_size bytes_to_send)
        in bind_res (TCPConnection_write (take want (Buffer_str bytes_to_send)) x) (\<lambda>(written, x).
             if want \<noteq> written then Inl RuntimeError
             else bind_res (Buffer_remove_prefix written bytes_to_send) (\<lambda>bytes_to_send. write_input bytes_to_send x))
      else Inr (bytes_to_send, x))"
  by pat_completeness auto

lemma Buffer_remove_prefix_str: "Buffer_remove_prefix n b = Inr b' \<Longrightarrow> Buffer_str b' = drop n (Buffer_str b)"
  by (auto simp: Buffer_remove_prefix_def Buffer_str_def Let_def add.commute split: if_splits option.splits)

lemma Buffer_remove_prefix_Inr: "n \<le> Buffer_size b \<Longrightarrow> \<exists>b'. Buffer_remove_prefix n b = Inr b'"
  by (auto simp: Buffer_remove_prefix_def Buffer_size_def Let_def split: option.splits)

termination write_input
proof (relation "measure (Buffer_size \<circ> fst)")
qed (auto simp: Buffer_size_def dest!: Buffer_remove_prefix_str)

declare write_input.simps [simp del]

definition close_input :: "Buffer \<Rightarrow> bool \<Rightarrow> TCPConnection \<Rightarrow> (TCPConnection \<times> bool) res" where
  "close_input bytes_to_send x_closed x =
     (if Buffer_size bytes_to_send = 0 \<and> \<not> x_closed
      then bind_res (TCPConnection_end_input_stream x) (\<lambda>x. Inr (x, True)) else Inr (x, x_closed))"

definition read_output :: "bytes \<Rightarrow> TCPConnection \<Rightarrow> (bytes \<times> TCPConnection) res" where
  "read_output string_received y =
     (let available_output = ByteStream_buffer_size (TCPConnection_inbound_stream y)
      in if available_output > 0
         then bind_res (TCPReceiver_read available_output (cn_receiver y)) (\<lambda>(d, r).
                Inr (string_received @ d, y\<lparr>cn_receiver := r\<rparr>))
         else Inr (string_received, y))"

definition benchmark_loop :: "(sr_map \<Rightarrow> size_t) \<Rightarrow> bool \<Rightarrow> benchmark \<Rightarrow> benchmark res" where
  "benchmark_loop end_key reorder b =
     bind_res (write_input (be_bytes_to_send b) (be_x b)) (\<lambda>(bytes_to_send, x).
     bind_res (close_input bytes_to_send (be_x_closed b) x) (\<lambda>(x, x_closed).
     bind_res (move_segments end_key x (be_y b) [] reorder) (\<lambda>(x, y, segments).
     bind_res (move_segments end_key y x segments False) (\<lambda>(y, x, segments).
     bind_res (read_output (be_string_received b) y) (\<lambda>(string_received, y).
     bind_res (TCPConnection_tick 1000 x) (\<lambda>x.
     bind_res (TCPConnection_tick 1000 y) (\<lambda>y.
       Inr \<lparr>be_x = x, be_y = y, be_bytes_to_send = bytes_to_send, be_x_closed = x_closed,
            be_string_received = string_received\<rparr>)))))))"

text \<open>The loop until a condition holds, and the whole run.\<close>

partial_function (option) loop_while ::
  "(benchmark \<Rightarrow> bool) \<Rightarrow> (benchmark \<Rightarrow> benchmark res) \<Rightarrow> benchmark \<Rightarrow> benchmark res option" where
  "loop_while continues loop b =
     (if continues b then (case loop b of Inl e \<Rightarrow> Some (Inl e) | Inr b' \<Rightarrow> loop_while continues loop b')
      else Some (Inr b))"

definition benchmark_main_loop ::
  "(sr_map \<Rightarrow> size_t) \<Rightarrow> 32 word \<Rightarrow> 32 word \<Rightarrow> bytes \<Rightarrow> bool \<Rightarrow> benchmark res option" where
  "benchmark_main_loop end_key random_x random_y string_to_send reorder =
     (case benchmark_init random_x random_y string_to_send of
        Inl e \<Rightarrow> Some (Inl e)
      | Inr b \<Rightarrow>
          (case loop_while (\<lambda>b. \<not> ByteStream_eof (TCPConnection_inbound_stream (be_y b)))
                  (benchmark_loop end_key reorder) b of
             Some (Inr b) \<Rightarrow>
               if be_string_received b \<noteq> string_to_send then Some (Inl RuntimeError)
               else loop_while (\<lambda>b. TCPConnection_active (be_x b) \<or> TCPConnection_active (be_y b))
                      (benchmark_loop end_key reorder) b
           | r \<Rightarrow> r))"

section \<open>A run as steps of two endpoints\<close>

definition be_abs :: "bytes \<Rightarrow> benchmark \<Rightarrow> endpoint \<Rightarrow> endpoint \<Rightarrow> bool" where
  "be_abs str b e f \<longleftrightarrow>
     ep_inv e f \<and> ep_inv f e \<and> ep_conn e = be_x b \<and> ep_conn f = be_y b \<and>
     ep_written e @ Buffer_str (be_bytes_to_send b) = str \<and>
     ep_ended e = be_x_closed b \<and> (be_x_closed b \<longrightarrow> Buffer_str (be_bytes_to_send b) = []) \<and>
     ep_read f = be_string_received b"

text \<open>What one endpoint keeps of itself while it takes segments or sends them.\<close>

definition ep_keeps :: "endpoint \<Rightarrow> endpoint \<Rightarrow> bool" where
  "ep_keeps e e' \<longleftrightarrow>
     ep_written e' = ep_written e \<and> ep_read e' = ep_read e \<and> ep_ended e' = ep_ended e \<and> set (ep_sent e) \<subseteq> set (ep_sent e')"

lemma ep_keeps_refl [simp]: "ep_keeps e e"
  by (simp add: ep_keeps_def)

lemma ep_keeps_trans [trans]: "ep_keeps a b \<Longrightarrow> ep_keeps b c \<Longrightarrow> ep_keeps a c"
  by (auto simp: ep_keeps_def)

lemma ep_keeps_conn:
  assumes "ep_inv (e\<lparr>ep_conn := c\<rparr>) f" and "cn_inv (ep_view e f) c"
  shows "ep_keeps e (e\<lparr>ep_conn := c\<rparr>)"
  using cn_invD(2) [OF assms(2)] by (simp add: ep_keeps_def ep_view_def)

lemma ep_receive_one:
  assumes inv: "ep_inv e f" "ep_inv f e" and key: "end_key_ok end_key" and seg: "seg \<in> set (ep_sent f)"
  shows "\<exists>c. TCPConnection_segment_received end_key seg (ep_conn e) = Inr c \<and>
    ep_inv (e\<lparr>ep_conn := c\<rparr>) f \<and> ep_inv f (e\<lparr>ep_conn := c\<rparr>) \<and> ep_keeps e (e\<lparr>ep_conn := c\<rparr>)"
proof -
  have cn: "cn_inv (ep_view e f) (ep_conn e)"
    using inv(1) by (simp add: ep_inv_def)
  have "cn_seg_ok (ep_view f e) seg" "length (cv_peer (ep_view e f)) + 2 < 2 ^ 31"
    using inv(2) seg by (auto simp: ep_inv_def ep_view_def)
  then obtain c where c: "TCPConnection_segment_received end_key seg (ep_conn e) = Inr c" "cn_inv (ep_view e f) c"
    using cn_inv_segment_received [OF cn key] by (fastforce simp: cn_seg_ok_def cn_ok_def ep_view_def)
  then show ?thesis
    using ep_inv_same [OF inv c(2)] ep_keeps_conn [OF _ c(2)] by auto
qed

lemma ep_receive_all:
  assumes "ep_inv e f" "ep_inv f e" and "end_key_ok end_key" and "set segs \<subseteq> set (ep_sent f)"
  shows "\<exists>c. receive_all end_key segs (ep_conn e) = Inr c \<and>
    ep_inv (e\<lparr>ep_conn := c\<rparr>) f \<and> ep_inv f (e\<lparr>ep_conn := c\<rparr>) \<and> ep_keeps e (e\<lparr>ep_conn := c\<rparr>)"
  using assms
proof (induction segs arbitrary: e)
  case (Cons seg segs)
  obtain c where c: "TCPConnection_segment_received end_key seg (ep_conn e) = Inr c" "ep_inv (e\<lparr>ep_conn := c\<rparr>) f"
    "ep_inv f (e\<lparr>ep_conn := c\<rparr>)" "ep_keeps e (e\<lparr>ep_conn := c\<rparr>)"
    using ep_receive_one [OF Cons.prems(1-3), of seg] Cons.prems(4) by auto
  then show ?case
    using Cons.IH [OF c(2,3) Cons.prems(3)] Cons.prems(4) ep_keeps_trans [OF c(4)] by auto
qed simp

lemma ep_move_segments:
  assumes inv: "ep_inv e f" "ep_inv f e" and key: "end_key_ok end_key"
  shows "\<exists>e' f'. move_segments end_key (ep_conn e) (ep_conn f) [] reorder = Inr (ep_conn e', ep_conn f', []) \<and>
    ep_inv e' f' \<and> ep_inv f' e' \<and> ep_keeps e e' \<and> ep_keeps f f'"
proof -
  let ?segs = "cn_segments_out (ep_conn e)"
  have segs: "set (if reorder then rev ?segs else ?segs) = set ?segs"
    by simp
  let ?e = "e\<lparr>ep_conn := (ep_conn e)\<lparr>cn_segments_out := []\<rparr>, ep_sent := ep_sent e @ ?segs\<rparr>"
  have e: "ep_inv ?e f" "ep_inv f ?e"
    using ep_inv_step [OF ep_step.send inv key] by simp_all
  obtain c where c: "receive_all end_key (if reorder then rev ?segs else ?segs) (ep_conn f) = Inr c"
    "ep_inv (f\<lparr>ep_conn := c\<rparr>) ?e" "ep_inv ?e (f\<lparr>ep_conn := c\<rparr>)" "ep_keeps f (f\<lparr>ep_conn := c\<rparr>)"
    using ep_receive_all [OF e(2,1) key, of "if reorder then rev ?segs else ?segs"] segs by force
  moreover have "ep_keeps e ?e"
    by (simp add: ep_keeps_def)
  ultimately show ?thesis
    by (intro exI [of _ ?e] exI [of _ "f\<lparr>ep_conn := c\<rparr>"]) (simp add: move_segments_def Let_def)
qed

lemma ep_tick:
  assumes inv: "ep_inv e f" "ep_inv f e"
  shows "\<exists>c. TCPConnection_tick ms (ep_conn e) = Inr c \<and>
    ep_inv (e\<lparr>ep_conn := c\<rparr>) f \<and> ep_inv f (e\<lparr>ep_conn := c\<rparr>) \<and> ep_keeps e (e\<lparr>ep_conn := c\<rparr>)"
proof -
  have "cn_inv (ep_view e f) (ep_conn e)"
    using inv(1) by (simp add: ep_inv_def)
  then obtain c where c: "TCPConnection_tick ms (ep_conn e) = Inr c" "cn_inv (ep_view e f) c"
    using cn_inv_tick_op [of "ep_view e f" "ep_conn e" ms] by (auto simp: cn_ok_def)
  then show ?thesis
    using ep_inv_same [OF inv c(2)] ep_keeps_conn [OF _ c(2)] by auto
qed

text \<open>The application's writes: everything wanted is written.\<close>

lemma ep_write_input:
  assumes "ep_inv e f" "ep_inv f e" and "end_key_ok end_key" and "Buffer_str bytes \<noteq> [] \<longrightarrow> \<not> ep_ended e"
    and "length (ep_written e @ Buffer_str bytes) + 2 < 2 ^ 31"
  shows "\<exists>bytes' e'. write_input bytes (ep_conn e) = Inr (bytes', ep_conn e') \<and> ep_inv e' f \<and> ep_inv f e' \<and>
    ep_written e' @ Buffer_str bytes' = ep_written e @ Buffer_str bytes \<and> ep_ended e' = ep_ended e \<and>
    (ep_ended e' \<longrightarrow> Buffer_str bytes' = [])"
  using assms
proof (induction "Buffer_size bytes" arbitrary: bytes e rule: less_induct)
  case less
  let ?x = "ep_conn e"
  define want where "want = min (TCPConnection_remaining_outbound_capacity ?x) (Buffer_size bytes)"
  show ?case
  proof (cases "Buffer_size bytes \<noteq> 0 \<and> TCPConnection_remaining_outbound_capacity ?x \<noteq> 0")
    case True
    let ?data = "take want (Buffer_str bytes)"
    have want: "0 < want" "want \<le> length (Buffer_str bytes)" "want \<le> TCPConnection_remaining_outbound_capacity ?x"
      using True by (auto simp: want_def Buffer_size_def)
    have "\<not> ep_ended e" "length (ep_written e @ ?data) + 2 < 2 ^ 31"
      using less.prems(4,5) True want(2) by (auto simp: Buffer_size_def)
    then obtain n c where c: "TCPConnection_write ?data ?x = Inr (n, c)"
      and cn: "cn_inv ((ep_view e f)\<lparr>cv_written := cv_written (ep_view e f) @ take n ?data\<rparr>) c"
      using cn_inv_write [of "ep_view e f" ?x ?data] less.prems(1) by (auto simp: ep_inv_def ep_view_def)
    then have n: "n = want"
      using want by (auto simp: TCPConnection_write_def Let_def bind_res_eq_Inr ByteStream_write_def
          TCPConnection_remaining_outbound_capacity_def split: if_splits)
    let ?e = "e\<lparr>ep_conn := c, ep_written := ep_written e @ ?data\<rparr>"
    have "ep_step end_key f e (e\<lparr>ep_conn := c, ep_written := ep_written e @ take n ?data\<rparr>)"
      using c \<open>\<not> ep_ended e\<close> \<open>length (ep_written e @ ?data) + 2 < 2 ^ 31\<close> by (intro ep_step.write_data)
    then have e: "ep_inv ?e f" "ep_inv f ?e"
      using ep_inv_step [OF _ less.prems(1-3)] n by simp_all
    obtain rest where rest: "Buffer_remove_prefix want bytes = Inr rest"
      using Buffer_remove_prefix_Inr [of want bytes] want(2) by (auto simp: Buffer_size_def)
    have str: "Buffer_str rest = drop want (Buffer_str bytes)"
      using rest by (rule Buffer_remove_prefix_str)
    have ended: "ep_ended ?e = ep_ended e"
      using cn_invD(2) [OF cn] by (simp add: ep_view_def)
    have "\<exists>bytes' e'. write_input rest (ep_conn ?e) = Inr (bytes', ep_conn e') \<and> ep_inv e' f \<and> ep_inv f e' \<and>
        ep_written e' @ Buffer_str bytes' = ep_written ?e @ Buffer_str rest \<and> ep_ended e' = ep_ended ?e \<and>
        (ep_ended e' \<longrightarrow> Buffer_str bytes' = [])"
      using want ended \<open>\<not> ep_ended e\<close> less.prems(5) str
      by (intro less.hyps e less.prems(3)) (auto simp: Buffer_size_def)
    then obtain bytes' e' where e': "write_input rest c = Inr (bytes', ep_conn e')" "ep_inv e' f" "ep_inv f e'"
      "ep_written e' @ Buffer_str bytes' = ep_written e @ ?data @ Buffer_str rest" "ep_ended e' = ep_ended ?e" "ep_ended e' \<longrightarrow> Buffer_str bytes' = []"
      by auto
    have "write_input bytes ?x = Inr (bytes', ep_conn e')"
      using True c rest e'(1) n by (subst write_input.simps) (simp add: want_def)
    then show ?thesis
      using e' ended str by (intro exI [of _ bytes'] exI [of _ e']) simp
  next
    case False
    then show ?thesis
      using less.prems(1,2,4) by (subst write_input.simps) auto
  qed
qed

lemma ep_end_input:
  assumes inv: "ep_inv e f" "ep_inv f e" and key: "end_key_ok end_key"
  shows "\<exists>e'. TCPConnection_end_input_stream (ep_conn e) = Inr (ep_conn e') \<and> ep_inv e' f \<and> ep_inv f e' \<and>
    ep_written e' = ep_written e \<and> ep_ended e'"
proof -
  have "cn_inv (ep_view e f) (ep_conn e)"
    using inv(1) by (simp add: ep_inv_def)
  then obtain c where c: "TCPConnection_end_input_stream (ep_conn e) = Inr c" "cn_inv ((ep_view e f)\<lparr>cv_ended := True\<rparr>) c"
    using cn_inv_end_input_stream [of "ep_view e f" "ep_conn e"] by (auto simp: cn_ok_def)
  then show ?thesis
    using ep_inv_step [OF ep_step.end_input [OF c(1)] inv key] cn_invD(2) [OF c(2)]
    by (intro exI [of _ "e\<lparr>ep_conn := c\<rparr>"]) simp
qed

lemma ep_close_input:
  assumes inv: "ep_inv e f" "ep_inv f e" and key: "end_key_ok end_key" and "ep_ended e \<longrightarrow> Buffer_str bytes = []"
  shows "\<exists>e' closed. close_input bytes (ep_ended e) (ep_conn e) = Inr (ep_conn e', closed) \<and> ep_inv e' f \<and> ep_inv f e' \<and>
    ep_written e' = ep_written e \<and> ep_ended e' = closed \<and> (closed \<longrightarrow> Buffer_str bytes = [])"
proof (cases "Buffer_size bytes = 0 \<and> \<not> ep_ended e")
  case True
  then obtain e' where "TCPConnection_end_input_stream (ep_conn e) = Inr (ep_conn e')" "ep_inv e' f" "ep_inv f e'"
    "ep_written e' = ep_written e" "ep_ended e'"
    using ep_end_input [OF inv key] by blast
  then show ?thesis
    using True by (intro exI [of _ e'] exI [of _ True]) (simp add: close_input_def Buffer_size_def)
next
  case False
  then have "close_input bytes (ep_ended e) (ep_conn e) = Inr (ep_conn e, ep_ended e)"
    unfolding close_input_def by (simp only: if_False)
  then show ?thesis
    using assms by blast
qed

lemma ep_read_output:
  assumes inv: "ep_inv e f" "ep_inv f e" and key: "end_key_ok end_key"
  shows "\<exists>f' received. read_output (ep_read f) (ep_conn f) = Inr (received, ep_conn f') \<and>
    ep_inv e f' \<and> ep_inv f' e \<and> ep_read f' = received"
proof (cases "ByteStream_buffer_size (TCPConnection_inbound_stream (ep_conn f)) > 0")
  case True
  let ?n = "ByteStream_buffer_size (TCPConnection_inbound_stream (ep_conn f))"
  obtain d r where r: "TCPReceiver_read ?n (cn_receiver (ep_conn f)) = Inr (d, r)"
    using ep_inv_total(4) [OF inv(2,1) key] by blast
  then show ?thesis
    using ep_inv_step [OF ep_step.read_data [OF r] inv(2,1) key] True
    by (intro exI [of _ "f\<lparr>ep_conn := (ep_conn f)\<lparr>cn_receiver := r\<rparr>, ep_read := ep_read f @ d\<rparr>"])
      (simp add: read_output_def Let_def)
next
  case False
  then show ?thesis
    using inv by (intro exI [of _ f]) (simp add: read_output_def Let_def)
qed

text \<open>One round keeps the abstraction and throws nothing.\<close>

lemma benchmark_loop_abs:
  assumes abs: "be_abs str b e f" and key: "end_key_ok end_key" and len: "length str + 2 < 2 ^ 31"
  shows "\<exists>b' e' f'. benchmark_loop end_key reorder b = Inr b' \<and> be_abs str b' e' f'"
proof -
  have b: "ep_inv e f" "ep_inv f e" "ep_conn e = be_x b" "ep_conn f = be_y b"
    "ep_written e @ Buffer_str (be_bytes_to_send b) = str" "ep_ended e = be_x_closed b"
    "be_x_closed b \<longrightarrow> Buffer_str (be_bytes_to_send b) = []" "ep_read f = be_string_received b"
    using abs unfolding be_abs_def by blast+
  have "length (ep_written e @ Buffer_str (be_bytes_to_send b)) + 2 < 2 ^ 31" "Buffer_str (be_bytes_to_send b) \<noteq> [] \<longrightarrow> \<not> ep_ended e"
    using b(5-7) len by auto
  then obtain bytes e1 where e1: "write_input (be_bytes_to_send b) (be_x b) = Inr (bytes, ep_conn e1)"
    "ep_inv e1 f" "ep_inv f e1" "ep_written e1 @ Buffer_str bytes = str" "ep_ended e1 = be_x_closed b"
    "ep_ended e1 \<longrightarrow> Buffer_str bytes = []"
    using ep_write_input [OF b(1,2) key, of "be_bytes_to_send b"] b(6) unfolding b(3,5) by blast
  obtain e2 closed where e2: "close_input bytes (be_x_closed b) (ep_conn e1) = Inr (ep_conn e2, closed)"
    "ep_inv e2 f" "ep_inv f e2" "ep_written e2 = ep_written e1" "ep_ended e2 = closed" "closed \<longrightarrow> Buffer_str bytes = []"
    using ep_close_input [OF e1(2,3) key e1(6)] e1(5) by auto
  obtain e3 f3 where f3: "move_segments end_key (ep_conn e2) (ep_conn f) [] reorder = Inr (ep_conn e3, ep_conn f3, [])"
    "ep_inv e3 f3" "ep_inv f3 e3" "ep_keeps e2 e3" "ep_keeps f f3"
    using ep_move_segments [OF e2(2,3) key] by blast
  obtain f4 e4 where e4: "move_segments end_key (ep_conn f3) (ep_conn e3) [] False = Inr (ep_conn f4, ep_conn e4, [])"
    "ep_inv f4 e4" "ep_inv e4 f4" "ep_keeps f3 f4" "ep_keeps e3 e4"
    using ep_move_segments [OF f3(3,2) key] by blast
  have "ep_read f4 = be_string_received b"
    using f3(5) e4(4) b(8) by (simp add: ep_keeps_def)
  then obtain f5 received where f5: "read_output (be_string_received b) (ep_conn f4) = Inr (received, ep_conn f5)"
    "ep_inv e4 f5" "ep_inv f5 e4" "ep_read f5 = received"
    using ep_read_output [OF e4(3,2) key] by auto
  obtain c6 where c6: "TCPConnection_tick 1000 (ep_conn e4) = Inr c6" "ep_inv (e4\<lparr>ep_conn := c6\<rparr>) f5"
    "ep_inv f5 (e4\<lparr>ep_conn := c6\<rparr>)" "ep_keeps e4 (e4\<lparr>ep_conn := c6\<rparr>)"
    using ep_tick [OF f5(2,3)] by blast
  obtain c7 where c7: "TCPConnection_tick 1000 (ep_conn f5) = Inr c7" "ep_inv (f5\<lparr>ep_conn := c7\<rparr>) (e4\<lparr>ep_conn := c6\<rparr>)"
    "ep_inv (e4\<lparr>ep_conn := c6\<rparr>) (f5\<lparr>ep_conn := c7\<rparr>)"
    using ep_tick [OF c6(3,2)] by blast
  let ?b = "\<lparr>be_x = c6, be_y = c7, be_bytes_to_send = bytes, be_x_closed = closed, be_string_received = received\<rparr>"
  have "benchmark_loop end_key reorder b = Inr ?b"
    using e1(1) e2(1) f3(1) e4(1) f5(1) c6(1) c7(1) b(4) by (simp add: benchmark_loop_def)
  moreover have "be_abs str ?b (e4\<lparr>ep_conn := c6\<rparr>) (f5\<lparr>ep_conn := c7\<rparr>)"
    using c7 c6(4) e1(4) e2(4,5,6) f3(4) e4(5) f5(4) by (simp add: be_abs_def ep_keeps_def)
  ultimately show ?thesis
    by blast
qed

lemma benchmark_init_abs:
  "end_key_ok end_key \<Longrightarrow> \<exists>b e f. benchmark_init rx ry str = Inr b \<and> be_abs str b e f"
proof -
  assume key: "end_key_ok end_key"
  let ?e = "ep_init rx TCPConfig_default" and ?f = "ep_init ry TCPConfig_default"
  have inv: "ep_inv ?e ?f" "ep_inv ?f ?e"
    by (rule ep_inv_init; simp add: TCPConfig_default_def TCPConfig_DEFAULT_CAPACITY_def size_max_def)+
  have "\<not> ep_ended ?e"
    by (simp add: ep_init_def TCPConnection_init_def TCPSender_init_def ByteStream_init_def ByteStream_input_ended_def)
  have "cn_inv (ep_view ?e ?f) (ep_conn ?e)"
    using inv(1) by (simp add: ep_inv_def)
  then obtain c where c: "TCPConnection_connect (ep_conn ?e) = Inr c" "cn_inv (ep_view ?e ?f) c"
    using cn_inv_connect [of "ep_view ?e ?f" "ep_conn ?e"] by (auto simp: cn_ok_def)
  then have e: "ep_inv (?e\<lparr>ep_conn := c\<rparr>) ?f" "ep_inv ?f (?e\<lparr>ep_conn := c\<rparr>)" "ep_keeps ?e (?e\<lparr>ep_conn := c\<rparr>)"
    using ep_inv_same [OF inv c(2)] ep_keeps_conn [OF _ c(2)] by auto
  obtain c' where c': "TCPConnection_end_input_stream (ep_conn ?f) = Inr c'"
    using ep_inv_total(3) [OF inv(2,1) key] by blast
  have f: "ep_inv (?f\<lparr>ep_conn := c'\<rparr>) (?e\<lparr>ep_conn := c\<rparr>)" "ep_inv (?e\<lparr>ep_conn := c\<rparr>) (?f\<lparr>ep_conn := c'\<rparr>)"
    using ep_inv_step [OF ep_step.end_input [OF c'] e(2,1) key] by simp_all
  let ?b = "\<lparr>be_x = c, be_y = c', be_bytes_to_send = Buffer_of_string str, be_x_closed = False, be_string_received = []\<rparr>"
  have "benchmark_init rx ry str = Inr ?b"
    using c(1) c' by (simp add: benchmark_init_def ep_init_def)
  moreover have "be_abs str ?b (?e\<lparr>ep_conn := c\<rparr>) (?f\<lparr>ep_conn := c'\<rparr>)"
    using f e(3) \<open>\<not> ep_ended ?e\<close>
    by (simp add: be_abs_def ep_keeps_def) (simp add: ep_init_def Buffer_of_string_def Buffer_str_def)
  ultimately show ?thesis
    by blast
qed

section \<open>The check of the benchmark cannot fail\<close>

definition be_inv :: "bytes \<Rightarrow> benchmark \<Rightarrow> bool" where
  "be_inv str b \<longleftrightarrow> (\<exists>e f. be_abs str b e f)"

lemma be_inv_received:
  assumes "be_inv str b"
  shows "prefix (be_string_received b) str"
    and "ByteStream_eof (TCPConnection_inbound_stream (be_y b)) \<Longrightarrow> be_string_received b = str"
proof -
  obtain e f where b: "ep_inv f e" "ep_conn f = be_y b" "ep_written e @ Buffer_str (be_bytes_to_send b) = str"
    "ep_ended e = be_x_closed b" "be_x_closed b \<longrightarrow> Buffer_str (be_bytes_to_send b) = []" "ep_read f = be_string_received b"
    using assms unfolding be_inv_def be_abs_def by blast
  have "prefix (ep_read f) (ep_written e)"
    using b(1) by (simp add: ep_inv_def)
  then show "prefix (be_string_received b) str"
    using b(3,6) by (metis prefix_prefix)
  assume eof: "ByteStream_eof (TCPConnection_inbound_stream (be_y b))"
  then have "ByteStream_input_ended (TCPConnection_inbound_stream (be_y b))"
    "ByteStream_contents (TCPConnection_inbound_stream (be_y b)) = []"
    by (auto simp: ByteStream_eof_def ByteStream_buffer_empty_iff)
  then show "be_string_received b = str"
    using ep_inv_delivered(2) [OF b(1)] b by auto
qed

fun benchmark_rounds :: "(sr_map \<Rightarrow> size_t) \<Rightarrow> bool \<Rightarrow> nat \<Rightarrow> benchmark \<Rightarrow> benchmark res" where
  "benchmark_rounds end_key reorder 0 b = Inr b"
| "benchmark_rounds end_key reorder (Suc n) b =
     bind_res (benchmark_loop end_key reorder b) (benchmark_rounds end_key reorder n)"

lemma be_inv_loop:
  assumes "be_inv str b" and "end_key_ok end_key" and "length str + 2 < 2 ^ 31"
  shows "\<exists>b'. benchmark_loop end_key reorder b = Inr b' \<and> be_inv str b'"
  using benchmark_loop_abs [OF _ assms(2,3)] assms(1) unfolding be_inv_def by meson

lemma be_inv_rounds:
  assumes "be_inv str b" and "end_key_ok end_key" and "length str + 2 < 2 ^ 31"
  shows "\<exists>b'. benchmark_rounds end_key reorder n b = Inr b' \<and> be_inv str b'"
  using assms
proof (induction n arbitrary: b)
  case (Suc n)
  obtain b1 where "benchmark_loop end_key reorder b = Inr b1" "be_inv str b1"
    using be_inv_loop [OF Suc.prems] by blast
  then show ?case
    using Suc.IH [of b1] Suc.prems(2,3) by simp
qed simp

lemma loop_while_inv:
  assumes "loop_while P loop b = Some m" and "I b" and "\<And>b. I b \<Longrightarrow> \<exists>b'. loop b = Inr b' \<and> I b'"
  shows "\<exists>b'. m = Inr b' \<and> I b' \<and> \<not> P b'"
proof -
  have "I b \<longrightarrow> (\<forall>c. I c \<longrightarrow> (\<exists>c'. loop c = Inr c' \<and> I c')) \<longrightarrow> (\<exists>c'. m = Inr c' \<and> I c' \<and> \<not> P c')"
    using assms(1)
  proof (rule loop_while.raw_induct [rotated, where P = "\<lambda>P loop b m. I b \<longrightarrow>
      (\<forall>c. I c \<longrightarrow> (\<exists>c'. loop c = Inr c' \<and> I c')) \<longrightarrow> (\<exists>c'. m = Inr c' \<and> I c' \<and> \<not> P c')"], intro impI)
    fix rec Q body c r
    assume IH: "\<And>Q body c r. rec Q body c = Some r \<Longrightarrow>
        I c \<longrightarrow> (\<forall>c. I c \<longrightarrow> (\<exists>c'. body c = Inr c' \<and> I c')) \<longrightarrow> (\<exists>c'. r = Inr c' \<and> I c' \<and> \<not> Q c')"
      and result: "(if Q c then case body c of Inl e \<Rightarrow> Some (Inl e) | Inr c' \<Rightarrow> rec Q body c' else Some (Inr c)) = Some r"
      and c: "I c" and body: "\<forall>c. I c \<longrightarrow> (\<exists>c'. body c = Inr c' \<and> I c')"
    obtain c' where c': "body c = Inr c'" "I c'"
      using body c by blast
    show "\<exists>c'. r = Inr c' \<and> I c' \<and> \<not> Q c'"
    proof (cases "Q c")
      case True
      then have "rec Q body c' = Some r"
        using result c'(1) by simp
      then show ?thesis
        using IH c'(2) body by blast
    next
      case False
      then show ?thesis
        using result c by auto
    qed
  qed
  then show ?thesis
    using assms(2,3) by blast
qed

lemma benchmark_main_loop_Inl:
  assumes b: "benchmark_init rx ry str = Inr b" "be_inv str b"
    and "end_key_ok end_key" and "length str + 2 < 2 ^ 31"
  shows "benchmark_main_loop end_key rx ry str reorder \<noteq> Some (Inl err)"
proof -
  have inv: "\<exists>b'. m = Inr b' \<and> be_inv str b' \<and> \<not> P b'"
    if "loop_while P (benchmark_loop end_key reorder) b = Some m" "be_inv str b" for P b m
    by (rule loop_while_inv [OF that(1), of "be_inv str", OF that(2)]) (rule be_inv_loop [OF _ assms(3,4)])
  let ?P = "\<lambda>b. \<not> ByteStream_eof (TCPConnection_inbound_stream (be_y b))" and ?loop = "benchmark_loop end_key reorder"
  show ?thesis
  proof (cases "loop_while ?P ?loop b")
    case None
    then show ?thesis
      using b(1) by (simp add: benchmark_main_loop_def)
  next
    case (Some m)
    then obtain b' where b': "m = Inr b'" "be_inv str b'" "be_string_received b' = str"
      using inv [OF Some b(2)] be_inv_received(2) by blast
    have "loop_while P ?loop b' \<noteq> Some (Inl err)" for P
      using inv [OF _ b'(2)] by blast
    then show ?thesis
      using b(1) Some b'(1,3) by (simp add: benchmark_main_loop_def)
  qed
qed

text \<open>
  C34. The benchmark of two connections that exchange segments in one process, in order or with one
  direction reversed, for every string of less than \<open>2 ^ 31\<close> bytes. No round throws; after any number
  of rounds what has been received is a prefix of the string, and it is the string once the stream of
  the receiving connection is at its end. The whole program never ends with an exception, neither the
  one for a short write nor the one for strings that do not match.
\<close>

theorem benchmark_strings_match:
  assumes "end_key_ok end_key" and "length string_to_send + 2 < 2 ^ 31"
  shows "(\<exists>b. benchmark_init rx ry string_to_send = Inr b \<and>
      (\<forall>n. \<exists>b'. benchmark_rounds end_key reorder n b = Inr b' \<and> prefix (be_string_received b') string_to_send \<and>
        (ByteStream_eof (TCPConnection_inbound_stream (be_y b')) \<longrightarrow> be_string_received b' = string_to_send))) \<and>
    (\<forall>err. benchmark_main_loop end_key rx ry string_to_send reorder \<noteq> Some (Inl err))"
proof -
  obtain b where b: "benchmark_init rx ry string_to_send = Inr b" "be_inv string_to_send b"
    using benchmark_init_abs [OF assms(1)] unfolding be_inv_def by meson
  have "\<exists>b'. benchmark_rounds end_key reorder n b = Inr b' \<and> prefix (be_string_received b') string_to_send \<and>
      (ByteStream_eof (TCPConnection_inbound_stream (be_y b')) \<longrightarrow> be_string_received b' = string_to_send)" for n
    using be_inv_rounds [OF b(2) assms] be_inv_received by meson
  moreover have "benchmark_main_loop end_key rx ry string_to_send reorder \<noteq> Some (Inl err)" for err
    using benchmark_main_loop_Inl [OF b assms] .
  ultimately show ?thesis
    using b(1) by blast
qed

theorem benchmark_strings_match_witness:
  "\<exists>b. benchmark_init 1 2 [7, 8, 9] = Inr b \<and>
    (\<exists>b'. benchmark_rounds length True 3 b = Inr b' \<and> prefix (be_string_received b') [7, 8, 9])"
proof -
  have "length [7 :: byte, 8, 9] + 2 < 2 ^ 31"
    by simp
  then show ?thesis
    using benchmark_strings_match [OF end_key_ok_length, of "[7, 8, 9]" 1 2 True] by blast
qed

end
