(* ===== verification/Event_Loop.thy ===== *)
theory Event_Loop
  imports Buffers "HOL-Library.Sublist"
begin

text \<open>
  \<^verbatim>\<open>util/file_descriptor.hh\<close>, \<^verbatim>\<open>file_descriptor.cc\<close> and \<^verbatim>\<open>util/eventloop.hh\<close>, \<^verbatim>\<open>eventloop.cc\<close>: the
  bookkeeping around file descriptors and the loop that dispatches callbacks.

  What the kernel answers is an argument: the result of \<^verbatim>\<open>read\<close>, the behaviour of \<^verbatim>\<open>writev\<close> and of
  \<^verbatim>\<open>poll\<close>. The state that callbacks work on is a type parameter.
\<close>

section \<open>FileDescriptor\<close>

record FDWrapper =
  fd_fd :: int
  fd_eof :: bool
  fd_closed :: bool
  fd_read_count :: "32 word"
  fd_write_count :: "32 word"

definition FDWrapper_init :: "int \<Rightarrow> FDWrapper res" where
  "FDWrapper_init fd =
     (if fd < 0 then Inl RuntimeError
      else Inr \<lparr>fd_fd = fd, fd_eof = False, fd_closed = False, fd_read_count = 0, fd_write_count = 0\<rparr>)"

definition FDWrapper_close :: "bool \<Rightarrow> FDWrapper \<Rightarrow> FDWrapper res" where
  "FDWrapper_close close_ok w = (if close_ok then Inr (w\<lparr>fd_eof := True, fd_closed := True\<rparr>) else Inl RuntimeError)"

definition register_read :: "FDWrapper \<Rightarrow> FDWrapper" where
  "register_read w = w\<lparr>fd_read_count := fd_read_count w + 1\<rparr>"

definition register_write :: "FDWrapper \<Rightarrow> FDWrapper" where
  "register_write w = w\<lparr>fd_write_count := fd_write_count w + 1\<rparr>"

definition FileDescriptor_BUFFER_SIZE :: size_t where
  "FileDescriptor_BUFFER_SIZE = 1024 * 1024"

text \<open>The answer of the system call is the bytes read, or \<open>None\<close> when it failed.\<close>

definition FileDescriptor_read :: "size_t \<Rightarrow> bytes option \<Rightarrow> FDWrapper \<Rightarrow> (bytes \<times> FDWrapper) res" where
  "FileDescriptor_read limit answer w =
     (let size_to_read = min FileDescriptor_BUFFER_SIZE limit
      in case answer of
           None \<Rightarrow> Inl RuntimeError
         | Some str \<Rightarrow>
             let w1 = (if limit > 0 \<and> length str = 0 then w\<lparr>fd_eof := True\<rparr> else w)
             in if length str > size_to_read then Inl RuntimeError
                else Inr (str, register_read w1))"

lemma remove_prefix_shrinks:
  assumes "BufferViewList_remove_prefix n b = Inr b'" and "\<not> (n = 0 \<and> BufferViewList_size b \<noteq> 0)"
    and "BufferViewList_size b' \<noteq> 0"
  shows "BufferViewList_size b' < BufferViewList_size b"
proof -
  have "BufferViewList_size b' = BufferViewList_size b - n"
    using bufv.remove_prefix_InrD(3) [OF assms(1)] by (simp only: bufv.size_contents length_drop)
  then show ?thesis
    using assms(2,3) by auto
qed

text \<open>The loop of \<^verbatim>\<open>write\<close>; \<open>writev\<close> takes the bytes offered and the state of the kernel.\<close>

function (sequential) FileDescriptor_write_loop ::
  "(bytes \<Rightarrow> 'k \<Rightarrow> nat option \<times> 'k) \<Rightarrow> bool \<Rightarrow> BufferViewList \<Rightarrow> size_t \<Rightarrow> FDWrapper \<Rightarrow> 'k \<Rightarrow>
     (size_t \<times> FDWrapper \<times> 'k) res" where
  "FileDescriptor_write_loop writev write_all buffer total_bytes_written w k =
     (case writev (concat (map fst (BufferViewList_as_iovecs buffer))) k of
        (None, k') \<Rightarrow> Inl RuntimeError
      | (Some bytes_written, k') \<Rightarrow>
          if bytes_written = 0 \<and> BufferViewList_size buffer \<noteq> 0 then Inl RuntimeError
          else if bytes_written > BufferViewList_size buffer then Inl RuntimeError
          else
            case BufferViewList_remove_prefix bytes_written buffer of
              Inl e \<Rightarrow> Inl e
            | Inr buffer' \<Rightarrow>
                if write_all \<and> BufferViewList_size buffer' \<noteq> 0
                then FileDescriptor_write_loop writev write_all buffer' (total_bytes_written + bytes_written)
                       (register_write w) k'
                else Inr (total_bytes_written + bytes_written, register_write w, k'))"
  by pat_completeness auto
termination
  by (relation "measure (\<lambda>(_, _, buffer, _, _, _). BufferViewList_size buffer)")
    (auto intro: remove_prefix_shrinks)

definition FileDescriptor_write ::
  "(bytes \<Rightarrow> 'k \<Rightarrow> nat option \<times> 'k) \<Rightarrow> BufferViewList \<Rightarrow> bool \<Rightarrow> FDWrapper \<Rightarrow> 'k \<Rightarrow> (size_t \<times> FDWrapper \<times> 'k) res" where
  "FileDescriptor_write writev buffer write_all w k = FileDescriptor_write_loop writev write_all buffer 0 w k"

section \<open>Sockets\<close>

datatype shut = SHUT_RD | SHUT_WR | SHUT_RDWR

definition Socket_shutdown :: "shut \<Rightarrow> bool \<Rightarrow> FDWrapper \<Rightarrow> FDWrapper res" where
  "Socket_shutdown how shutdown_ok w =
     (if \<not> shutdown_ok then Inl RuntimeError
      else
        case how of
          SHUT_RD \<Rightarrow> Inr (register_read w)
        | SHUT_WR \<Rightarrow> Inr (register_write w)
        | SHUT_RDWR \<Rightarrow> Inr (register_write (register_read w)))"

text \<open>
  The answer of \<^verbatim>\<open>recvfrom\<close> is the sender's address and the whole datagram, of which the buffer holds at
  most \<open>mtu\<close> bytes; with \<^verbatim>\<open>MSG_TRUNC\<close> the full length is reported.
\<close>

definition UDPSocket_recv :: "size_t \<Rightarrow> ('addr \<times> bytes) option \<Rightarrow> FDWrapper \<Rightarrow> (('addr \<times> bytes) \<times> FDWrapper) res" where
  "UDPSocket_recv mtu answer w =
     (case answer of
        None \<Rightarrow> Inl RuntimeError
      | Some (source_address, payload) \<Rightarrow>
          if length payload > mtu then Inl RuntimeError
          else Inr ((source_address, payload), register_read w))"

definition sendmsg_helper :: "nat option \<Rightarrow> BufferViewList \<Rightarrow> unit res" where
  "sendmsg_helper answer payload =
     (case answer of
        None \<Rightarrow> Inl RuntimeError
      | Some bytes_sent \<Rightarrow> if bytes_sent \<noteq> BufferViewList_size payload then Inl RuntimeError else Inr ())"

definition UDPSocket_sendto :: "nat option \<Rightarrow> BufferViewList \<Rightarrow> FDWrapper \<Rightarrow> FDWrapper res" where
  "UDPSocket_sendto answer payload w = bind_res (sendmsg_helper answer payload) (\<lambda>_. Inr (register_write w))"

section \<open>EventLoop\<close>

datatype Direction = In | Out

datatype EventLoop_Result = Success | Timeout | Exit

record 's Rule =
  ru_fd :: nat
  ru_direction :: Direction
  ru_callback :: "'s \<Rightarrow> 's res"
  ru_interest :: "'s \<Rightarrow> bool"
  ru_cancel :: "'s \<Rightarrow> 's res"

text \<open>The descriptors are found in the state by their number.\<close>

definition service_count :: "('s \<Rightarrow> nat \<Rightarrow> FDWrapper) \<Rightarrow> 's Rule \<Rightarrow> 's \<Rightarrow> 32 word" where
  "service_count fds r s =
     (if ru_direction r = In then fd_read_count (fds s (ru_fd r)) else fd_write_count (fds s (ru_fd r)))"

definition add_rule ::
  "nat \<Rightarrow> Direction \<Rightarrow> ('s \<Rightarrow> 's res) \<Rightarrow> ('s \<Rightarrow> bool) \<Rightarrow> ('s \<Rightarrow> 's res) \<Rightarrow> 's Rule list \<Rightarrow> 's Rule list" where
  "add_rule fd direction callback interest cancel rules =
     rules @ [\<lparr>ru_fd = fd, ru_direction = direction, ru_callback = callback, ru_interest = interest, ru_cancel = cancel\<rparr>]"

record pollfd =
  pf_fd :: nat
  pf_events :: "Direction option"

record revents =
  re_in :: bool
  re_out :: bool
  re_err :: bool
  re_nval :: bool
  re_hup :: bool

definition revents_none :: revents where
  "revents_none = \<lparr>re_in = False, re_out = False, re_err = False, re_nval = False, re_hup = False\<rparr>"

text \<open>What \<^verbatim>\<open>poll\<close> answers: events for each index, nothing within the time, or an error number.\<close>

datatype poll_answer = Poll_Ready "nat \<Rightarrow> revents" | Poll_Timeout | Poll_Error int

definition EINTR :: int where
  "EINTR = 4"

fun el_setup ::
  "('s \<Rightarrow> nat \<Rightarrow> FDWrapper) \<Rightarrow> 's Rule list \<Rightarrow> 's \<Rightarrow> ('s Rule list \<times> pollfd list \<times> bool \<times> 's) res" where
  "el_setup fds [] s = Inr ([], [], False, s)"
| "el_setup fds (this_rule # rest) s =
     (if ru_direction this_rule = In \<and> fd_eof (fds s (ru_fd this_rule)) then
        bind_res (ru_cancel this_rule s) (el_setup fds rest)
      else if fd_closed (fds s (ru_fd this_rule)) then
        bind_res (ru_cancel this_rule s) (el_setup fds rest)
      else
        let interested = ru_interest this_rule s;
            pfd = \<lparr>pf_fd = ru_fd this_rule, pf_events = (if interested then Some (ru_direction this_rule) else None)\<rparr>
        in bind_res (el_setup fds rest s) (\<lambda>(rules, pollfds, something_to_poll, s').
             Inr (this_rule # rules, pfd # pollfds, interested \<or> something_to_poll, s')))"

definition poll_ready :: "pollfd \<Rightarrow> revents \<Rightarrow> bool" where
  "poll_ready p r = (case pf_events p of None \<Rightarrow> False | Some In \<Rightarrow> re_in r | Some Out \<Rightarrow> re_out r)"

fun el_dispatch ::
  "('s \<Rightarrow> nat \<Rightarrow> FDWrapper) \<Rightarrow> (nat \<Rightarrow> revents) \<Rightarrow> nat \<Rightarrow> ('s Rule \<times> pollfd) list \<Rightarrow> 's \<Rightarrow>
     ('s Rule list \<times> 's) res" where
  "el_dispatch fds revents idx [] s = Inr ([], s)"
| "el_dispatch fds revents idx ((this_rule, this_pollfd) # rest) s =
     (let re = revents idx;
          ready = poll_ready this_pollfd re
      in if re_err re \<or> re_nval re then Inl RuntimeError
         else if re_hup re \<and> pf_events this_pollfd \<noteq> None \<and> \<not> ready then
           bind_res (ru_cancel this_rule s) (el_dispatch fds revents (idx + 1) rest)
         else
           bind_res
             (if ready then
                bind_res (ru_callback this_rule s) (\<lambda>s1.
                  if service_count fds this_rule s = service_count fds this_rule s1 \<and> ru_interest this_rule s1
                  then Inl RuntimeError
                  else Inr s1)
              else Inr s)
             (\<lambda>s1. bind_res (el_dispatch fds revents (idx + 1) rest s1) (\<lambda>(rules, s2).
               Inr (this_rule # rules, s2))))"

definition wait_next_event ::
  "('s \<Rightarrow> nat \<Rightarrow> FDWrapper) \<Rightarrow> (pollfd list \<Rightarrow> int \<Rightarrow> 's \<Rightarrow> poll_answer \<times> 's) \<Rightarrow> int \<Rightarrow> 's Rule list \<Rightarrow> 's \<Rightarrow>
     (EventLoop_Result \<times> 's Rule list \<times> 's) res" where
  "wait_next_event fds poll timeout_ms rules s =
     bind_res (el_setup fds rules s) (\<lambda>(rules1, pollfds, something_to_poll, s1).
       if \<not> something_to_poll then Inr (Exit, rules1, s1)
       else
         case poll pollfds timeout_ms s1 of
           (Poll_Timeout, s2) \<Rightarrow> Inr (Timeout, rules1, s2)
         | (Poll_Error e, s2) \<Rightarrow>
             if e = EINTR then Inr (Exit, rules1, s2)
             else bind_res (el_dispatch fds (\<lambda>_. revents_none) 0 (zip rules1 pollfds) s2)
                    (\<lambda>(rules2, s3). Inr (Success, rules2, s3))
         | (Poll_Ready revents, s2) \<Rightarrow>
             bind_res (el_dispatch fds revents 0 (zip rules1 pollfds) s2)
               (\<lambda>(rules2, s3). Inr (Success, rules2, s3)))"

section \<open>Writing everything\<close>

declare FileDescriptor_write_loop.simps [simp del]

lemma as_iovecs_contents [simp]: "concat (map fst (BufferViewList_as_iovecs vs)) = concat vs"
proof -
  have "fold (\<lambda>x ret. ret @ [(x, length x)]) vs acc = acc @ map (\<lambda>x. (x, length x)) vs" for acc
    by (induction vs arbitrary: acc) simp_all
  then show ?thesis
    by (simp add: BufferViewList_as_iovecs_def comp_def)
qed

lemma FileDescriptor_write_loop_all:
  assumes kernel: "\<And>bs k. \<exists>n k'. writev bs k = (Some n, k') \<and> n \<le> length bs \<and> (bs \<noteq> [] \<longrightarrow> 0 < n) \<and>
      sink k' = sink k @ take n bs"
  shows "\<exists>w' k'. FileDescriptor_write_loop writev True buffer written w k = Inr (written + length (concat buffer), w', k') \<and>
    sink k' = sink k @ concat buffer"
proof (induction "length (concat buffer)" arbitrary: buffer written w k rule: less_induct)
  case less
  obtain n k' where n: "writev (concat buffer) k = (Some n, k')" "n \<le> length (concat buffer)"
    "concat buffer \<noteq> [] \<longrightarrow> 0 < n" "sink k' = sink k @ take n (concat buffer)"
    using kernel by blast
  obtain b' where b': "BufferViewList_remove_prefix n buffer = Inr b'" "concat b' = drop n (concat buffer)"
    using bufv.remove_enough [of n buffer] n(2) by auto
  show ?case
  proof (cases "concat b' = []")
    case True
    then have "n = length (concat buffer)"
      using b'(2) n(2) by simp
    then show ?thesis
      using n b' True
      by (subst FileDescriptor_write_loop.simps) (auto simp: bufv.size_contents)
  next
    case False
    then have "length (concat b') < length (concat buffer)"
      using b'(2) n(3) by (cases "concat buffer = []") (simp_all del: concat_eq_Nil_conv)
    from less [OF this, of "written + n" "register_write w" k'] obtain w'' k'' where
      "FileDescriptor_write_loop writev True b' (written + n) (register_write w) k' =
        Inr (written + n + length (concat b'), w'', k'')" "sink k'' = sink k' @ concat b'"
      by blast
    then show ?thesis
      using n b' False
      by (subst FileDescriptor_write_loop.simps) (auto simp: bufv.size_contents)
  qed
qed

text \<open>
  One call without the loop, as the sockets use it: what the kernel took is what is reported.
\<close>

lemma FileDescriptor_write_once:
  assumes "FileDescriptor_write writev buffer False w k = Inr (n, w', k')"
  shows "n \<le> length (concat buffer) \<and> writev (concat buffer) k = (Some n, k') \<and> w' = register_write w"
  using assms unfolding FileDescriptor_write_def
  by (subst (asm) FileDescriptor_write_loop.simps)
    (auto simp: bufv.size_contents split: prod.splits option.splits if_splits sum.splits)

section \<open>What the loop keeps\<close>

definition el_keeps :: "('s \<Rightarrow> bool) \<Rightarrow> 's Rule \<Rightarrow> bool" where
  "el_keeps P r \<longleftrightarrow>
     (\<forall>s s'. P s \<longrightarrow> (ru_cancel r s = Inr s' \<or> ru_callback r s = Inr s') \<longrightarrow> P s')"

lemma el_setup_keeps:
  assumes "el_setup fds rules s = Inr (rules1, pollfds, something, s1)" and "P s" and "list_all (el_keeps P) rules"
  shows "P s1 \<and> subseq rules1 rules \<and> length pollfds = length rules1"
  using assms
proof (induction rules arbitrary: s rules1 pollfds something)
  case (Cons r rules)
  show ?case
  proof (cases "ru_direction r = In \<and> fd_eof (fds s (ru_fd r)) \<or> fd_closed (fds s (ru_fd r))")
    case True
    then obtain s' where s': "ru_cancel r s = Inr s'" "el_setup fds rules s' = Inr (rules1, pollfds, something, s1)"
      using Cons.prems(1) by (auto simp: bind_res_eq_Inr split: if_splits)
    have keeps: "el_keeps P r" "list_all (el_keeps P) rules"
      using Cons.prems(3) by simp_all
    have "P s'"
      using keeps(1) Cons.prems(2) s'(1) unfolding el_keeps_def by blast
    from Cons.IH [OF s'(2) this keeps(2)] show ?thesis
      by (simp add: list_emb_Cons)
  next
    case False
    then obtain rules2 pollfds2 something2 where r: "el_setup fds rules s = Inr (rules2, pollfds2, something2, s1)"
      "rules1 = r # rules2" "length pollfds = Suc (length pollfds2)"
      using Cons.prems(1) by (auto simp: bind_res_eq_Inr Let_def split: if_splits)
    have "list_all (el_keeps P) rules"
      using Cons.prems(3) by simp
    with Cons.IH [OF r(1) Cons.prems(2)] r(2,3) show ?thesis
      by simp
  qed
qed simp

lemma el_dispatch_keeps:
  assumes "el_dispatch fds revents idx rps s = Inr (rules', s')" and "P s" and "list_all (el_keeps P) (map fst rps)"
  shows "P s' \<and> subseq rules' (map fst rps)"
  using assms
proof (induction rps arbitrary: idx s rules')
  case (Cons rp rps)
  obtain r p where rp: "rp = (r, p)"
    by (cases rp)
  have keeps: "el_keeps P r" "list_all (el_keeps P) (map fst rps)"
    using Cons.prems(3) by (simp_all add: rp)
  show ?case
  proof (cases "re_hup (revents idx) \<and> pf_events p \<noteq> None \<and> \<not> poll_ready p (revents idx)")
    case True
    then obtain s1 where s1: "ru_cancel r s = Inr s1" "el_dispatch fds revents (idx + 1) rps s1 = Inr (rules', s')"
      using Cons.prems(1) by (auto simp: rp Let_def bind_res_eq_Inr split: if_splits)
    then have "P s1"
      using Cons.prems(2) keeps(1) unfolding el_keeps_def by blast
    with Cons.IH [OF s1(2) _ keeps(2)] show ?thesis
      by (simp add: rp list_emb_Cons)
  next
    case False
    then obtain s1 rules2 where s1: "ru_callback r s = Inr s1 \<or> s1 = s"
      "el_dispatch fds revents (idx + 1) rps s1 = Inr (rules2, s')" "rules' = r # rules2"
      using Cons.prems(1) by (auto simp: rp Let_def bind_res_eq_Inr split: if_splits)
    then have "P s1"
      using Cons.prems(2) keeps(1) unfolding el_keeps_def by blast
    with Cons.IH [OF s1(2) _ keeps(2)] s1(3) show ?thesis
      by (simp add: rp)
  qed
qed simp

text \<open>
  An invariant of the callbacks and of the world while waiting is an invariant of the loop, and the
  loop only ever drops rules.
\<close>

lemma wait_next_event_keeps:
  assumes wait: "wait_next_event fds poll timeout rules s = Inr (res, rules', s')" and P: "P s"
    and keeps: "list_all (el_keeps P) rules"
    and world: "\<And>ps t. P t \<Longrightarrow> P (snd (poll ps timeout t))"
  shows "P s' \<and> subseq rules' rules"
proof -
  obtain rules1 pollfds something s1 where prepared: "el_setup fds rules s = Inr (rules1, pollfds, something, s1)"
    using wait by (auto simp: wait_next_event_def bind_res_eq_Inr)
  from el_setup_keeps [where P = P, OF this P keeps]
  have 1: "P s1" "subseq rules1 rules" "length pollfds = length rules1"
    by simp_all
  obtain a s2 where poll: "poll pollfds timeout s1 = (a, s2)"
    by (cases "poll pollfds timeout s1")
  have 2: "P s2"
    using world [OF 1(1), of pollfds] poll by simp
  have "list_all (el_keeps P) rules1"
    using keeps 1(2) by (auto simp: list_all_iff dest: list_emb_set)
  then have "P s3 \<and> subseq rules2 rules" if "el_dispatch fds re 0 (zip rules1 pollfds) s2 = Inr (rules2, s3)" for re rules2 s3
    using el_dispatch_keeps [where P = P, OF that 2] 1(2,3) subseq_order.trans by auto
  then show ?thesis
    using wait prepared poll 1 2
    by (auto simp: wait_next_event_def bind_res_eq_Inr split: poll_answer.splits if_splits)
qed

text \<open>
  A callback only runs for a rule that was of interest when the round began, and no rule runs twice in a
  round. So a callback may rely on what its interest implies, as long as the other rules keep it.
\<close>

definition el_guarded :: "('s \<Rightarrow> bool) \<Rightarrow> ('s Rule \<Rightarrow> 's \<Rightarrow> bool) \<Rightarrow> 's Rule list \<Rightarrow> bool" where
  "el_guarded P G rules \<longleftrightarrow>
     (\<forall>r \<in> set rules. \<forall>s s'. P s \<longrightarrow>
        (ru_interest r s \<longrightarrow> G r s) \<and>
        (ru_cancel r s = Inr s' \<or> G r s \<and> ru_callback r s = Inr s' \<longrightarrow>
           P s' \<and> (\<forall>q \<in> set rules. q \<noteq> r \<longrightarrow> G q s \<longrightarrow> G q s')))"

lemma el_guardedD:
  assumes "el_guarded P G R" and "r \<in> set R" and "P s"
  shows "ru_interest r s \<Longrightarrow> G r s"
    and "ru_cancel r s = Inr s' \<or> G r s \<and> ru_callback r s = Inr s' \<Longrightarrow> P s'"
    and "ru_cancel r s = Inr s' \<or> G r s \<and> ru_callback r s = Inr s' \<Longrightarrow> q \<in> set R \<Longrightarrow> q \<noteq> r \<Longrightarrow> G q s \<Longrightarrow> G q s'"
  using assms unfolding el_guarded_def by blast+

lemma el_setup_guarded:
  assumes "el_setup fds rules s = Inr (rules1, pollfds, something, s1)" and "P s"
    and guarded: "el_guarded P G R" and "set rules \<subseteq> set R" and "distinct rules"
  shows "P s1 \<and> (\<forall>(r, p) \<in> set (zip rules1 pollfds). pf_events p \<noteq> None \<longrightarrow> G r s1) \<and>
    (\<forall>q \<in> set R - set rules. G q s \<longrightarrow> G q s1)"
  using assms(1,2,4,5)
proof (induction rules arbitrary: s rules1 pollfds something)
  case (Cons r rules)
  have r: "r \<in> set R" "set rules \<subseteq> set R" "distinct rules" "r \<notin> set rules"
    using Cons.prems(3,4) by auto
  show ?case
  proof (cases "ru_direction r = In \<and> fd_eof (fds s (ru_fd r)) \<or> fd_closed (fds s (ru_fd r))")
    case True
    then obtain s' where s': "ru_cancel r s = Inr s'" "el_setup fds rules s' = Inr (rules1, pollfds, something, s1)"
      using Cons.prems(1) by (auto simp: bind_res_eq_Inr split: if_splits)
    have cancelled: "P s'" "\<forall>q \<in> set R - {r}. G q s \<longrightarrow> G q s'"
      using el_guardedD(2,3) [OF guarded r(1) Cons.prems(2)] s'(1) by blast+
    from Cons.IH [OF s'(2) cancelled(1) r(2,3)] cancelled(2) show ?thesis
      by auto
  next
    case False
    then obtain rules2 pollfds2 something2 where r2: "el_setup fds rules s = Inr (rules2, pollfds2, something2, s1)"
      "rules1 = r # rules2"
      "pollfds = \<lparr>pf_fd = ru_fd r, pf_events = (if ru_interest r s then Some (ru_direction r) else None)\<rparr> # pollfds2"
      using Cons.prems(1) by (auto simp: bind_res_eq_Inr Let_def split: if_splits)
    from Cons.IH [OF r2(1) Cons.prems(2) r(2,3)]
    show ?thesis
      using el_guardedD(1) [OF guarded r(1) Cons.prems(2)] r(1,4) r2(2,3) by auto
  qed
qed simp

lemma el_dispatch_guarded:
  assumes "el_dispatch fds revents idx rps s = Inr (rules', s')" and "P s"
    and guarded: "el_guarded P G R" and "set (map fst rps) \<subseteq> set R" and "distinct (map fst rps)"
    and "\<forall>(r, p) \<in> set rps. pf_events p \<noteq> None \<longrightarrow> G r s"
  shows "P s' \<and> subseq rules' (map fst rps)"
  using assms(1,2,4-6)
proof (induction rps arbitrary: idx s rules')
  case (Cons rp rps)
  obtain r p where rp: "rp = (r, p)"
    by (cases rp)
  have r: "r \<in> set R" "set (map fst rps) \<subseteq> set R" "distinct (map fst rps)" "r \<notin> set (map fst rps)"
    using Cons.prems(3,4) by (auto simp: rp)
  have on: "P s1 \<and> (\<forall>(q, p) \<in> set rps. pf_events p \<noteq> None \<longrightarrow> G q s1)"
    if step: "ru_cancel r s = Inr s1 \<or> G r s \<and> ru_callback r s = Inr s1" for s1
  proof -
    have "G q s1" if "(q, p) \<in> set rps" "pf_events p \<noteq> None" for q p
    proof (rule el_guardedD(3) [OF guarded r(1) Cons.prems(2) step])
      show "q \<in> set R" "q \<noteq> r" "G q s"
        using that r Cons.prems(5) by force+
    qed
    then show ?thesis
      using el_guardedD(2) [OF guarded r(1) Cons.prems(2) step] by auto
  qed
  show ?case
  proof (cases "re_hup (revents idx) \<and> pf_events p \<noteq> None \<and> \<not> poll_ready p (revents idx)")
    case True
    then obtain s1 where s1: "ru_cancel r s = Inr s1" "el_dispatch fds revents (idx + 1) rps s1 = Inr (rules', s')"
      using Cons.prems(1) by (auto simp: rp Let_def bind_res_eq_Inr split: if_splits)
    from Cons.IH [OF s1(2) _ r(2,3)] on [of s1] s1(1) show ?thesis
      by (simp add: rp list_emb_Cons)
  next
    case False
    then obtain s1 rules2 where s1: "poll_ready p (revents idx) \<and> ru_callback r s = Inr s1 \<or> s1 = s"
      "el_dispatch fds revents (idx + 1) rps s1 = Inr (rules2, s')" "rules' = r # rules2"
      using Cons.prems(1) by (auto simp: rp Let_def bind_res_eq_Inr split: if_splits)
    have "poll_ready p (revents idx) \<Longrightarrow> G r s"
      using Cons.prems(5) by (auto simp: rp poll_ready_def)
    then have "P s1 \<and> (\<forall>(q, p) \<in> set rps. pf_events p \<noteq> None \<longrightarrow> G q s1)"
      using s1(1) on [of s1] Cons.prems(2,5) by (auto simp: rp)
    with Cons.IH [OF s1(2) _ r(2,3)] s1(3) show ?thesis
      by (simp add: rp)
  qed
qed simp

lemma distinct_subseq: "subseq xs ys \<Longrightarrow> distinct ys \<Longrightarrow> distinct xs"
  by (induction rule: list_emb.induct) (auto dest: list_emb_set)

lemma wait_next_event_guarded:
  assumes wait: "wait_next_event fds poll timeout rules s = Inr (res, rules', s')" and P: "P s"
    and guarded: "el_guarded P G R" and rules: "set rules \<subseteq> set R" "distinct rules"
    and world: "\<And>ps t. P t \<Longrightarrow> P (snd (poll ps timeout t))" "\<And>ps q t. G q t \<Longrightarrow> G q (snd (poll ps timeout t))"
  shows "P s' \<and> subseq rules' rules"
proof -
  obtain rules1 pollfds something s1 where prepared: "el_setup fds rules s = Inr (rules1, pollfds, something, s1)"
    using wait by (auto simp: wait_next_event_def bind_res_eq_Inr)
  have 1: "P s1" "\<forall>(r, p) \<in> set (zip rules1 pollfds). pf_events p \<noteq> None \<longrightarrow> G r s1"
    using el_setup_guarded [OF prepared P guarded rules] by blast+
  have sub: "subseq rules1 rules" "length pollfds = length rules1"
    using el_setup_keeps [where P = "\<lambda>_. True", OF prepared] by (simp_all add: el_keeps_def list_all_iff)
  obtain a s2 where poll: "poll pollfds timeout s1 = (a, s2)"
    by (cases "poll pollfds timeout s1")
  have 2: "P s2" "\<forall>(r, p) \<in> set (zip rules1 pollfds). pf_events p \<noteq> None \<longrightarrow> G r s2"
    using world(1) [OF 1(1), of pollfds] world(2) [where ps = pollfds and t = s1] 1(2) poll by auto
  have "set (map fst (zip rules1 pollfds)) \<subseteq> set R" "distinct (map fst (zip rules1 pollfds))"
    using sub rules distinct_subseq by (auto dest: list_emb_set)
  then have "P s3 \<and> subseq rules2 rules" if "el_dispatch fds re 0 (zip rules1 pollfds) s2 = Inr (rules2, s3)" for re rules2 s3
    using el_dispatch_guarded [OF that 2(1) guarded _ _ 2(2)] sub subseq_order.trans by auto
  then show ?thesis
    using wait prepared poll 1 2 sub
    by (auto simp: wait_next_event_def bind_res_eq_Inr split: poll_answer.splits if_splits)
qed

text \<open>
  The documentation announces an exception when \<^verbatim>\<open>poll\<close> fails. The code only looks at interrupted
  calls: after any other failure no callback runs, no rule goes and the call reports success.
\<close>

lemma el_dispatch_none: "el_dispatch fds (\<lambda>_. revents_none) idx rps s = Inr (map fst rps, s)"
  by (induction rps arbitrary: idx) (auto simp: revents_none_def poll_ready_def Let_def split: option.splits Direction.splits)

lemma wait_next_event_poll_error:
  assumes "el_setup fds rules s = Inr (rules1, pollfds, True, s1)" and "poll pollfds timeout s1 = (Poll_Error e, s2)"
  shows "wait_next_event fds poll timeout rules s =
    Inr (if e = EINTR then Exit else Success, rules1, s2)"
proof -
  have "length pollfds = length rules1"
    using el_setup_keeps [where P = "\<lambda>_. True", OF assms(1)] by (simp add: el_keeps_def list_all_iff)
  then show ?thesis
    using assms by (simp add: wait_next_event_def el_dispatch_none)
qed

end
