(* ===== verification/Stream_Copy.thy ===== *)
theory Stream_Copy
  imports Byte_Stream Event_Loop
begin

text \<open>
  \<^verbatim>\<open>apps/bidirectional_stream_copy.cc\<close>: the loop that the client programs run on a connected socket, which
  copies the standard input to the socket and the socket to the standard output through two byte
  streams. The kernel is a record of operations on a state of its own, as in \<open>Sponge_Socket\<close>; descriptor
  0 is the standard input, 1 the standard output and 2 the socket.
\<close>

section \<open>The program\<close>

record 'x copy_kernel =
  ck_read :: "nat \<Rightarrow> 'x \<Rightarrow> bytes option \<times> 'x"
  ck_writev :: "nat \<Rightarrow> bytes \<Rightarrow> 'x \<Rightarrow> nat option \<times> 'x"
  ck_shutdown :: "'x \<Rightarrow> bool \<times> 'x"
  ck_close :: "'x \<Rightarrow> bool \<times> 'x"
  ck_poll :: "pollfd list \<Rightarrow> int \<Rightarrow> 'x \<Rightarrow> poll_answer \<times> 'x"

text \<open>
  The last four fields before the state of the kernel record the bytes that went through the
  descriptors.
\<close>

record 'x stream_copy =
  sc_socket :: FDWrapper
  sc_input :: FDWrapper
  sc_output :: FDWrapper
  sc_outbound :: ByteStream
  sc_inbound :: ByteStream
  sc_outbound_shutdown :: bool
  sc_inbound_shutdown :: bool
  sc_typed :: bytes
  sc_sent :: bytes
  sc_received :: bytes
  sc_shown :: bytes
  sc_world :: 'x

definition max_copy_length :: size_t where
  "max_copy_length = 65536"

definition copy_buffer_size :: size_t where
  "copy_buffer_size = 1048576"

definition stream_copy_init :: "FDWrapper \<Rightarrow> FDWrapper \<Rightarrow> FDWrapper \<Rightarrow> 'x \<Rightarrow> 'x stream_copy" where
  "stream_copy_init socket input output x =
     \<lparr>sc_socket = socket, sc_input = input, sc_output = output,
      sc_outbound = ByteStream_init copy_buffer_size, sc_inbound = ByteStream_init copy_buffer_size,
      sc_outbound_shutdown = False, sc_inbound_shutdown = False,
      sc_typed = [], sc_sent = [], sc_received = [], sc_shown = [], sc_world = x\<rparr>"

definition sc_fds :: "'x stream_copy \<Rightarrow> nat \<Rightarrow> FDWrapper" where
  "sc_fds s n = (if n = 0 then sc_input s else if n = 1 then sc_output s else sc_socket s)"

text \<open>Reading as much as a stream takes, and writing from a stream what the descriptor takes.\<close>

definition copy_fill :: "bytes option \<Rightarrow> FDWrapper \<Rightarrow> ByteStream \<Rightarrow> (bytes \<times> FDWrapper \<times> ByteStream) res" where
  "copy_fill answer fd stream =
     bind_res (FileDescriptor_read (ByteStream_remaining_capacity stream) answer fd) (\<lambda>(data, fd').
       let stream' = snd (ByteStream_write data stream)
       in Inr (data, fd', if fd_eof fd' then ByteStream_end_input stream' else stream'))"

definition copy_writev :: "(bytes \<Rightarrow> 'x \<Rightarrow> nat option \<times> 'x) \<Rightarrow> bytes \<Rightarrow> bytes \<times> 'x \<Rightarrow> nat option \<times> bytes \<times> 'x" where
  "copy_writev writev bs p =
     (case writev bs (snd p) of
        (answer, x) \<Rightarrow> (answer, (case answer of Some n \<Rightarrow> fst p @ take n bs | None \<Rightarrow> fst p), x))"

definition copy_drain ::
  "(bytes \<Rightarrow> 'x \<Rightarrow> nat option \<times> 'x) \<Rightarrow> FDWrapper \<Rightarrow> ByteStream \<Rightarrow> bytes \<Rightarrow> 'x \<Rightarrow>
     (FDWrapper \<times> ByteStream \<times> bytes \<times> 'x) res" where
  "copy_drain writev fd stream out x =
     (let bytes_to_write = min max_copy_length (ByteStream_buffer_size stream)
      in bind_res (FileDescriptor_write (copy_writev writev)
                     (BufferViewList_of_string (ByteStream_peek_output bytes_to_write stream)) False fd (out, x))
           (\<lambda>(bytes_written, fd', out', x').
         bind_res (ByteStream_pop_output bytes_written stream) (\<lambda>stream'. Inr (fd', stream', out', x'))))"

text \<open>Rule 1: read from stdin into outbound byte stream.\<close>

definition copy_rule1_callback :: "'x copy_kernel \<Rightarrow> 'x stream_copy \<Rightarrow> 'x stream_copy res" where
  "copy_rule1_callback K s =
     (case ck_read K 0 (sc_world s) of
        (answer, x) \<Rightarrow>
          bind_res (copy_fill answer (sc_input s) (sc_outbound s)) (\<lambda>(data, fd, stream).
            Inr (s\<lparr>sc_input := fd, sc_outbound := stream, sc_typed := sc_typed s @ data, sc_world := x\<rparr>)))"

definition copy_rule1_interest :: "'x stream_copy \<Rightarrow> bool" where
  "copy_rule1_interest s \<longleftrightarrow>
     \<not> ByteStream_error (sc_outbound s) \<and> ByteStream_remaining_capacity (sc_outbound s) > 0 \<and>
     \<not> ByteStream_error (sc_inbound s)"

definition copy_end_outbound :: "'x stream_copy \<Rightarrow> 'x stream_copy res" where
  "copy_end_outbound s = Inr (s\<lparr>sc_outbound := ByteStream_end_input (sc_outbound s)\<rparr>)"

text \<open>Rule 2: read from outbound byte stream into socket.\<close>

definition copy_rule2_callback :: "'x copy_kernel \<Rightarrow> 'x stream_copy \<Rightarrow> 'x stream_copy res" where
  "copy_rule2_callback K s =
     bind_res (copy_drain (ck_writev K 2) (sc_socket s) (sc_outbound s) (sc_sent s) (sc_world s))
       (\<lambda>(fd, stream, out, x).
         let s1 = s\<lparr>sc_socket := fd, sc_outbound := stream, sc_sent := out, sc_world := x\<rparr>
         in if ByteStream_eof stream
            then case ck_shutdown K x of
                   (ok, x') \<Rightarrow>
                     bind_res (Socket_shutdown SHUT_WR ok fd) (\<lambda>fd'.
                       Inr (s1\<lparr>sc_socket := fd', sc_world := x', sc_outbound_shutdown := True\<rparr>))
            else Inr s1)"

definition copy_rule2_interest :: "'x stream_copy \<Rightarrow> bool" where
  "copy_rule2_interest s \<longleftrightarrow>
     \<not> ByteStream_buffer_empty (sc_outbound s) \<or> ByteStream_eof (sc_outbound s) \<and> \<not> sc_outbound_shutdown s"

text \<open>Rule 3: read from socket into inbound byte stream.\<close>

definition copy_rule3_callback :: "'x copy_kernel \<Rightarrow> 'x stream_copy \<Rightarrow> 'x stream_copy res" where
  "copy_rule3_callback K s =
     (case ck_read K 2 (sc_world s) of
        (answer, x) \<Rightarrow>
          bind_res (copy_fill answer (sc_socket s) (sc_inbound s)) (\<lambda>(data, fd, stream).
            Inr (s\<lparr>sc_socket := fd, sc_inbound := stream, sc_received := sc_received s @ data, sc_world := x\<rparr>)))"

definition copy_rule3_interest :: "'x stream_copy \<Rightarrow> bool" where
  "copy_rule3_interest s \<longleftrightarrow>
     \<not> ByteStream_error (sc_inbound s) \<and> ByteStream_remaining_capacity (sc_inbound s) > 0 \<and>
     \<not> ByteStream_error (sc_outbound s)"

definition copy_end_inbound :: "'x stream_copy \<Rightarrow> 'x stream_copy res" where
  "copy_end_inbound s = Inr (s\<lparr>sc_inbound := ByteStream_end_input (sc_inbound s)\<rparr>)"

text \<open>Rule 4: read from inbound byte stream into stdout.\<close>

definition copy_rule4_callback :: "'x copy_kernel \<Rightarrow> 'x stream_copy \<Rightarrow> 'x stream_copy res" where
  "copy_rule4_callback K s =
     bind_res (copy_drain (ck_writev K 1) (sc_output s) (sc_inbound s) (sc_shown s) (sc_world s))
       (\<lambda>(fd, stream, out, x).
         let s1 = s\<lparr>sc_output := fd, sc_inbound := stream, sc_shown := out, sc_world := x\<rparr>
         in if ByteStream_eof stream
            then case ck_close K x of
                   (ok, x') \<Rightarrow>
                     bind_res (FDWrapper_close ok fd) (\<lambda>fd'.
                       Inr (s1\<lparr>sc_output := fd', sc_world := x', sc_inbound_shutdown := True\<rparr>))
            else Inr s1)"

definition copy_rule4_interest :: "'x stream_copy \<Rightarrow> bool" where
  "copy_rule4_interest s \<longleftrightarrow>
     \<not> ByteStream_buffer_empty (sc_inbound s) \<or> ByteStream_eof (sc_inbound s) \<and> \<not> sc_inbound_shutdown s"

definition copy_rules :: "'x copy_kernel \<Rightarrow> 'x stream_copy Rule list" where
  "copy_rules K =
     add_rule 1 Out (copy_rule4_callback K) copy_rule4_interest copy_end_inbound
       (add_rule 2 In (copy_rule3_callback K) copy_rule3_interest copy_end_inbound
         (add_rule 2 Out (copy_rule2_callback K) copy_rule2_interest copy_end_outbound
           (add_rule 0 In (copy_rule1_callback K) copy_rule1_interest copy_end_outbound [])))"

definition copy_poll :: "'x copy_kernel \<Rightarrow> pollfd list \<Rightarrow> int \<Rightarrow> 'x stream_copy \<Rightarrow> poll_answer \<times> 'x stream_copy" where
  "copy_poll K ps timeout s = (case ck_poll K ps timeout (sc_world s) of (ans, x) \<Rightarrow> (ans, s\<lparr>sc_world := x\<rparr>))"

text \<open>Loop until completion.\<close>

partial_function (option) copy_loop ::
  "'x copy_kernel \<Rightarrow> 'x stream_copy Rule list \<Rightarrow> 'x stream_copy \<Rightarrow> 'x stream_copy res option" where
  "copy_loop K rules s =
     (case wait_next_event sc_fds (copy_poll K) (- 1) rules s of
        Inl e \<Rightarrow> Some (Inl e)
      | Inr (ret, rules', s') \<Rightarrow> if ret = Exit then Some (Inr s') else copy_loop K rules' s')"

definition bidirectional_stream_copy ::
  "'x copy_kernel \<Rightarrow> FDWrapper \<Rightarrow> FDWrapper \<Rightarrow> FDWrapper \<Rightarrow> 'x \<Rightarrow> 'x stream_copy res option" where
  "bidirectional_stream_copy K socket input output x =
     copy_loop K (copy_rules K) (stream_copy_init socket input output x)"

section \<open>Nothing is lost, added or reordered\<close>

lemma copy_fill_spec:
  assumes "copy_fill answer fd stream = Inr (data, fd', stream')" and wf: "ByteStream_wf stream"
  shows "ByteStream_wf stream' \<and> ByteStream_contents stream' = ByteStream_contents stream @ data \<and>
    bs_capacity stream' = bs_capacity stream"
proof -
  obtain n t where t: "ByteStream_write data stream = (n, t)"
    by fastforce
  have "length data \<le> ByteStream_remaining_capacity stream"
    and stream': "stream' = (if fd_eof fd' then ByteStream_end_input t else t)"
    using assms(1) t
    by (auto simp: copy_fill_def FileDescriptor_read_def bind_res_eq_Inr Let_def split: option.splits if_splits)
  then have "n = length data \<and> ByteStream_contents t = ByteStream_contents stream @ data \<and>
      bs_capacity t = bs_capacity stream \<and> ByteStream_wf t"
    using pipe.push_fits [OF wf _ t] pipe.push_law [OF wf t] ByteStream_remaining_capacity_eq [OF wf] by simp
  then show ?thesis
    unfolding stream' by simp
qed

lemma copy_drain_spec:
  assumes "copy_drain writev fd stream out x = Inr (fd', stream', out', x')" and wf: "ByteStream_wf stream"
  shows "ByteStream_wf stream' \<and> out' @ ByteStream_contents stream' = out @ ByteStream_contents stream \<and>
    bs_capacity stream' = bs_capacity stream"
proof -
  let ?m = "min max_copy_length (ByteStream_buffer_size stream)"
  let ?data = "take ?m (ByteStream_contents stream)"
  obtain n where n: "FileDescriptor_write (copy_writev writev) (BufferViewList_of_string ?data) False fd (out, x) =
      Inr (n, fd', out', x')" "ByteStream_pop_output n stream = Inr stream'"
    using assms(1) by (auto simp: copy_drain_def Let_def bind_res_eq_Inr ByteStream_peek_output_def ByteStream_contents_def)
  have written: "n \<le> length ?data" "copy_writev writev ?data (out, x) = (Some n, out', x')"
    using FileDescriptor_write_once [OF n(1)] by (simp_all add: BufferViewList_of_string_def)
  then have "out' = out @ take n ?data"
    by (auto simp: copy_writev_def split: prod.splits)
  moreover have "take n ?data = take n (ByteStream_contents stream)"
    using written(1) by (simp only: take_take length_take min.bounded_iff min_absorb1)
  ultimately have "out' = out @ take n (ByteStream_contents stream)"
    by simp
  moreover obtain t where "ByteStream_pop_output n stream = Inr t" "ByteStream_wf t"
    "ByteStream_contents t = drop n (ByteStream_contents stream)" "bs_capacity t = bs_capacity stream"
    using ByteStream_pop_outputE [OF wf] by metis
  ultimately show ?thesis
    using n(2) by simp
qed

definition sc_inv :: "'x stream_copy \<Rightarrow> bool" where
  "sc_inv s \<longleftrightarrow>
     ByteStream_wf (sc_outbound s) \<and> ByteStream_wf (sc_inbound s) \<and>
     bs_capacity (sc_outbound s) = copy_buffer_size \<and> bs_capacity (sc_inbound s) = copy_buffer_size \<and>
     sc_typed s = sc_sent s @ ByteStream_contents (sc_outbound s) \<and>
     sc_received s = sc_shown s @ ByteStream_contents (sc_inbound s)"

lemma sc_inv_init: "sc_inv (stream_copy_init socket input output x)"
  by (simp add: sc_inv_def stream_copy_init_def copy_buffer_size_def ByteStream_wf_init size_max_def)
    (simp add: ByteStream_init_def)

lemma sc_inv_rule1:
  assumes "sc_inv s" and "copy_rule1_callback K s = Inr s'"
  shows "sc_inv s'"
proof -
  obtain answer x data fd stream where d: "copy_fill answer (sc_input s) (sc_outbound s) = Inr (data, fd, stream)"
    and s': "s' = s\<lparr>sc_input := fd, sc_outbound := stream, sc_typed := sc_typed s @ data, sc_world := x\<rparr>"
    using assms(2) by (auto simp: copy_rule1_callback_def bind_res_eq_Inr split: prod.splits)
  show ?thesis
    using copy_fill_spec [OF d] assms(1) by (simp add: sc_inv_def s')
qed

lemma sc_inv_rule3:
  assumes "sc_inv s" and "copy_rule3_callback K s = Inr s'"
  shows "sc_inv s'"
proof -
  obtain answer x data fd stream where d: "copy_fill answer (sc_socket s) (sc_inbound s) = Inr (data, fd, stream)"
    and s': "s' = s\<lparr>sc_socket := fd, sc_inbound := stream, sc_received := sc_received s @ data, sc_world := x\<rparr>"
    using assms(2) by (auto simp: copy_rule3_callback_def bind_res_eq_Inr split: prod.splits)
  show ?thesis
    using copy_fill_spec [OF d] assms(1) by (simp add: sc_inv_def s')
qed

lemma sc_inv_rule2:
  assumes "sc_inv s" and "copy_rule2_callback K s = Inr s'"
  shows "sc_inv s'"
proof -
  obtain fd stream out x where d: "copy_drain (ck_writev K 2) (sc_socket s) (sc_outbound s) (sc_sent s) (sc_world s) =
      Inr (fd, stream, out, x)" and s': "sc_outbound s' = stream" "sc_sent s' = out" "sc_inbound s' = sc_inbound s"
      "sc_typed s' = sc_typed s" "sc_received s' = sc_received s" "sc_shown s' = sc_shown s"
    using assms(2) by (auto simp: copy_rule2_callback_def bind_res_eq_Inr Let_def split: if_splits prod.splits)
  show ?thesis
    using copy_drain_spec [OF d] assms(1) by (simp add: sc_inv_def s')
qed

lemma sc_inv_rule4:
  assumes "sc_inv s" and "copy_rule4_callback K s = Inr s'"
  shows "sc_inv s'"
proof -
  obtain fd stream out x where d: "copy_drain (ck_writev K 1) (sc_output s) (sc_inbound s) (sc_shown s) (sc_world s) =
      Inr (fd, stream, out, x)" and s': "sc_inbound s' = stream" "sc_shown s' = out" "sc_outbound s' = sc_outbound s"
      "sc_typed s' = sc_typed s" "sc_received s' = sc_received s" "sc_sent s' = sc_sent s"
    using assms(2) by (auto simp: copy_rule4_callback_def bind_res_eq_Inr Let_def split: if_splits prod.splits)
  show ?thesis
    using copy_drain_spec [OF d] assms(1) by (simp add: sc_inv_def s')
qed

lemma sc_inv_end_outbound: "sc_inv s \<Longrightarrow> copy_end_outbound s = Inr s' \<Longrightarrow> sc_inv s'"
  by (auto simp: copy_end_outbound_def sc_inv_def)

lemma sc_inv_end_inbound: "sc_inv s \<Longrightarrow> copy_end_inbound s = Inr s' \<Longrightarrow> sc_inv s'"
  by (auto simp: copy_end_inbound_def sc_inv_def)

lemmas sc_inv_rules = sc_inv_rule1 sc_inv_rule2 sc_inv_rule3 sc_inv_rule4 sc_inv_end_outbound sc_inv_end_inbound

lemma el_keepsI:
  assumes "\<And>s s'. P s \<Longrightarrow> ru_cancel r s = Inr s' \<Longrightarrow> P s'" and "\<And>s s'. P s \<Longrightarrow> ru_callback r s = Inr s' \<Longrightarrow> P s'"
  shows "el_keeps P r"
  unfolding el_keeps_def by (intro allI impI, erule disjE) (erule (1) assms)+

lemma copy_rules_keep: "list_all (el_keeps sc_inv) (copy_rules K)"
  by (simp add: copy_rules_def add_rule_def) (intro conjI el_keepsI; simp; erule (1) sc_inv_rules)

fun copy_rounds ::
  "'x copy_kernel \<Rightarrow> nat \<Rightarrow> 'x stream_copy Rule list \<Rightarrow> 'x stream_copy \<Rightarrow> ('x stream_copy Rule list \<times> 'x stream_copy) res" where
  "copy_rounds K 0 rules s = Inr (rules, s)"
| "copy_rounds K (Suc n) rules s =
     bind_res (wait_next_event sc_fds (copy_poll K) (- 1) rules s) (\<lambda>(ret, rules', s').
       if ret = Exit then Inr (rules', s') else copy_rounds K n rules' s')"

lemma copy_rounds_inv:
  assumes "copy_rounds K n rules s = Inr (rules', s')" and "sc_inv s" and "list_all (el_keeps sc_inv) rules"
  shows "sc_inv s'"
  using assms
proof (induction n arbitrary: rules s)
  case (Suc n)
  obtain ret rules1 s1 where w: "wait_next_event sc_fds (copy_poll K) (- 1) rules s = Inr (ret, rules1, s1)"
    "(if ret = Exit then Inr (rules1, s1) else copy_rounds K n rules1 s1) = Inr (rules', s')"
    using Suc.prems(1) by (auto simp: bind_res_eq_Inr)
  have "sc_inv (snd (copy_poll K ps (- 1) t))" if "sc_inv t" for ps t
    using that by (simp add: copy_poll_def sc_inv_def split: prod.splits)
  then have "sc_inv s1 \<and> subseq rules1 rules"
    using wait_next_event_keeps [where P = sc_inv, OF w(1) Suc.prems(2,3)] by blast
  moreover from this have "list_all (el_keeps sc_inv) rules1"
    using Suc.prems(3) by (auto simp: list_all_iff dest: list_emb_set)
  ultimately show ?case
    using w(2) Suc.IH by (auto split: if_splits)
qed simp

text \<open>
  C36. Copying in both directions, for every behaviour of the kernel and after any number of rounds of
  the event loop: what the socket has taken followed by what waits in the outbound stream is what the
  standard input delivered, and what the standard output has taken followed by what waits in the inbound
  stream is what the socket delivered. No byte is lost, added or reordered, and no more than the buffer
  size waits in a stream.
\<close>

theorem stream_copy_faithful:
  assumes "copy_rounds K n (copy_rules K) (stream_copy_init socket input output x) = Inr (rules, s)"
  shows "sc_typed s = sc_sent s @ ByteStream_contents (sc_outbound s) \<and>
    sc_received s = sc_shown s @ ByteStream_contents (sc_inbound s) \<and>
    ByteStream_buffer_size (sc_outbound s) \<le> copy_buffer_size \<and> ByteStream_buffer_size (sc_inbound s) \<le> copy_buffer_size"
proof -
  have "sc_inv s"
    using copy_rounds_inv [OF assms sc_inv_init copy_rules_keep] .
  then show ?thesis
    by (simp add: sc_inv_def ByteStream_buffer_size_eq ByteStream_wf_def)
qed

definition copy_kernel_example :: "unit copy_kernel" where
  "copy_kernel_example =
     \<lparr>ck_read = (\<lambda>_ x. (Some [104, 105], x)), ck_writev = (\<lambda>_ bs x. (Some (length bs), x)), ck_shutdown = (\<lambda>x. (True, x)),
      ck_close = (\<lambda>x. (True, x)),
      ck_poll = (\<lambda>_ _ x. (Poll_Ready (\<lambda>n. revents_none\<lparr>re_in := (n = 0), re_out := (n = 1)\<rparr>), x))\<rparr>"

definition copy_fd_example :: "int \<Rightarrow> FDWrapper" where
  "copy_fd_example n = \<lparr>fd_fd = n, fd_eof = False, fd_closed = False, fd_read_count = 0, fd_write_count = 0\<rparr>"

lemmas copy_evaluate = copy_rules_def add_rule_def wait_next_event_def copy_kernel_example_def copy_fd_example_def
  stream_copy_init_def sc_fds_def copy_poll_def poll_ready_def service_count_def revents_none_def register_read_def
  register_write_def FileDescriptor_BUFFER_SIZE_def copy_buffer_size_def max_copy_length_def copy_writev_def
  ByteStream_init_def ByteStream_error_def ByteStream_remaining_capacity_def ByteStream_input_ended_def
  ByteStream_buffer_empty_def ByteStream_eof_def ByteStream_write_def ByteStream_buffer_size_def
  ByteStream_peek_output_def ByteStream_pop_output_def BufferList_of_string_def BufferList_append_def
  BufferList_of_Buffer_def BufferList_size_def BufferList_concatenate_def Buffer_of_string_def Buffer_size_def Buffer_str_def
  BufferViewList_of_string_def BufferViewList_size_def BufferViewList_as_iovecs_def Buffer_remove_prefix_def
  FileDescriptor_read_def FileDescriptor_write_def FileDescriptor_write_loop.simps
  copy_fill_def copy_drain_def copy_rule1_callback_def copy_rule1_interest_def copy_rule2_callback_def
  copy_rule2_interest_def copy_rule3_interest_def copy_rule4_interest_def sub64_def add64_def size_max_def

lemma copy_rounds_example:
  "case copy_rounds copy_kernel_example 1 (copy_rules copy_kernel_example)
      (stream_copy_init (copy_fd_example 3) (copy_fd_example 0) (copy_fd_example 1) ()) of
    Inr (rules, s) \<Rightarrow> sc_typed s = [104, 105] | Inl e \<Rightarrow> False"
  by (simp add: copy_evaluate)

theorem stream_copy_faithful_witness:
  "\<exists>rules s. copy_rounds copy_kernel_example 1 (copy_rules copy_kernel_example)
      (stream_copy_init (copy_fd_example 3) (copy_fd_example 0) (copy_fd_example 1) ()) = Inr (rules, s) \<and>
    sc_typed s = [104, 105] \<and> [104, 105] = sc_sent s @ ByteStream_contents (sc_outbound s)"
proof -
  obtain rules s where s: "copy_rounds copy_kernel_example 1 (copy_rules copy_kernel_example)
      (stream_copy_init (copy_fd_example 3) (copy_fd_example 0) (copy_fd_example 1) ()) = Inr (rules, s)"
    "sc_typed s = [104, 105]"
    using copy_rounds_example by (auto split: sum.splits)
  then show ?thesis
    using stream_copy_faithful [OF s(1)] by auto
qed

end
