(* ===== verification/IPv4_Datagram.thy ===== *)
theory IPv4_Datagram
  imports Net_Parser Internet_Checksum
begin

text \<open>
  The IPv4 header and datagram of \<^verbatim>\<open>libsponge/tcp_helpers/ipv4_header.hh\<close>, \<^verbatim>\<open>ipv4_header.cc\<close>,
  \<^verbatim>\<open>ipv4_datagram.hh\<close> and \<^verbatim>\<open>ipv4_datagram.cc\<close>. Serialised datagrams parse back; the datagram parser
  is also shown to accept a datagram whatever its header checksum is, because it drops the verdict
  of the header parser.
\<close>

section \<open>IPv4Header\<close>

record IPv4Header =
  ih_ver :: "8 word"
  ih_hlen :: "8 word"
  ih_tos :: "8 word"
  ih_len :: "16 word"
  ih_id :: "16 word"
  ih_df :: bool
  ih_mf :: bool
  ih_offset :: "16 word"
  ih_ttl :: "8 word"
  ih_proto :: "8 word"
  ih_cksum :: "16 word"
  ih_src :: "32 word"
  ih_dst :: "32 word"

definition IPv4Header_LENGTH :: size_t where
  "IPv4Header_LENGTH = 20"

definition IPv4Header_DEFAULT_TTL :: "8 word" where
  "IPv4Header_DEFAULT_TTL = 128"

definition IPv4Header_PROTO_TCP :: "8 word" where
  "IPv4Header_PROTO_TCP = 6"

definition IPv4Header_default :: IPv4Header where
  "IPv4Header_default =
     \<lparr>ih_ver = 4, ih_hlen = 5, ih_tos = 0, ih_len = 0, ih_id = 0, ih_df = True, ih_mf = False,
      ih_offset = 0, ih_ttl = IPv4Header_DEFAULT_TTL, ih_proto = IPv4Header_PROTO_TCP,
      ih_cksum = 0, ih_src = 0, ih_dst = 0\<rparr>"

definition IPv4Header_parse_fields :: "IPv4Header \<Rightarrow> IPv4Header np" where
  "IPv4Header_parse_fields h =
     np_bind NetParser_u8 (\<lambda>first_byte.
     np_bind NetParser_u8 (\<lambda>tos.
     np_bind NetParser_u16 (\<lambda>len.
     np_bind NetParser_u16 (\<lambda>id.
     np_bind NetParser_u16 (\<lambda>fo_val.
     np_bind NetParser_u8 (\<lambda>ttl.
     np_bind NetParser_u8 (\<lambda>proto.
     np_bind NetParser_u16 (\<lambda>cksum.
     np_bind NetParser_u32 (\<lambda>src.
     np_bind NetParser_u32 (\<lambda>dst.
       np_return
         (h\<lparr>ih_ver := drop_bit 4 first_byte, ih_hlen := first_byte AND 0x0f, ih_tos := tos,
            ih_len := len, ih_id := id, ih_df := (fo_val AND 0x4000 \<noteq> 0),
            ih_mf := (fo_val AND 0x2000 \<noteq> 0), ih_offset := fo_val AND 0x1fff, ih_ttl := ttl,
            ih_proto := proto, ih_cksum := cksum, ih_src := src, ih_dst := dst\<rparr>)))))))))))"

definition IPv4Header_parse :: "IPv4Header \<Rightarrow> (ParseResult \<times> IPv4Header) np" where
  "IPv4Header_parse h p =
     (let original = np_buffer p;
          data_size = Buffer_size (np_buffer p)
      in if data_size < IPv4Header_LENGTH then Inr ((PacketTooShort, h), p)
         else
           np_bind (IPv4Header_parse_fields h) (\<lambda>h'.
             if data_size < 4 * unat (ih_hlen h') then np_return (PacketTooShort, h')
             else if ih_ver h' \<noteq> 4 then np_return (WrongIPVersion, h')
             else if ih_hlen h' < 5 then np_return (HeaderTooShort, h')
             else if data_size \<noteq> unat (ih_len h') then np_return (TruncatedPacket, h')
             else
               np_bind (NetParser_remove_prefix (unat (ih_hlen h') * 4 - IPv4Header_LENGTH)) (\<lambda>_ p.
                 if NetParser_error p then Inr ((np_error p, h'), p)
                 else
                   let check = InternetChecksum_add (take (4 * unat (ih_hlen h')) (Buffer_str original))
                                 (InternetChecksum_init 0)
                   in if InternetChecksum_value check \<noteq> 0 then Inr ((BadChecksum, h'), p)
                      else Inr ((NoError, h'), p))) p)"

definition ip_first_byte :: "IPv4Header \<Rightarrow> 8 word" where
  "ip_first_byte h = push_bit 4 (ih_ver h) OR (ih_hlen h AND 0xf)"

definition ip_fo_val :: "IPv4Header \<Rightarrow> 16 word" where
  "ip_fo_val h =
     (if ih_df h then 0x4000 else 0) OR (if ih_mf h then 0x2000 else 0) OR (ih_offset h AND 0x1fff)"

definition IPv4Header_serialize :: "IPv4Header \<Rightarrow> bytes res" where
  "IPv4Header_serialize h =
     (if ih_ver h \<noteq> 4 then Inl RuntimeError
      else if 4 * unat (ih_hlen h) < IPv4Header_LENGTH then Inl RuntimeError
      else
        let ret = NetUnparser_u8 [] (ip_first_byte h);
            ret = NetUnparser_u8 ret (ih_tos h);
            ret = NetUnparser_u16 ret (ih_len h);
            ret = NetUnparser_u16 ret (ih_id h);
            ret = NetUnparser_u16 ret (ip_fo_val h);
            ret = NetUnparser_u8 ret (ih_ttl h);
            ret = NetUnparser_u8 ret (ih_proto h);
            ret = NetUnparser_u16 ret (ih_cksum h);
            ret = NetUnparser_u32 ret (ih_src h);
            ret = NetUnparser_u32 ret (ih_dst h)
        in Inr (string_resize (4 * unat (ih_hlen h)) ret))"

definition payload_length :: "IPv4Header \<Rightarrow> 16 word" where
  "payload_length h = ih_len h - 4 * ucast (ih_hlen h)"

definition pseudo_cksum :: "IPv4Header \<Rightarrow> 32 word" where
  "pseudo_cksum h =
     (let pcksum = drop_bit 16 (ih_src h) + (ih_src h AND 0xffff);
          pcksum = pcksum + (drop_bit 16 (ih_dst h) + (ih_dst h AND 0xffff));
          pcksum = pcksum + ucast (ih_proto h)
      in pcksum + ucast (payload_length h))"

section \<open>IPv4Datagram\<close>

record IPv4Datagram =
  ipd_header :: IPv4Header
  ipd_payload :: BufferList

definition IPv4Datagram_default :: IPv4Datagram where
  "IPv4Datagram_default = \<lparr>ipd_header = IPv4Header_default, ipd_payload = []\<rparr>"

definition IPv4Datagram_parse :: "Buffer \<Rightarrow> IPv4Datagram \<Rightarrow> (ParseResult \<times> IPv4Datagram) res" where
  "IPv4Datagram_parse buffer dgram =
     bind_res (IPv4Header_parse (ipd_header dgram) (NetParser_init buffer)) (\<lambda>((_, h), p).
       let dgram' = dgram\<lparr>ipd_header := h, ipd_payload := BufferList_of_Buffer (np_buffer p)\<rparr>
       in if BufferList_size (ipd_payload dgram') \<noteq> unat (payload_length h)
          then Inr (PacketTooShort, dgram') else Inr (np_error p, dgram'))"

definition IPv4Datagram_serialize :: "IPv4Datagram \<Rightarrow> BufferList res" where
  "IPv4Datagram_serialize dgram =
     (if BufferList_size (ipd_payload dgram) \<noteq> unat (payload_length (ipd_header dgram))
      then Inl RuntimeError
      else
        let header_out = (ipd_header dgram)\<lparr>ih_cksum := 0\<rparr>
        in bind_res (IPv4Header_serialize header_out) (\<lambda>header_zero_checksum.
             let check = InternetChecksum_add header_zero_checksum (InternetChecksum_init 0);
                 header_out = header_out\<lparr>ih_cksum := InternetChecksum_value check\<rparr>
             in bind_res (IPv4Header_serialize header_out) (\<lambda>header_bytes.
                  Inr (BufferList_append
                         (BufferList_append [] (BufferList_of_string header_bytes))
                         (ipd_payload dgram)))))"

section \<open>The layout of a serialised header\<close>

definition ip_header_bytes :: "IPv4Header \<Rightarrow> 16 word \<Rightarrow> bytes" where
  "ip_header_bytes h ck =
     be8 (ip_first_byte h) @ be8 (ih_tos h) @ be16 (ih_len h) @ be16 (ih_id h) @ be16 (ip_fo_val h) @
     be8 (ih_ttl h) @ be8 (ih_proto h) @ be16 ck @ be32 (ih_src h) @ be32 (ih_dst h) @
     replicate (4 * unat (ih_hlen h) - 20) 0"

lemma IPv4Header_serialize_eq:
  "IPv4Header_serialize h =
     (if ih_ver h \<noteq> 4 \<or> unat (ih_hlen h) < 5 then Inl RuntimeError
      else Inr (ip_header_bytes h (ih_cksum h)))"
  by (auto simp: IPv4Header_serialize_def ip_header_bytes_def string_resize_def Let_def
      IPv4Header_LENGTH_def)

text \<open>Headers whose fields fit their bits on the wire.\<close>

definition IPv4Header_wf :: "IPv4Header \<Rightarrow> bool" where
  "IPv4Header_wf h \<longleftrightarrow>
     ih_ver h = 4 \<and> 5 \<le> unat (ih_hlen h) \<and> unat (ih_hlen h) < 16 \<and> unat (ih_offset h) < 8192"

lemma and_mask_self:
  assumes "unat (x :: 'w::len word) < 2 ^ n"
  shows "x AND mask n = x"
proof -
  have "unat (take_bit n x) = unat x"
    using assms by (simp only: unsigned_take_bit_eq) (simp add: take_bit_nat_eq_self)
  then show ?thesis
    by (simp only: word_unat_eq_iff take_bit_eq_mask)
qed

lemma ip_first_byte_decode:
  assumes "IPv4Header_wf h"
  shows "drop_bit 4 (ip_first_byte h) = 4" "ip_first_byte h AND 0x0f = ih_hlen h"
proof -
  have mask: "(0x0f :: 8 word) = mask 4"
    by (simp add: mask_eq_exp_minus_1)
  have hlen: "ih_hlen h AND 0x0f = ih_hlen h"
    unfolding mask using assms by (intro and_mask_self) (simp add: IPv4Header_wf_def)
  have first: "ip_first_byte h = 0x40 OR (ih_hlen h AND 0x0f)"
    using assms by (simp add: ip_first_byte_def IPv4Header_wf_def push_bit_eq_mult)
  show "ip_first_byte h AND 0x0f = ih_hlen h"
    unfolding first by (simp add: bit.conj_disj_distrib2 and.assoc hlen)
  have "drop_bit 4 (ih_hlen h AND 0x0f) = 0"
    unfolding mask by (rule bit_word_eqI) (auto simp: bit_simps)
  then show "drop_bit 4 (ip_first_byte h) = 4"
    unfolding first drop_bit_or by (simp add: drop_bit_eq_div)
qed

lemma ip_fo_val_decode:
  assumes "IPv4Header_wf h"
  shows "(ip_fo_val h AND 0x4000 \<noteq> 0) = ih_df h" "(ip_fo_val h AND 0x2000 \<noteq> 0) = ih_mf h"
    "ip_fo_val h AND 0x1fff = ih_offset h"
proof -
  have mask: "(0x1fff :: 16 word) = mask 13"
    by (simp add: mask_eq_exp_minus_1)
  have "ih_offset h AND 0x1fff = ih_offset h"
    unfolding mask using assms by (intro and_mask_self) (simp add: IPv4Header_wf_def)
  then show "ip_fo_val h AND 0x1fff = ih_offset h"
    by (simp add: ip_fo_val_def bit.conj_disj_distrib2 and.assoc)
  show "(ip_fo_val h AND 0x4000 \<noteq> 0) = ih_df h" "(ip_fo_val h AND 0x2000 \<noteq> 0) = ih_mf h"
    by (simp_all add: ip_fo_val_def bit.conj_disj_distrib2 and.assoc)
qed

lemma IPv4Header_fields_serialized:
  assumes p: "np_at p (ip_header_bytes h ck @ s)" and wf: "IPv4Header_wf h"
  shows "\<exists>p'. IPv4Header_parse_fields h0 p = Inr (h\<lparr>ih_cksum := ck\<rparr>, p') \<and>
    np_at p' (replicate (4 * unat (ih_hlen h) - 20) 0 @ s)"
proof -
  let ?pad = "replicate (4 * unat (ih_hlen h) - 20) 0 @ s"
  let ?s5 = "be8 (ih_ttl h) @ be8 (ih_proto h) @ be16 ck @ be32 (ih_src h) @ be32 (ih_dst h) @ ?pad"
  obtain p1 where p1: "NetParser_u8 p = Inr (ip_first_byte h, p1)" "np_at p1
      (be8 (ih_tos h) @ be16 (ih_len h) @ be16 (ih_id h) @ be16 (ip_fo_val h) @ ?s5)"
    using u8.get_put p unfolding ip_header_bytes_def append_assoc by blast
  obtain p2 where p2: "NetParser_u8 p1 = Inr (ih_tos h, p2)"
      "np_at p2 (be16 (ih_len h) @ be16 (ih_id h) @ be16 (ip_fo_val h) @ ?s5)"
    using u8.get_put [OF p1(2)] by blast
  obtain p3 where p3: "NetParser_u16 p2 = Inr (ih_len h, p3)"
      "np_at p3 (be16 (ih_id h) @ be16 (ip_fo_val h) @ ?s5)"
    using u16.get_put [OF p2(2)] by blast
  obtain p4 where p4: "NetParser_u16 p3 = Inr (ih_id h, p4)" "np_at p4 (be16 (ip_fo_val h) @ ?s5)"
    using u16.get_put [OF p3(2)] by blast
  obtain p5 where p5: "NetParser_u16 p4 = Inr (ip_fo_val h, p5)" "np_at p5 ?s5"
    using u16.get_put [OF p4(2)] by blast
  obtain p6 where p6: "NetParser_u8 p5 = Inr (ih_ttl h, p6)"
      "np_at p6 (be8 (ih_proto h) @ be16 ck @ be32 (ih_src h) @ be32 (ih_dst h) @ ?pad)"
    using u8.get_put [OF p5(2)] by blast
  obtain p7 where p7: "NetParser_u8 p6 = Inr (ih_proto h, p7)"
      "np_at p7 (be16 ck @ be32 (ih_src h) @ be32 (ih_dst h) @ ?pad)"
    using u8.get_put [OF p6(2)] by blast
  obtain p8 where p8: "NetParser_u16 p7 = Inr (ck, p8)" "np_at p8 (be32 (ih_src h) @ be32 (ih_dst h) @ ?pad)"
    using u16.get_put [OF p7(2)] by blast
  obtain p9 where p9: "NetParser_u32 p8 = Inr (ih_src h, p9)" "np_at p9 (be32 (ih_dst h) @ ?pad)"
    using u32.get_put [OF p8(2)] by blast
  obtain p10 where p10: "NetParser_u32 p9 = Inr (ih_dst h, p10)" "np_at p10 ?pad"
    using u32.get_put [OF p9(2)] by blast
  have "ih_ver h = 4"
    using wf by (simp add: IPv4Header_wf_def)
  then show ?thesis
    using p10(2)
    by (simp add: IPv4Header_parse_fields_def p1(1) p2(1) p3(1) p4(1) p5(1) p6(1) p7(1) p8(1) p9(1)
        p10(1) ip_first_byte_decode [OF wf] ip_fo_val_decode [OF wf])
qed

lemma ip_header_bytes_length:
  assumes "IPv4Header_wf h"
  shows "length (ip_header_bytes h ck) = 4 * unat (ih_hlen h)"
proof -
  have "5 \<le> unat (ih_hlen h)"
    using assms by (simp add: IPv4Header_wf_def)
  then show ?thesis
    by (simp add: ip_header_bytes_def)
qed

lemma IPv4Header_parse_serialized:
  assumes p: "np_at p (ip_header_bytes h ck @ s)" and wf: "IPv4Header_wf h"
    and len: "unat (ih_len h) = 4 * unat (ih_hlen h) + length s"
  shows "\<exists>p'. IPv4Header_parse h0 p =
      Inr ((if inet_cksum 0 (ip_header_bytes h ck) = 0 then NoError else BadChecksum,
            h\<lparr>ih_cksum := ck\<rparr>), p') \<and> np_at p' s"
proof -
  have hl: "5 \<le> unat (ih_hlen h)" "ih_ver h = 4"
    using wf by (simp_all add: IPv4Header_wf_def)
  then have small: "\<not> ih_hlen h < 5"
    by (simp add: word_less_nat_alt)
  have str: "Buffer_str (np_buffer p) = ip_header_bytes h ck @ s"
    using p by (simp add: np_at_def np_rest_def)
  obtain p1 where p1: "IPv4Header_parse_fields h0 p = Inr (h\<lparr>ih_cksum := ck\<rparr>, p1)"
    "np_at p1 (replicate (4 * unat (ih_hlen h) - 20) 0 @ s)"
    using IPv4Header_fields_serialized [OF p wf] by blast
  obtain p2 where p2: "NetParser_remove_prefix (unat (ih_hlen h) * 4 - 20) p1 = Inr ((), p2)" "np_at p2 s"
    using NetParser_remove_prefix_at [OF p1(2), of "unat (ih_hlen h) * 4 - 20"]
    by (auto simp: mult.commute)
  have "\<not> NetParser_error p2"
    using p2(2) by (simp add: np_at_def NetParser_error_def)
  then show ?thesis
    using hl small len p1(1) p2 ip_header_bytes_length [OF wf, of ck]
    by (simp add: IPv4Header_parse_def Let_def str Buffer_size_def IPv4Header_LENGTH_def inet_cksum_def)
qed

lemma payload_length_eq:
  assumes "unat (ih_len h) = 4 * unat (ih_hlen h) + n"
  shows "unat (payload_length h) = n"
proof -
  have h: "unat (4 * ucast (ih_hlen h) :: 16 word) = 4 * unat (ih_hlen h)"
    using unat_byte_less [of "ih_hlen h"]
    by (simp add: unat_word_ariths unsigned_ucast_eq take_bit_eq_mod)
  then have "4 * ucast (ih_hlen h) \<le> ih_len h"
    using assms by (simp add: word_le_nat_alt)
  then show ?thesis
    using assms h by (simp add: payload_length_def unat_sub)
qed

lemma IPv4Datagram_parse_buffer:
  assumes wf: "IPv4Header_wf h" and len: "unat (ih_len h) = 4 * unat (ih_hlen h) + length s"
    and buf: "Buffer_wf buf" "Buffer_str buf = ip_header_bytes h ck @ s"
  shows "\<exists>b. IPv4Datagram_parse buf dgram =
      Inr (NoError, dgram\<lparr>ipd_header := h\<lparr>ih_cksum := ck\<rparr>, ipd_payload := [b]\<rparr>) \<and>
    Buffer_wf b \<and> Buffer_str b = s"
proof -
  have "np_at (NetParser_init buf) (ip_header_bytes h ck @ s)"
    using np_at_init [OF buf(1)] buf(2) by simp
  from IPv4Header_parse_serialized [OF this wf len] obtain r p'
    where p': "IPv4Header_parse (ipd_header dgram) (NetParser_init buf) = Inr ((r, h\<lparr>ih_cksum := ck\<rparr>), p')"
      "np_at p' s"
    by blast
  have "unat (payload_length (h\<lparr>ih_cksum := ck\<rparr>)) = length s"
    using len by (intro payload_length_eq) simp
  moreover have "Buffer_str (np_buffer p') = s" "Buffer_wf (np_buffer p')" "np_error p' = NoError"
    using p'(2) by (simp_all add: np_at_def np_rest_def np_wf_def)
  ultimately show ?thesis
    using p'(1)
    by (intro exI [of _ "np_buffer p'"])
      (simp add: IPv4Datagram_parse_def Let_def BufferList_of_Buffer_def bufl.size_contents)
qed

lemma IPv4Datagram_parse_serialized:
  assumes "IPv4Header_wf h" and "unat (ih_len h) = 4 * unat (ih_hlen h) + length s"
  shows "\<exists>payload'. IPv4Datagram_parse (Buffer_of_string (ip_header_bytes h ck @ s)) dgram =
      Inr (NoError, dgram\<lparr>ipd_header := h\<lparr>ih_cksum := ck\<rparr>, ipd_payload := payload'\<rparr>) \<and>
    BufferList_concatenate payload' = s"
proof -
  obtain b where "IPv4Datagram_parse (Buffer_of_string (ip_header_bytes h ck @ s)) dgram =
      Inr (NoError, dgram\<lparr>ipd_header := h\<lparr>ih_cksum := ck\<rparr>, ipd_payload := [b]\<rparr>)" "Buffer_str b = s"
    using IPv4Datagram_parse_buffer [OF assms, of "Buffer_of_string (ip_header_bytes h ck @ s)" ck dgram] by auto
  then show ?thesis
    by (intro exI [of _ "[b]"]) simp
qed

section \<open>Checksums of serialised headers\<close>

lemma ip_header_bytes_cksum_update [simp]:
  "ip_header_bytes (h\<lparr>ih_cksum := x\<rparr>) ck = ip_header_bytes h ck"
  by (simp add: ip_header_bytes_def ip_first_byte_def ip_fo_val_def)

lemma ip_checksum_verifies:
  assumes "IPv4Header_wf h"
  shows "inet_cksum 0 (ip_header_bytes h (inet_cksum 0 (ip_header_bytes h 0))) = 0"
proof -
  let ?pre = "be8 (ip_first_byte h) @ be8 (ih_tos h) @ be16 (ih_len h) @ be16 (ih_id h) @
    be16 (ip_fo_val h) @ be8 (ih_ttl h) @ be8 (ih_proto h)"
  let ?post = "be32 (ih_src h) @ be32 (ih_dst h) @ replicate (4 * unat (ih_hlen h) - 20) 0"
  let ?c = "inet_cksum 0 (ip_header_bytes h 0)"
  have h: "ip_header_bytes h ck = ?pre @ be16 ck @ ?post" for ck
    by (simp add: ip_header_bytes_def)
  have "length (ip_header_bytes h 0) \<le> 60"
    using assms by (simp add: ip_header_bytes_length) (simp add: IPv4Header_wf_def)
  then have "bytes_sum False (ip_header_bytes h 0) \<le> 65280 * 60"
    using bytes_sum_le [of False "ip_header_bytes h 0"] by (meson mult_le_mono2 order_trans)
  then have "unat (0 :: 32 word) + bytes_sum False (?pre @ [0, 0] @ ?post) + 65535 < 2 ^ 32"
    by (simp add: h)
  then have "inet_cksum 0 (?pre @ [ucast (drop_bit 8 ?c), ucast ?c] @ ?post) = 0"
    by (intro inet_cksum_insert) (simp_all add: be16_sum h)
  then show ?thesis
    by (simp only: h [of ?c] be16_bytes [of ?c])
qed

lemma IPv4Datagram_serialize_eq:
  assumes "IPv4Header_wf (ipd_header dgram)"
    and "unat (ih_len (ipd_header dgram)) =
      4 * unat (ih_hlen (ipd_header dgram)) + length (BufferList_concatenate (ipd_payload dgram))"
  shows "IPv4Datagram_serialize dgram =
    Inr (Buffer_of_string (ip_header_bytes (ipd_header dgram)
           (inet_cksum 0 (ip_header_bytes (ipd_header dgram) 0))) # ipd_payload dgram)"
proof -
  have "ih_ver (ipd_header dgram) = 4" "\<not> unat (ih_hlen (ipd_header dgram)) < 5"
    using assms(1) by (simp_all add: IPv4Header_wf_def)
  then show ?thesis
    using payload_length_eq [OF assms(2)]
    by (simp add: IPv4Datagram_serialize_def bufl.size_contents Let_def IPv4Header_serialize_eq inet_cksum_def)
qed

section \<open>Properties\<close>

text \<open>
  C17. A well-formed datagram that is serialised parses back without error to the same payload and the
  same header with the computed checksum, and that checksum verifies.
\<close>

theorem IPv4Datagram_roundtrip:
  assumes "IPv4Header_wf (ipd_header dgram)"
    and "unat (ih_len (ipd_header dgram)) =
      4 * unat (ih_hlen (ipd_header dgram)) + length (BufferList_concatenate (ipd_payload dgram))"
  shows "\<exists>bl ck payload'. IPv4Datagram_serialize dgram = Inr bl \<and>
    IPv4Datagram_parse (Buffer_of_string (BufferList_concatenate bl)) dgram0 =
      Inr (NoError, dgram0\<lparr>ipd_header := (ipd_header dgram)\<lparr>ih_cksum := ck\<rparr>, ipd_payload := payload'\<rparr>) \<and>
    BufferList_concatenate payload' = BufferList_concatenate (ipd_payload dgram) \<and>
    inet_cksum 0 (ip_header_bytes (ipd_header dgram) ck) = 0"
proof -
  let ?ck = "inet_cksum 0 (ip_header_bytes (ipd_header dgram) 0)"
  show ?thesis
    using IPv4Datagram_serialize_eq [OF assms] IPv4Datagram_parse_serialized [OF assms, of ?ck dgram0]
      ip_checksum_verifies [OF assms(1)]
    by fastforce
qed

theorem IPv4Datagram_roundtrip_witness:
  "\<exists>bl ck payload'. IPv4Datagram_serialize
      \<lparr>ipd_header = IPv4Header_default\<lparr>ih_len := 22\<rparr>, ipd_payload = [Buffer_of_string [7, 8]]\<rparr> = Inr bl \<and>
    IPv4Datagram_parse (Buffer_of_string (BufferList_concatenate bl)) IPv4Datagram_default =
      Inr (NoError, IPv4Datagram_default\<lparr>ipd_header := IPv4Header_default\<lparr>ih_len := 22, ih_cksum := ck\<rparr>,
        ipd_payload := payload'\<rparr>) \<and>
    BufferList_concatenate payload' = [7, 8]"
  using IPv4Datagram_roundtrip [of "\<lparr>ipd_header = IPv4Header_default\<lparr>ih_len := 22\<rparr>,
      ipd_payload = [Buffer_of_string [7, 8]]\<rparr>" IPv4Datagram_default]
  by (auto simp: IPv4Header_wf_def IPv4Header_default_def)

text \<open>
  The datagram parser does not enforce the header checksum: the header parser reports
  \<open>BadChecksum\<close> when the checksum over the header is not zero, but the datagram parser drops that
  verdict and accepts the datagram with every value of the checksum field.
\<close>

lemma IPv4Datagram_parse_ignores_checksum:
  assumes "IPv4Header_wf h" and "unat (ih_len h) = 4 * unat (ih_hlen h) + length s"
    and "inet_cksum 0 (ip_header_bytes h ck) \<noteq> 0"
  shows "(\<exists>h' p'. IPv4Header_parse h0 (NetParser_init (Buffer_of_string (ip_header_bytes h ck @ s))) =
        Inr ((BadChecksum, h'), p')) \<and>
    (\<exists>dgram'. IPv4Datagram_parse (Buffer_of_string (ip_header_bytes h ck @ s)) dgram = Inr (NoError, dgram'))"
proof
  have "np_at (NetParser_init (Buffer_of_string (ip_header_bytes h ck @ s))) (ip_header_bytes h ck @ s)"
    using np_at_init [of "Buffer_of_string (ip_header_bytes h ck @ s)"] by simp
  from IPv4Header_parse_serialized [OF this assms(1,2), of h0] assms(3)
  show "\<exists>h' p'. IPv4Header_parse h0 (NetParser_init (Buffer_of_string (ip_header_bytes h ck @ s))) =
      Inr ((BadChecksum, h'), p')"
    by auto
  show "\<exists>dgram'. IPv4Datagram_parse (Buffer_of_string (ip_header_bytes h ck @ s)) dgram = Inr (NoError, dgram')"
    using IPv4Datagram_parse_serialized [OF assms(1,2), of ck dgram] by blast
qed

lemma IPv4Datagram_parse_ignores_checksum_witness:
  "\<exists>dgram'. IPv4Datagram_parse (Buffer_of_string (ip_header_bytes (IPv4Header_default\<lparr>ih_len := 20\<rparr>) 1))
      IPv4Datagram_default = Inr (NoError, dgram')"
proof -
  let ?h = "IPv4Header_default\<lparr>ih_len := 20\<rparr>"
  have wf: "IPv4Header_wf ?h" "unat (ih_len ?h) = 4 * unat (ih_hlen ?h) + length ([] :: bytes)"
    by (simp_all add: IPv4Header_wf_def IPv4Header_default_def)
  have bytes: "ip_header_bytes ?h 1 = [0x45, 0, 0, 20, 0, 0, 0x40, 0, 128, 6, 0, 1, 0, 0, 0, 0, 0, 0, 0, 0]"
    by (simp add: ip_header_bytes_def IPv4Header_default_def IPv4Header_DEFAULT_TTL_def
        IPv4Header_PROTO_TCP_def ip_first_byte_def ip_fo_val_def be8_def be32_def be16_bytes be_bytes_def
        drop_bit_eq_div push_bit_eq_mult upt_rec)
  have "inet_cksum 0 (ip_header_bytes ?h 1) \<noteq> 0"
    using inet_cksum_zero_iff [of 0 "ip_header_bytes ?h 1"] by (simp add: bytes)
  from IPv4Datagram_parse_ignores_checksum [OF wf this] show ?thesis
    by simp
qed

section \<open>The parsers never throw\<close>

lemma IPv4Header_parse_fields_reads: "np_reads (IPv4Header_parse_fields h) 20"
proof -
  have "np_reads (IPv4Header_parse_fields h) (1 + (1 + (2 + (2 + (2 + (1 + (1 + (2 + (4 + (4 + 0))))))))))"
    unfolding IPv4Header_parse_fields_def by (intro np_reads_intros)
  then show ?thesis
    by simp
qed

lemma IPv4Header_parse_total:
  assumes "np_wf p"
  shows "\<exists>r h' p'. IPv4Header_parse h p = Inr ((r, h'), p') \<and> np_wf p'"
proof -
  obtain h' p1 where p1: "IPv4Header_parse_fields h p = Inr (h', p1)" "np_wf p1"
    using IPv4Header_parse_fields_reads assms by (rule np_readsE)
  obtain p2 where "NetParser_remove_prefix (unat (ih_hlen h') * 4 - IPv4Header_LENGTH) p1 = Inr ((), p2)" "np_wf p2"
    using NetParser_remove_prefix_total [OF p1(2)] by blast
  then show ?thesis
    using assms p1 by (simp add: IPv4Header_parse_def Let_def)
qed

text \<open>What the datagram parser accepts has a payload of the announced length, and nothing more.\<close>

lemma IPv4Datagram_parse_total:
  assumes "Buffer_wf b"
  shows "\<exists>r d. IPv4Datagram_parse b d0 = Inr (r, d) \<and>
    (r = NoError \<longrightarrow> BufferList_size (ipd_payload d) = unat (payload_length (ipd_header d)))"
proof -
  have "np_wf (NetParser_init b)"
    using np_at_init [OF assms] by (simp add: np_at_def)
  from IPv4Header_parse_total [OF this, of "ipd_header d0"] show ?thesis
    by (auto simp: IPv4Datagram_parse_def Let_def)
qed

end
