(* ===== verification/Ethernet_Frame.thy ===== *)
theory Ethernet_Frame
  imports Net_Parser
begin

text \<open>
  Ethernet headers and frames (\<^verbatim>\<open>libsponge/tcp_helpers/ethernet_header.hh\<close>, \<^verbatim>\<open>ethernet_header.cc\<close>,
  \<^verbatim>\<open>ethernet_frame.hh\<close>, \<^verbatim>\<open>ethernet_frame.cc\<close>) and ARP messages (\<^verbatim>\<open>arp_message.hh\<close>,
  \<^verbatim>\<open>arp_message.cc\<close>). An Ethernet address is an array of six bytes; it meets the \<open>wire_field\<close>
  contract, and so the round trips of frames and messages follow the pattern of the other formats.
\<close>

section \<open>EthernetAddress\<close>

datatype EthernetAddress = MAC byte byte byte byte byte byte

fun mac_bytes :: "EthernetAddress \<Rightarrow> bytes" where
  "mac_bytes (MAC a b c d e f) = [a, b, c, d, e, f]"

definition mac_of_bytes :: "bytes \<Rightarrow> EthernetAddress" where
  "mac_of_bytes bs = MAC (bs ! 0) (bs ! 1) (bs ! 2) (bs ! 3) (bs ! 4) (bs ! 5)"

definition ETHERNET_BROADCAST :: EthernetAddress where
  "ETHERNET_BROADCAST = MAC 0xff 0xff 0xff 0xff 0xff 0xff"

text \<open>The loop that assigns \<^verbatim>\<open>p.u8()\<close> to each element of the array.\<close>

fun np_bytes :: "nat \<Rightarrow> bytes np" where
  "np_bytes 0 = np_return []"
| "np_bytes (Suc n) =
     np_bind NetParser_u8 (\<lambda>b. np_bind (np_bytes n) (\<lambda>bs. np_return (b # bs)))"

definition np_mac :: "EthernetAddress np" where
  "np_mac = np_bind (np_bytes 6) (\<lambda>bs. np_return (mac_of_bytes bs))"

text \<open>The loop that appends each element of the array.\<close>

definition put_mac :: "bytes \<Rightarrow> EthernetAddress \<Rightarrow> bytes" where
  "put_mac s a = fold (\<lambda>b s. NetUnparser_u8 s b) (mac_bytes a) s"

section \<open>EthernetHeader\<close>

record EthernetHeader =
  eh_dst :: EthernetAddress
  eh_src :: EthernetAddress
  eh_type :: "16 word"

definition EthernetHeader_LENGTH :: size_t where
  "EthernetHeader_LENGTH = 14"

definition EthernetHeader_TYPE_IPv4 :: "16 word" where
  "EthernetHeader_TYPE_IPv4 = 0x800"

definition EthernetHeader_TYPE_ARP :: "16 word" where
  "EthernetHeader_TYPE_ARP = 0x806"

definition EthernetHeader_default :: EthernetHeader where
  "EthernetHeader_default = \<lparr>eh_dst = MAC 0 0 0 0 0 0, eh_src = MAC 0 0 0 0 0 0, eh_type = 0\<rparr>"

definition EthernetHeader_parse :: "EthernetHeader \<Rightarrow> (ParseResult \<times> EthernetHeader) np" where
  "EthernetHeader_parse h p =
     (if Buffer_size (np_buffer p) < EthernetHeader_LENGTH then Inr ((PacketTooShort, h), p)
      else
        np_bind np_mac (\<lambda>dst.
        np_bind np_mac (\<lambda>src.
        np_bind NetParser_u16 (\<lambda>ty p.
          Inr ((np_error p, h\<lparr>eh_dst := dst, eh_src := src, eh_type := ty\<rparr>), p)))) p)"

definition EthernetHeader_serialize :: "EthernetHeader \<Rightarrow> bytes" where
  "EthernetHeader_serialize h =
     (let ret = put_mac [] (eh_dst h);
          ret = put_mac ret (eh_src h)
      in NetUnparser_u16 ret (eh_type h))"

section \<open>EthernetFrame\<close>

record EthernetFrame =
  ef_header :: EthernetHeader
  ef_payload :: BufferList

definition EthernetFrame_default :: EthernetFrame where
  "EthernetFrame_default = \<lparr>ef_header = EthernetHeader_default, ef_payload = []\<rparr>"

definition EthernetFrame_parse :: "Buffer \<Rightarrow> EthernetFrame \<Rightarrow> (ParseResult \<times> EthernetFrame) res" where
  "EthernetFrame_parse buffer frame =
     bind_res (EthernetHeader_parse (ef_header frame) (NetParser_init buffer)) (\<lambda>((_, h), p).
       Inr (np_error p, frame\<lparr>ef_header := h, ef_payload := BufferList_of_Buffer (np_buffer p)\<rparr>))"

definition EthernetFrame_serialize :: "EthernetFrame \<Rightarrow> BufferList" where
  "EthernetFrame_serialize frame =
     BufferList_append
       (BufferList_append [] (BufferList_of_string (EthernetHeader_serialize (ef_header frame))))
       (ef_payload frame)"

section \<open>ARPMessage\<close>

record ARPMessage =
  arp_hardware_type :: "16 word"
  arp_protocol_type :: "16 word"
  arp_hardware_address_size :: "8 word"
  arp_protocol_address_size :: "8 word"
  arp_opcode :: "16 word"
  arp_sender_ethernet_address :: EthernetAddress
  arp_sender_ip_address :: "32 word"
  arp_target_ethernet_address :: EthernetAddress
  arp_target_ip_address :: "32 word"

definition ARPMessage_LENGTH :: size_t where
  "ARPMessage_LENGTH = 28"

definition ARPMessage_TYPE_ETHERNET :: "16 word" where
  "ARPMessage_TYPE_ETHERNET = 1"

definition ARPMessage_OPCODE_REQUEST :: "16 word" where
  "ARPMessage_OPCODE_REQUEST = 1"

definition ARPMessage_OPCODE_REPLY :: "16 word" where
  "ARPMessage_OPCODE_REPLY = 2"

definition ARPMessage_default :: ARPMessage where
  "ARPMessage_default =
     \<lparr>arp_hardware_type = ARPMessage_TYPE_ETHERNET, arp_protocol_type = EthernetHeader_TYPE_IPv4,
      arp_hardware_address_size = 6, arp_protocol_address_size = 4, arp_opcode = 0,
      arp_sender_ethernet_address = MAC 0 0 0 0 0 0, arp_sender_ip_address = 0,
      arp_target_ethernet_address = MAC 0 0 0 0 0 0, arp_target_ip_address = 0\<rparr>"

definition ARPMessage_supported :: "ARPMessage \<Rightarrow> bool" where
  "ARPMessage_supported m \<longleftrightarrow>
     arp_hardware_type m = ARPMessage_TYPE_ETHERNET \<and>
     arp_protocol_type m = EthernetHeader_TYPE_IPv4 \<and>
     arp_hardware_address_size m = 6 \<and> arp_protocol_address_size m = 4 \<and>
     (arp_opcode m = ARPMessage_OPCODE_REQUEST \<or> arp_opcode m = ARPMessage_OPCODE_REPLY)"

definition ARPMessage_parse :: "Buffer \<Rightarrow> ARPMessage \<Rightarrow> (ParseResult \<times> ARPMessage) res" where
  "ARPMessage_parse buffer m =
     (let p = NetParser_init buffer
      in if Buffer_size (np_buffer p) < ARPMessage_LENGTH then Inr (PacketTooShort, m)
         else
           bind_res
             (np_bind NetParser_u16 (\<lambda>hardware_type.
              np_bind NetParser_u16 (\<lambda>protocol_type.
              np_bind NetParser_u8 (\<lambda>hardware_address_size.
              np_bind NetParser_u8 (\<lambda>protocol_address_size.
              np_bind NetParser_u16 (\<lambda>opcode.
                let m = m\<lparr>arp_hardware_type := hardware_type, arp_protocol_type := protocol_type,
                          arp_hardware_address_size := hardware_address_size,
                          arp_protocol_address_size := protocol_address_size, arp_opcode := opcode\<rparr>
                in if \<not> ARPMessage_supported m then np_return (Unsupported, m)
                   else
                     np_bind np_mac (\<lambda>sender_ethernet_address.
                     np_bind NetParser_u32 (\<lambda>sender_ip_address.
                     np_bind np_mac (\<lambda>target_ethernet_address.
                     np_bind NetParser_u32 (\<lambda>target_ip_address p.
                       Inr ((np_error p,
                             m\<lparr>arp_sender_ethernet_address := sender_ethernet_address,
                               arp_sender_ip_address := sender_ip_address,
                               arp_target_ethernet_address := target_ethernet_address,
                               arp_target_ip_address := target_ip_address\<rparr>), p)))))))))) p)
             (\<lambda>((r, m'), _). Inr (r, m')))"

definition ARPMessage_serialize :: "ARPMessage \<Rightarrow> bytes res" where
  "ARPMessage_serialize m =
     (if \<not> ARPMessage_supported m then Inl RuntimeError
      else
        let ret = NetUnparser_u16 [] (arp_hardware_type m);
            ret = NetUnparser_u16 ret (arp_protocol_type m);
            ret = NetUnparser_u8 ret (arp_hardware_address_size m);
            ret = NetUnparser_u8 ret (arp_protocol_address_size m);
            ret = NetUnparser_u16 ret (arp_opcode m);
            ret = put_mac ret (arp_sender_ethernet_address m);
            ret = NetUnparser_u32 ret (arp_sender_ip_address m);
            ret = put_mac ret (arp_target_ethernet_address m)
        in Inr (NetUnparser_u32 ret (arp_target_ip_address m)))"

section \<open>Addresses on the wire\<close>

lemma be8_eq [simp]: "be8 b = [b]"
  by (simp add: be8_def be_bytes_def)

lemma put_mac_eq [simp]: "put_mac s a = s @ mac_bytes a"
  by (cases a) (simp add: put_mac_def)

lemma mac_of_mac_bytes [simp]: "mac_of_bytes (mac_bytes a) = a"
  by (cases a) (simp add: mac_of_bytes_def)

lemma np_bytes_reads: "np_reads (np_bytes n) n"
proof (induction n)
  case (Suc n)
  have "np_reads (np_bytes (Suc n)) (1 + (n + 0))"
    unfolding np_bytes.simps by (intro np_reads_intros Suc)
  then show ?case by (simp del: np_bytes.simps)
qed (simp only: np_bytes.simps np_reads_return)

lemma np_bytes_consumes:
  assumes "np_wf p" and "np_bytes n p = Inr (bs, p')" and "np_error p' = NoError"
  shows "length bs = n \<and> np_rest p = bs @ np_rest p'"
  using assms
proof (induction n arbitrary: p bs)
  case (Suc n)
  obtain b p1 bs' where 1: "NetParser_u8 p = Inr (b, p1)" "np_bytes n p1 = Inr (bs', p')" "bs = b # bs'"
    using Suc.prems(2) by (auto simp: bind_res_eq_Inr)
  obtain "np_wf p1"
    using u8.get_total [OF Suc.prems(1)] 1(1) by auto
  then have 2: "length bs' = n \<and> np_rest p1 = bs' @ np_rest p'"
    using Suc.IH 1(2) Suc.prems(3) by blast
  have "np_error p1 = NoError"
    using np_bytes_reads [of n] \<open>np_wf p1\<close> 1(2) Suc.prems(3) by (fastforce simp: np_reads_def)
  then show ?case
    using u8.get_consumes [OF Suc.prems(1) 1(1)] 1(3) 2 by simp
qed (simp add: np_return_def)

interpretation mac: wire_field np_mac mac_bytes 6
proof unfold_locales
  fix a a' :: EthernetAddress and p p'
  show "length (mac_bytes a) = 6"
    by (cases a) simp
  show "mac_bytes a = mac_bytes a' \<Longrightarrow> a = a'"
    by (cases a; cases a') simp
  assume p: "np_wf p"
  obtain bs q where q: "np_bytes 6 p = Inr (bs, q)" "np_wf q"
    "np_error q = np_error p \<or> np_error q = PacketTooShort"
    "np_error q = NoError \<longleftrightarrow> np_error p = NoError \<and> 6 \<le> length (np_rest p)"
    using np_bytes_reads p by (rule np_readsE) blast
  then have mac: "np_mac p = Inr (mac_of_bytes bs, q)"
    by (simp add: np_mac_def)
  then show "\<exists>v p'. np_mac p = Inr (v, p') \<and> np_wf p' \<and>
      (np_error p' = np_error p \<or> np_error p' = PacketTooShort)"
    using q by simp
  assume "np_mac p = Inr (a, p')"
  then have a: "a = mac_of_bytes bs" "p' = q"
    using mac by simp_all
  show "np_error p' = NoError \<longleftrightarrow> np_error p = NoError \<and> 6 \<le> length (np_rest p)"
    using q a by simp
  assume "np_error p' = NoError"
  then have "length bs = 6 \<and> np_rest p = bs @ np_rest p'"
    using np_bytes_consumes [OF p q(1)] a by simp
  moreover have "mac_bytes (mac_of_bytes bs) = bs" if "length bs = 6"
    using that by (auto simp: mac_of_bytes_def eval_nat_numeral length_Suc_conv)
  ultimately show "np_rest p = mac_bytes a @ np_rest p'"
    using a by simp
qed

section \<open>Serialised frames and messages\<close>

lemma EthernetHeader_serialize_eq:
  "EthernetHeader_serialize h = mac_bytes (eh_dst h) @ mac_bytes (eh_src h) @ be16 (eh_type h)"
  by (simp add: EthernetHeader_serialize_def Let_def)

lemma EthernetHeader_parse_serialized:
  assumes "np_at p (EthernetHeader_serialize h @ s)"
  shows "\<exists>p'. EthernetHeader_parse h0 p = Inr ((NoError, h), p') \<and> np_at p' s"
proof -
  have p: "np_at p (mac_bytes (eh_dst h) @ mac_bytes (eh_src h) @ be16 (eh_type h) @ s)"
    using assms by (simp add: EthernetHeader_serialize_eq)
  obtain p1 where p1: "np_mac p = Inr (eh_dst h, p1)" "np_at p1 (mac_bytes (eh_src h) @ be16 (eh_type h) @ s)"
    using mac.get_put [OF p] by blast
  obtain p2 where p2: "np_mac p1 = Inr (eh_src h, p2)" "np_at p2 (be16 (eh_type h) @ s)"
    using mac.get_put [OF p1(2)] by blast
  obtain p3 where p3: "NetParser_u16 p2 = Inr (eh_type h, p3)" "np_at p3 s"
    using u16.get_put [OF p2(2)] by blast
  have "14 \<le> Buffer_size (np_buffer p)"
    using p mac.put_length by (simp add: np_at_def np_rest_def Buffer_size_def)
  then show ?thesis
    using p3(2) by (simp add: EthernetHeader_parse_def EthernetHeader_LENGTH_def p1(1) p2(1) p3(1) np_at_def)
qed

lemma ARPMessage_serialize_eq:
  "ARPMessage_serialize m =
     (if ARPMessage_supported m then
        Inr (be16 (arp_hardware_type m) @ be16 (arp_protocol_type m) @ be8 (arp_hardware_address_size m) @
             be8 (arp_protocol_address_size m) @ be16 (arp_opcode m) @
             mac_bytes (arp_sender_ethernet_address m) @ be32 (arp_sender_ip_address m) @
             mac_bytes (arp_target_ethernet_address m) @ be32 (arp_target_ip_address m))
      else Inl RuntimeError)"
  by (simp add: ARPMessage_serialize_def Let_def)

lemma ARPMessage_parse_serialized:
  assumes m: "ARPMessage_serialize m = Inr bs"
  shows "ARPMessage_parse (Buffer_of_string (bs @ s)) m0 = Inr (NoError, m)"
proof -
  let ?p = "NetParser_init (Buffer_of_string (bs @ s))"
  have sup: "ARPMessage_supported m"
    using m by (simp add: ARPMessage_serialize_eq split: if_splits)
  let ?addr = "mac_bytes (arp_sender_ethernet_address m) @ be32 (arp_sender_ip_address m) @
     mac_bytes (arp_target_ethernet_address m) @ be32 (arp_target_ip_address m) @ s"
  have bs: "bs @ s = be16 (arp_hardware_type m) @ be16 (arp_protocol_type m) @
      be8 (arp_hardware_address_size m) @ be8 (arp_protocol_address_size m) @ be16 (arp_opcode m) @ ?addr"
    using m sup by (auto simp: ARPMessage_serialize_eq)
  have "np_at ?p (bs @ s)"
    using np_at_init [of "Buffer_of_string (bs @ s)"] by simp
  then obtain p1 where p1: "NetParser_u16 ?p = Inr (arp_hardware_type m, p1)"
    "np_at p1 (be16 (arp_protocol_type m) @ be8 (arp_hardware_address_size m) @
      be8 (arp_protocol_address_size m) @ be16 (arp_opcode m) @ ?addr)"
    using u16.get_put unfolding bs by blast
  obtain p2 where p2: "NetParser_u16 p1 = Inr (arp_protocol_type m, p2)"
    "np_at p2 (be8 (arp_hardware_address_size m) @ be8 (arp_protocol_address_size m) @ be16 (arp_opcode m) @ ?addr)"
    using u16.get_put [OF p1(2)] by blast
  obtain p3 where p3: "NetParser_u8 p2 = Inr (arp_hardware_address_size m, p3)"
    "np_at p3 (be8 (arp_protocol_address_size m) @ be16 (arp_opcode m) @ ?addr)"
    using u8.get_put [OF p2(2)] by blast
  obtain p4 where p4: "NetParser_u8 p3 = Inr (arp_protocol_address_size m, p4)" "np_at p4 (be16 (arp_opcode m) @ ?addr)"
    using u8.get_put [OF p3(2)] by blast
  obtain p5 where p5: "NetParser_u16 p4 = Inr (arp_opcode m, p5)" "np_at p5 ?addr"
    using u16.get_put [OF p4(2)] by blast
  obtain p6 where p6: "np_mac p5 = Inr (arp_sender_ethernet_address m, p6)" "np_at p6
      (be32 (arp_sender_ip_address m) @ mac_bytes (arp_target_ethernet_address m) @ be32 (arp_target_ip_address m) @ s)"
    using mac.get_put [OF p5(2)] by blast
  obtain p7 where p7: "NetParser_u32 p6 = Inr (arp_sender_ip_address m, p7)" "np_at p7
      (mac_bytes (arp_target_ethernet_address m) @ be32 (arp_target_ip_address m) @ s)"
    using u32.get_put [OF p6(2)] by blast
  obtain p8 where p8: "np_mac p7 = Inr (arp_target_ethernet_address m, p8)" "np_at p8 (be32 (arp_target_ip_address m) @ s)"
    using mac.get_put [OF p7(2)] by blast
  obtain p9 where p9: "NetParser_u32 p8 = Inr (arp_target_ip_address m, p9)" "np_at p9 s"
    using u32.get_put [OF p8(2)] by blast
  have "28 \<le> Buffer_size (np_buffer ?p)"
    using mac.put_length by (simp add: NetParser_init_def Buffer_size_def bs)
  moreover have "np_error p9 = NoError"
    using p9(2) by (simp add: np_at_def)
  moreover have "ARPMessage_supported (m0\<lparr>arp_hardware_type := arp_hardware_type m,
      arp_protocol_type := arp_protocol_type m, arp_hardware_address_size := arp_hardware_address_size m,
      arp_protocol_address_size := arp_protocol_address_size m, arp_opcode := arp_opcode m\<rparr>)"
    using sup by (simp add: ARPMessage_supported_def)
  ultimately show ?thesis
    by (simp add: ARPMessage_parse_def ARPMessage_LENGTH_def Let_def p1(1) p2(1) p3(1) p4(1) p5(1) p6(1)
        p7(1) p8(1) p9(1))
qed

lemma EthernetFrame_parse_serialized:
  "\<exists>b. EthernetFrame_parse
      (Buffer_of_string (BufferList_concatenate (EthernetFrame_serialize frame))) frame0 =
      Inr (NoError, frame0\<lparr>ef_header := ef_header frame, ef_payload := [b]\<rparr>) \<and>
    Buffer_wf b \<and> Buffer_str b = BufferList_concatenate (ef_payload frame)"
proof -
  let ?s = "EthernetHeader_serialize (ef_header frame) @ BufferList_concatenate (ef_payload frame)"
  have bytes: "BufferList_concatenate (EthernetFrame_serialize frame) = ?s"
    by (simp add: EthernetFrame_serialize_def)
  have "np_at (NetParser_init (Buffer_of_string ?s)) ?s"
    using np_at_init [of "Buffer_of_string ?s"] by simp
  from EthernetHeader_parse_serialized [OF this, of "ef_header frame0"] show ?thesis
    unfolding bytes
    by (auto simp: EthernetFrame_parse_def BufferList_of_Buffer_def np_at_def np_rest_def np_wf_def)
qed

section \<open>Properties\<close>

text \<open>
  Every frame that is serialised parses back without error to the same header and payload.
\<close>

lemma EthernetFrame_roundtrip:
  "\<exists>payload'. EthernetFrame_parse
      (Buffer_of_string (BufferList_concatenate (EthernetFrame_serialize frame))) frame0 =
      Inr (NoError, frame0\<lparr>ef_header := ef_header frame, ef_payload := payload'\<rparr>) \<and>
    BufferList_concatenate payload' = BufferList_concatenate (ef_payload frame)"
  using EthernetFrame_parse_serialized [of frame frame0] by fastforce

text \<open>
  C18. ARP messages: a supported message serialises, and its bytes, followed by whatever padding the
  link adds, parse back to it; an unsupported one is refused by the serialiser with an exception.
\<close>

theorem ARPMessage_roundtrip:
  "(if ARPMessage_supported m
    then \<exists>bs. ARPMessage_serialize m = Inr bs \<and>
      ARPMessage_parse (Buffer_of_string (bs @ padding)) m0 = Inr (NoError, m)
    else ARPMessage_serialize m = Inl RuntimeError)"
proof (cases "ARPMessage_supported m")
  case True
  then obtain bs where "ARPMessage_serialize m = Inr bs"
    by (simp add: ARPMessage_serialize_eq)
  with True show ?thesis
    using ARPMessage_parse_serialized [of m bs padding m0] by simp
qed (simp add: ARPMessage_serialize_eq)

section \<open>The parsers never throw\<close>

lemma EthernetHeader_parse_total:
  assumes "np_wf p"
  shows "\<exists>r h' p'. EthernetHeader_parse h p = Inr ((r, h'), p') \<and> np_wf p'"
proof -
  have "np_reads (np_bind np_mac (\<lambda>dst. np_bind np_mac (\<lambda>src. np_bind NetParser_u16 (\<lambda>ty.
      np_return (dst, src, ty))))) (6 + (6 + (2 + 0)))"
    by (intro np_reads_intros mac.get_reads)
  then obtain v p' where "np_bind np_mac (\<lambda>dst. np_bind np_mac (\<lambda>src. np_bind NetParser_u16 (\<lambda>ty.
      np_return (dst, src, ty)))) p = Inr (v, p')" "np_wf p'"
    using assms by (rule np_readsE)
  then show ?thesis
    using assms by (auto simp: EthernetHeader_parse_def bind_res_eq_Inr)
qed

lemma EthernetFrame_parse_total:
  "\<exists>r f b. EthernetFrame_parse (Buffer_of_string bs) f0 = Inr (r, f) \<and> ef_payload f = [b] \<and> Buffer_wf b"
proof -
  have "np_wf (NetParser_init (Buffer_of_string bs))"
    using np_at_init [of "Buffer_of_string bs"] by (simp add: np_at_def)
  from EthernetHeader_parse_total [OF this, of "ef_header f0"] show ?thesis
    by (auto simp: EthernetFrame_parse_def BufferList_of_Buffer_def np_wf_def)
qed

text \<open>A frame too short for a header is accepted, with the header unchanged: the verdict is dropped.\<close>

lemma EthernetFrame_parse_short:
  "length bs < 14 \<Longrightarrow>
    EthernetFrame_parse (Buffer_of_string bs) f = Inr (NoError, f\<lparr>ef_payload := [Buffer_of_string bs]\<rparr>)"
  by (simp add: EthernetFrame_parse_def EthernetHeader_parse_def EthernetHeader_LENGTH_def NetParser_init_def
      BufferList_of_Buffer_def Buffer_size_def)

lemma ARPMessage_parse_total:
  assumes "Buffer_wf b"
  shows "\<exists>r m. ARPMessage_parse b m0 = Inr (r, m)"
proof -
  have wf: "np_wf (NetParser_init b)"
    using np_at_init [OF assms] by (simp add: np_at_def)
  have "np_reads (np_bind NetParser_u16 (\<lambda>a. np_bind NetParser_u16 (\<lambda>b. np_bind NetParser_u8 (\<lambda>c.
      np_bind NetParser_u8 (\<lambda>d. np_bind NetParser_u16 (\<lambda>e. np_return (a, b, c, d, e)))))))
      (2 + (2 + (1 + (1 + (2 + 0)))))"
    by (intro np_reads_intros)
  then obtain v p1 where 1: "np_bind NetParser_u16 (\<lambda>a. np_bind NetParser_u16 (\<lambda>b. np_bind NetParser_u8 (\<lambda>c.
      np_bind NetParser_u8 (\<lambda>d. np_bind NetParser_u16 (\<lambda>e. np_return (a, b, c, d, e)))))) (NetParser_init b) =
      Inr (v, p1)" "np_wf p1"
    using wf by (rule np_readsE)
  have "np_reads (np_bind np_mac (\<lambda>a. np_bind NetParser_u32 (\<lambda>b. np_bind np_mac (\<lambda>c.
      np_bind NetParser_u32 (\<lambda>d. np_return (a, b, c, d)))))) (6 + (4 + (6 + (4 + 0))))"
    by (intro np_reads_intros mac.get_reads)
  then obtain w p2 where "np_bind np_mac (\<lambda>a. np_bind NetParser_u32 (\<lambda>b. np_bind np_mac (\<lambda>c.
      np_bind NetParser_u32 (\<lambda>d. np_return (a, b, c, d))))) p1 = Inr (w, p2)"
    using 1(2) by (rule np_readsE)
  then obtain x1 x2 x3 x4 q1 q2 q3 where 2: "np_mac p1 = Inr (x1, q1)" "NetParser_u32 q1 = Inr (x2, q2)"
    "np_mac q2 = Inr (x3, q3)" "NetParser_u32 q3 = Inr (x4, p2)"
    by (auto simp: bind_res_eq_Inr)
  obtain y1 y2 y3 y4 y5 r1 r2 r3 r4 where "NetParser_u16 (NetParser_init b) = Inr (y1, r1)"
    "NetParser_u16 r1 = Inr (y2, r2)" "NetParser_u8 r2 = Inr (y3, r3)" "NetParser_u8 r3 = Inr (y4, r4)"
    "NetParser_u16 r4 = Inr (y5, p1)"
    using 1(1) by (auto simp: bind_res_eq_Inr)
  then show ?thesis
    using 2 by (simp add: ARPMessage_parse_def Let_def)
qed

end
