(* ===== verification/Network_Interface.thy ===== *)
theory Network_Interface
  imports IPv4_Datagram Ethernet_Frame "HOL-Library.Multiset"
begin

text \<open>
  \<^verbatim>\<open>libsponge/network_interface.hh\<close> and \<^verbatim>\<open>network_interface.cc\<close>: the interface that puts datagrams into
  Ethernet frames and resolves the Ethernet address of the next hop with ARP. Addresses of the
  Internet layer are their 32-bit numeric form, the only part of \<^verbatim>\<open>Address\<close> the interface uses.

  The ordered map of the addresses learned is a partial function, the multimap of waiting datagrams a
  list in key order in which equal keys keep the order of insertion.
\<close>

section \<open>State and operations\<close>

record etb_node =
  en_eAddr :: EthernetAddress
  en_updated_time :: "64 word"
  en_ask_time :: "64 word"
  en_exist :: bool

record NetworkInterface =
  ni_ethernet_address :: EthernetAddress
  ni_ip_address :: "32 word"
  ni_frames_out :: "EthernetFrame list"
  ni_arp_table :: "32 word \<rightharpoonup> etb_node"
  ni_sent_dgram :: "(32 word \<times> IPv4Datagram) list"
  ni_timer :: "64 word"

definition NetworkInterface_init :: "EthernetAddress \<Rightarrow> 32 word \<Rightarrow> NetworkInterface" where
  "NetworkInterface_init ethernet_address ip_address =
     \<lparr>ni_ethernet_address = ethernet_address, ni_ip_address = ip_address, ni_frames_out = [],
      ni_arp_table = Map.empty, ni_sent_dgram = [], ni_timer = 0\<rparr>"

definition multimap_insert :: "'k::linorder \<times> 'v \<Rightarrow> ('k \<times> 'v) list \<Rightarrow> ('k \<times> 'v) list" where
  "multimap_insert x m = takeWhile (\<lambda>y. fst y \<le> fst x) m @ x # dropWhile (\<lambda>y. fst y \<le> fst x) m"

text \<open>The frame with an ARP message: a request when it is broadcast, otherwise a reply.\<close>

definition ni_arp_message :: "NetworkInterface \<Rightarrow> 32 word \<Rightarrow> EthernetAddress option \<Rightarrow> ARPMessage" where
  "ni_arp_message s target_ip target_ethaddr =
     (let dst = (case target_ethaddr of Some a \<Rightarrow> a | None \<Rightarrow> ETHERNET_BROADCAST);
          arpm = ARPMessage_default\<lparr>arp_sender_ethernet_address := ni_ethernet_address s,
            arp_sender_ip_address := ni_ip_address s, arp_target_ip_address := target_ip\<rparr>;
          arpm = (case target_ethaddr of
                    Some a \<Rightarrow> arpm\<lparr>arp_target_ethernet_address := a\<rparr>
                  | None \<Rightarrow> arpm)
      in arpm\<lparr>arp_opcode :=
           (if dst = ETHERNET_BROADCAST then ARPMessage_OPCODE_REQUEST else ARPMessage_OPCODE_REPLY)\<rparr>)"

definition send_arp ::
  "32 word \<Rightarrow> EthernetAddress option \<Rightarrow> NetworkInterface \<Rightarrow> NetworkInterface res" where
  "send_arp target_ip target_ethaddr s =
     (let first_send = (ni_arp_table s target_ip = None);
          se = (case ni_arp_table s target_ip of
                  Some n \<Rightarrow> n
                | None \<Rightarrow> \<lparr>en_eAddr = MAC 0 0 0 0 0 0, en_updated_time = 0, en_ask_time = 0, en_exist = False\<rparr>);
          s1 = s\<lparr>ni_arp_table := (ni_arp_table s)(target_ip \<mapsto> se)\<rparr>
      in if \<not> first_send \<and> ni_timer s1 - en_ask_time se \<le> 5 * 1000 then Inr s1
         else
           let dst = (case target_ethaddr of Some a \<Rightarrow> a | None \<Rightarrow> ETHERNET_BROADCAST)
           in bind_res (ARPMessage_serialize (ni_arp_message s1 target_ip target_ethaddr)) (\<lambda>bytes.
                let efram = \<lparr>ef_header = EthernetHeader_default\<lparr>eh_type := EthernetHeader_TYPE_ARP,
                               eh_src := ni_ethernet_address s1, eh_dst := dst\<rparr>,
                             ef_payload = BufferList_of_string bytes\<rparr>
                in Inr (s1\<lparr>ni_frames_out := ni_frames_out s1 @ [efram],
                           ni_arp_table := (ni_arp_table s1)(target_ip \<mapsto> se\<lparr>en_ask_time := ni_timer s1\<rparr>)\<rparr>)))"

definition send_dgram :: "IPv4Datagram \<Rightarrow> EthernetAddress \<Rightarrow> NetworkInterface \<Rightarrow> NetworkInterface res" where
  "send_dgram dgram address s =
     bind_res (IPv4Datagram_serialize dgram) (\<lambda>payload.
       let efram = \<lparr>ef_header = EthernetHeader_default\<lparr>eh_type := EthernetHeader_TYPE_IPv4,
                      eh_dst := address, eh_src := ni_ethernet_address s\<rparr>, ef_payload = payload\<rparr>
       in Inr (s\<lparr>ni_frames_out := ni_frames_out s @ [efram]\<rparr>))"

definition send_datagram :: "IPv4Datagram \<Rightarrow> 32 word \<Rightarrow> NetworkInterface \<Rightarrow> NetworkInterface res" where
  "send_datagram dgram next_ip s =
     (case ni_arp_table s next_ip of
        Some se \<Rightarrow>
          if \<not> en_exist se \<or> ni_timer s - en_updated_time se > 30 * 1000
          then bind_res (send_arp next_ip None s)
                 (\<lambda>s1. Inr (s1\<lparr>ni_sent_dgram := multimap_insert (next_ip, dgram) (ni_sent_dgram s1)\<rparr>))
          else send_dgram dgram (en_eAddr se) s
      | None \<Rightarrow>
          bind_res (send_arp next_ip None s)
            (\<lambda>s1. Inr (s1\<lparr>ni_sent_dgram := multimap_insert (next_ip, dgram) (ni_sent_dgram s1)\<rparr>)))"

text \<open>
  The loop that sends what waited for an address: from the first entry with the key on, while the
  entry at hand has the key, send it and erase it.
\<close>

fun resend_loop ::
  "32 word \<Rightarrow> EthernetAddress \<Rightarrow> (32 word \<times> IPv4Datagram) list \<Rightarrow> (32 word \<times> IPv4Datagram) list \<Rightarrow>
     NetworkInterface \<Rightarrow> NetworkInterface res" where
  "resend_loop ip address passed [] s = Inr (s\<lparr>ni_sent_dgram := passed\<rparr>)"
| "resend_loop ip address passed ((k, dgram) # m) s =
     (if k \<le> ip
      then bind_res (send_dgram dgram address s) (resend_loop ip address passed m)
      else Inr (s\<lparr>ni_sent_dgram := passed @ (k, dgram) # m\<rparr>))"

definition ni_resend :: "32 word \<Rightarrow> EthernetAddress \<Rightarrow> NetworkInterface \<Rightarrow> NetworkInterface res" where
  "ni_resend ip address s =
     resend_loop ip address (takeWhile (\<lambda>x. fst x < ip) (ni_sent_dgram s))
       (dropWhile (\<lambda>x. fst x < ip) (ni_sent_dgram s)) s"

definition ni_learn :: "ARPMessage \<Rightarrow> NetworkInterface \<Rightarrow> NetworkInterface" where
  "ni_learn arpm s =
     s\<lparr>ni_arp_table := (ni_arp_table s)(arp_sender_ip_address arpm \<mapsto>
        (case ni_arp_table s (arp_sender_ip_address arpm) of
           Some se \<Rightarrow> se\<lparr>en_updated_time := ni_timer s, en_eAddr := arp_sender_ethernet_address arpm,
                         en_exist := True\<rparr>
         | None \<Rightarrow> \<lparr>en_eAddr = arp_sender_ethernet_address arpm, en_updated_time = ni_timer s,
                    en_ask_time = 0, en_exist = True\<rparr>))\<rparr>"

definition ni_recv_arp :: "ARPMessage \<Rightarrow> NetworkInterface \<Rightarrow> NetworkInterface res" where
  "ni_recv_arp arpm s =
     (if arp_target_ip_address arpm \<noteq> ni_ip_address s \<and>
         arp_sender_ip_address arpm \<noteq> arp_target_ip_address arpm then Inr s
      else
        bind_res
          (if arp_opcode arpm = ARPMessage_OPCODE_REQUEST
           then send_arp (arp_sender_ip_address arpm) (Some (arp_sender_ethernet_address arpm)) s
           else if arp_opcode arpm = ARPMessage_OPCODE_REPLY
           then ni_resend (arp_sender_ip_address arpm) (arp_sender_ethernet_address arpm) s
           else Inr s)
          (\<lambda>s1. Inr (ni_learn arpm s1)))"

definition ni_pkg_type :: "EthernetHeader \<Rightarrow> NetworkInterface \<Rightarrow> nat" where
  "ni_pkg_type ehder s =
     (if eh_dst ehder = ni_ethernet_address s then
        if eh_type ehder = EthernetHeader_TYPE_IPv4 then 1
        else if eh_type ehder = EthernetHeader_TYPE_ARP then 2 else 0
      else if eh_dst ehder = ETHERNET_BROADCAST \<and> eh_type ehder = EthernetHeader_TYPE_ARP then 2
      else 0)"

definition recv_frame :: "EthernetFrame \<Rightarrow> NetworkInterface \<Rightarrow> (IPv4Datagram option \<times> NetworkInterface) res" where
  "recv_frame efram s =
     (let pkg_type = ni_pkg_type (ef_header efram) s
      in if pkg_type = 0 then Inr (None, s)
         else
           bind_res (BufferList_to_Buffer (ef_payload efram)) (\<lambda>buffer.
             if pkg_type = 1 then
               bind_res (IPv4Datagram_parse buffer IPv4Datagram_default) (\<lambda>(err, idata).
                 if err \<noteq> NoError then Inr (None, s) else Inr (Some idata, s))
             else
               bind_res (ARPMessage_parse buffer ARPMessage_default) (\<lambda>(err, arpm).
                 if err \<noteq> NoError then Inr (None, s)
                 else bind_res (ni_recv_arp arpm s) (\<lambda>s1. Inr (None, s1)))))"

definition NetworkInterface_tick :: "64 word \<Rightarrow> NetworkInterface \<Rightarrow> NetworkInterface" where
  "NetworkInterface_tick ms s = s\<lparr>ni_timer := ni_timer s + ms\<rparr>"

section \<open>ARP messages of the interface\<close>

lemma ni_arp_message_supported: "ARPMessage_supported (ni_arp_message s ip a)"
  by (cases a) (simp_all add: ni_arp_message_def ARPMessage_supported_def ARPMessage_default_def Let_def)

text \<open>An ARP frame with a given message inside, as the peer will parse it.\<close>

definition arp_frame :: "NetworkInterface \<Rightarrow> EthernetAddress \<Rightarrow> ARPMessage \<Rightarrow> EthernetFrame \<Rightarrow> bool" where
  "arp_frame s dst arpm f \<longleftrightarrow>
     ef_header f = \<lparr>eh_dst = dst, eh_src = ni_ethernet_address s, eh_type = EthernetHeader_TYPE_ARP\<rparr> \<and>
     (\<exists>buffer. BufferList_to_Buffer (ef_payload f) = Inr buffer \<and>
        ARPMessage_parse buffer ARPMessage_default = Inr (NoError, arpm))"

definition ni_asks :: "NetworkInterface \<Rightarrow> 32 word \<Rightarrow> bool" where
  "ni_asks s ip \<longleftrightarrow>
     (case ni_arp_table s ip of None \<Rightarrow> True | Some n \<Rightarrow> ni_timer s - en_ask_time n > 5 * 1000)"

definition ni_asked :: "32 word \<Rightarrow> NetworkInterface \<Rightarrow> etb_node" where
  "ni_asked ip s =
     (case ni_arp_table s ip of
        None \<Rightarrow> \<lparr>en_eAddr = MAC 0 0 0 0 0 0, en_updated_time = 0, en_ask_time = ni_timer s, en_exist = False\<rparr>
      | Some n \<Rightarrow> n\<lparr>en_ask_time := ni_timer s\<rparr>)"

lemma send_arp_effect:
  "\<exists>f. arp_frame s (case a of Some m \<Rightarrow> m | None \<Rightarrow> ETHERNET_BROADCAST) (ni_arp_message s ip a) f \<and>
    send_arp ip a s =
      Inr (if ni_asks s ip
           then s\<lparr>ni_frames_out := ni_frames_out s @ [f], ni_arp_table := (ni_arp_table s)(ip \<mapsto> ni_asked ip s)\<rparr>
           else s)"
proof -
  let ?dst = "case a of Some m \<Rightarrow> m | None \<Rightarrow> ETHERNET_BROADCAST"
  obtain bs where bs: "ARPMessage_serialize (ni_arp_message s ip a) = Inr bs"
    using ni_arp_message_supported [of s ip a] by (auto simp: ARPMessage_serialize_eq)
  let ?f = "\<lparr>ef_header = EthernetHeader_default\<lparr>eh_type := EthernetHeader_TYPE_ARP,
      eh_src := ni_ethernet_address s, eh_dst := ?dst\<rparr>, ef_payload = BufferList_of_string bs\<rparr>"
  have "arp_frame s ?dst (ni_arp_message s ip a) ?f"
    using ARPMessage_parse_serialized [OF bs, of "[]" ARPMessage_default]
    by (simp add: arp_frame_def EthernetHeader_default_def BufferList_of_string_def BufferList_append_def
        BufferList_of_Buffer_def BufferList_to_Buffer_def)
  moreover have [simp]: "ni_arp_message (s\<lparr>ni_arp_table := t\<rparr>) ip a = ni_arp_message s ip a" for t
    by (simp add: ni_arp_message_def)
  moreover have [simp]: "(ni_arp_table s)(ip \<mapsto> n) = ni_arp_table s" if "ni_arp_table s ip = Some n" for n
    using that by (simp add: fun_upd_idem)
  ultimately show ?thesis
    by (intro exI [of _ ?f])
      (auto simp: send_arp_def Let_def ni_asks_def ni_asked_def bs not_le split: option.splits)
qed

section \<open>Waiting datagrams\<close>

lemma mset_multimap_insert [simp]: "mset (multimap_insert x m) = add_mset x (mset m)"
  using arg_cong [OF takeWhile_dropWhile_id [of "\<lambda>y. fst y \<le> fst x" m], of mset]
  by (simp add: multimap_insert_def del: takeWhile_dropWhile_id)

lemma sorted_multimap_insert:
  assumes "sorted (map fst m)"
  shows "sorted (map fst (multimap_insert x m))"
proof -
  have "fst x \<le> fst y" if "y \<in> set (dropWhile (\<lambda>y. fst y \<le> fst x) m)" for y
    using assms that
    by (induction m) (auto split: if_splits)
  moreover have "sorted (map fst (takeWhile (\<lambda>y. fst y \<le> fst x) m @ dropWhile (\<lambda>y. fst y \<le> fst x) m))"
    using assms by simp
  ultimately show ?thesis
    by (auto simp: multimap_insert_def sorted_append simp del: takeWhile_dropWhile_id dest: set_takeWhileD)
qed

lemma send_dgramE:
  assumes "send_dgram d a s = Inr s'"
  obtains payload where "IPv4Datagram_serialize d = Inr payload"
    and "s' = s\<lparr>ni_frames_out := ni_frames_out s @
      [\<lparr>ef_header = \<lparr>eh_dst = a, eh_src = ni_ethernet_address s, eh_type = EthernetHeader_TYPE_IPv4\<rparr>,
        ef_payload = payload\<rparr>]\<rparr>"
  using assms that by (auto simp: send_dgram_def bind_res_eq_Inr EthernetHeader_default_def)

text \<open>Every entry with the key is sent, in order, and only those leave the queue.\<close>

definition ip_frames_to ::
  "NetworkInterface \<Rightarrow> EthernetAddress \<Rightarrow> (32 word \<times> IPv4Datagram) list \<Rightarrow> EthernetFrame list \<Rightarrow> bool" where
  "ip_frames_to s a ds fs \<longleftrightarrow>
     list_all2 (\<lambda>d f. IPv4Datagram_serialize (snd d) = Inr (ef_payload f) \<and>
       ef_header f = \<lparr>eh_dst = a, eh_src = ni_ethernet_address s, eh_type = EthernetHeader_TYPE_IPv4\<rparr>) ds fs"

lemma resend_loop_frames:
  assumes "resend_loop ip a passed m s = Inr s'"
  shows "\<exists>fs. s' = s\<lparr>ni_frames_out := ni_frames_out s @ fs,
      ni_sent_dgram := passed @ dropWhile (\<lambda>x. fst x \<le> ip) m\<rparr> \<and>
    ip_frames_to s a (takeWhile (\<lambda>x. fst x \<le> ip) m) fs"
  using assms
proof (induction m arbitrary: s)
  case Nil
  then show ?case
    by (simp add: ip_frames_to_def)
next
  case (Cons x m)
  obtain k d where x: "x = (k, d)"
    by fastforce
  show ?case
  proof (cases "k \<le> ip")
    case True
    then obtain s1 where s1: "send_dgram d a s = Inr s1" "resend_loop ip a passed m s1 = Inr s'"
      using Cons.prems x by (auto simp: bind_res_eq_Inr)
    obtain payload where "IPv4Datagram_serialize d = Inr payload"
      and "s1 = s\<lparr>ni_frames_out := ni_frames_out s @
        [\<lparr>ef_header = \<lparr>eh_dst = a, eh_src = ni_ethernet_address s, eh_type = EthernetHeader_TYPE_IPv4\<rparr>,
          ef_payload = payload\<rparr>]\<rparr>"
      using s1(1) by (rule send_dgramE)
    then show ?thesis
      using Cons.IH [OF s1(2)] True x by (auto simp: ip_frames_to_def)
  next
    case False
    then show ?thesis
      using Cons.prems x by (auto simp: ip_frames_to_def)
  qed
qed

lemma sorted_while_filter:
  fixes P :: "'k::linorder \<Rightarrow> bool"
  assumes "sorted (map fst m)" and "\<And>x y. P y \<Longrightarrow> x \<le> y \<Longrightarrow> P x"
  shows "takeWhile (\<lambda>x. P (fst x)) m = filter (\<lambda>x. P (fst x)) m"
    and "dropWhile (\<lambda>x. P (fst x)) m = filter (\<lambda>x. \<not> P (fst x)) m"
proof -
  have "takeWhile (\<lambda>x. P (fst x)) m = filter (\<lambda>x. P (fst x)) m \<and>
      dropWhile (\<lambda>x. P (fst x)) m = filter (\<lambda>x. \<not> P (fst x)) m"
    using assms(1)
  proof (induction m)
    case (Cons x m)
    show ?case
    proof (cases "P (fst x)")
      case False
      then have "\<forall>y \<in> set m. \<not> P (fst y)"
        using Cons.prems assms(2) by auto
      then have "filter (\<lambda>x. P (fst x)) m = []" "filter (\<lambda>x. \<not> P (fst x)) m = m"
        by (auto simp: filter_empty_conv filter_id_conv)
      then show ?thesis
        using False by simp
    qed (use Cons in simp)
  qed simp
  then show "takeWhile (\<lambda>x. P (fst x)) m = filter (\<lambda>x. P (fst x)) m"
    and "dropWhile (\<lambda>x. P (fst x)) m = filter (\<lambda>x. \<not> P (fst x)) m"
    by simp_all
qed

lemma sorted_split_key:
  assumes "sorted (map fst m)"
  shows "takeWhile (\<lambda>x. fst x \<le> k) (dropWhile (\<lambda>x. fst x < k) m) = filter (\<lambda>x. fst x = k) m"
    and "takeWhile (\<lambda>x. fst x < k) m @ dropWhile (\<lambda>x. fst x \<le> k) (dropWhile (\<lambda>x. fst x < k) m) =
      filter (\<lambda>x. fst x \<noteq> k) m"
proof -
  note split = sorted_while_filter [OF assms, of "\<lambda>x. x < k", OF le_less_trans]
  have s: "sorted (map fst (filter (\<lambda>x. \<not> fst x < k) m))"
    using assms by (simp add: sorted_filter)
  note split' = sorted_while_filter [OF s, of "\<lambda>x. x \<le> k", OF order_trans]
  show "takeWhile (\<lambda>x. fst x \<le> k) (dropWhile (\<lambda>x. fst x < k) m) = filter (\<lambda>x. fst x = k) m"
    by (auto simp: split split' intro: filter_cong)
  have "filter (\<lambda>x. fst x < k) m @ filter (\<lambda>x. \<not> fst x < k \<and> \<not> fst x \<le> k) m = filter (\<lambda>x. fst x \<noteq> k) m"
    using assms
  proof (induction m)
    case (Cons x m)
    then have "filter (\<lambda>x. fst x < k) m = []" if "\<not> fst x < k"
      using that by (auto simp: filter_empty_conv)
    then show ?case
      using Cons by (cases "fst x < k") auto
  qed simp
  then show "takeWhile (\<lambda>x. fst x < k) m @ dropWhile (\<lambda>x. fst x \<le> k) (dropWhile (\<lambda>x. fst x < k) m) =
      filter (\<lambda>x. fst x \<noteq> k) m"
    by (simp add: split split')
qed

lemma ni_resend_effect:
  assumes "sorted (map fst (ni_sent_dgram s))" and "ni_resend ip a s = Inr s'"
  shows "\<exists>fs. s' = s\<lparr>ni_frames_out := ni_frames_out s @ fs,
      ni_sent_dgram := filter (\<lambda>x. fst x \<noteq> ip) (ni_sent_dgram s)\<rparr> \<and>
    ip_frames_to s a (filter (\<lambda>x. fst x = ip) (ni_sent_dgram s)) fs"
  using resend_loop_frames [OF assms(2) [unfolded ni_resend_def]]
  by (simp add: sorted_split_key [OF assms(1)])

section \<open>Runs of an interface\<close>

datatype ni_call = NiSend IPv4Datagram "32 word" | NiRecv EthernetFrame | NiTick "64 word"

fun ni_step :: "ni_call \<Rightarrow> NetworkInterface \<Rightarrow> NetworkInterface res" where
  "ni_step (NiSend d ip) s = send_datagram d ip s"
| "ni_step (NiRecv f) s = bind_res (recv_frame f s) (\<lambda>(_, s'). Inr s')"
| "ni_step (NiTick ms) s = Inr (NetworkInterface_tick ms s)"

fun ni_run :: "ni_call list \<Rightarrow> NetworkInterface \<Rightarrow> NetworkInterface res" where
  "ni_run [] s = Inr s"
| "ni_run (c # cs) s = bind_res (ni_step c s) (ni_run cs)"

fun ni_submitted :: "ni_call list \<Rightarrow> IPv4Datagram list" where
  "ni_submitted [] = []"
| "ni_submitted (NiSend d ip # cs) = d # ni_submitted cs"
| "ni_submitted (_ # cs) = ni_submitted cs"

text \<open>What is on its way: the payloads of the frames sent and the datagrams that wait.\<close>

definition ni_sent_payloads :: "NetworkInterface \<Rightarrow> BufferList res multiset" where
  "ni_sent_payloads s =
     mset (map (\<lambda>f. Inr (ef_payload f))
       (filter (\<lambda>f. eh_type (ef_header f) = EthernetHeader_TYPE_IPv4) (ni_frames_out s)))"

definition ni_total :: "NetworkInterface \<Rightarrow> BufferList res multiset" where
  "ni_total s = ni_sent_payloads s + mset (map (\<lambda>x. IPv4Datagram_serialize (snd x)) (ni_sent_dgram s))"

lemma arp_type_not_ip [simp]: "EthernetHeader_TYPE_ARP \<noteq> EthernetHeader_TYPE_IPv4"
  by (simp add: EthernetHeader_TYPE_ARP_def EthernetHeader_TYPE_IPv4_def)

lemma send_arp_frame:
  assumes "send_arp ip a s = Inr s'"
  shows "ni_sent_payloads s' = ni_sent_payloads s" and "ni_sent_dgram s' = ni_sent_dgram s"
  using send_arp_effect [of s a ip] assms by (auto simp: arp_frame_def ni_sent_payloads_def)

lemma ip_frames_to_payloads:
  assumes "ip_frames_to s a ds fs"
  shows "map (\<lambda>f. Inr (ef_payload f)) (filter (\<lambda>f. eh_type (ef_header f) = EthernetHeader_TYPE_IPv4) fs) =
    map (\<lambda>x. IPv4Datagram_serialize (snd x)) ds"
  using assms unfolding ip_frames_to_def by (induction rule: list_all2_induct) simp_all

lemma ni_learn_frame [simp]:
  "ni_frames_out (ni_learn m s) = ni_frames_out s" "ni_sent_dgram (ni_learn m s) = ni_sent_dgram s"
  "ni_timer (ni_learn m s) = ni_timer s" "ni_ethernet_address (ni_learn m s) = ni_ethernet_address s"
  "ni_ip_address (ni_learn m s) = ni_ip_address s"
  by (simp_all add: ni_learn_def)

lemma ni_recv_arp_total:
  assumes "sorted (map fst (ni_sent_dgram s))" and "ni_recv_arp m s = Inr s'"
  shows "ni_total s' = ni_total s" and "sorted (map fst (ni_sent_dgram s'))"
proof -
  have arp: "ni_total s1 = ni_total s" "sorted (map fst (ni_sent_dgram s1))"
    if "send_arp ip a s = Inr s1" for ip a s1
    using send_arp_frame [OF that] assms(1) by (simp_all add: ni_total_def)
  have resend: "ni_total s1 = ni_total s" "sorted (map fst (ni_sent_dgram s1))"
    if r: "ni_resend ip a s = Inr s1" for ip a s1
  proof -
    obtain fs where s1: "s1 = s\<lparr>ni_frames_out := ni_frames_out s @ fs,
        ni_sent_dgram := filter (\<lambda>x. fst x \<noteq> ip) (ni_sent_dgram s)\<rparr>"
      and fs: "ip_frames_to s a (filter (\<lambda>x. fst x = ip) (ni_sent_dgram s)) fs"
      using ni_resend_effect [OF assms(1) r] by blast
    have "mset (ni_sent_dgram s) = mset (filter (\<lambda>x. fst x = ip) (ni_sent_dgram s)) +
        mset (filter (\<lambda>x. fst x \<noteq> ip) (ni_sent_dgram s))"
      unfolding mset_filter by (rule multiset_partition)
    then have "mset (map (\<lambda>x. IPv4Datagram_serialize (snd x)) (ni_sent_dgram s)) =
        mset (map (\<lambda>x. IPv4Datagram_serialize (snd x)) (filter (\<lambda>x. fst x = ip) (ni_sent_dgram s))) +
        mset (map (\<lambda>x. IPv4Datagram_serialize (snd x)) (filter (\<lambda>x. fst x \<noteq> ip) (ni_sent_dgram s)))"
      by (simp only: mset_map image_mset_union)
    then show "ni_total s1 = ni_total s"
      using ip_frames_to_payloads [OF fs] unfolding ni_total_def ni_sent_payloads_def s1
      by (simp del: mset_map mset_filter)
    show "sorted (map fst (ni_sent_dgram s1))"
      using assms(1) by (simp add: s1 sorted_filter)
  qed
  have learn: "ni_total (ni_learn m s1) = ni_total s1" for s1
    by (simp add: ni_total_def ni_sent_payloads_def)
  show "ni_total s' = ni_total s" "sorted (map fst (ni_sent_dgram s'))"
    using assms arp resend learn by (auto simp: ni_recv_arp_def bind_res_eq_Inr split: if_splits)
qed

lemma ni_step_total:
  assumes "sorted (map fst (ni_sent_dgram s))" and "ni_step c s = Inr s'"
  shows "ni_total s' = ni_total s + mset (map IPv4Datagram_serialize (ni_submitted [c]))"
    and "sorted (map fst (ni_sent_dgram s'))"
proof -
  have "ni_total s' = ni_total s + mset (map IPv4Datagram_serialize (ni_submitted [c])) \<and>
    sorted (map fst (ni_sent_dgram s'))"
  proof (cases c)
    case (NiSend d ip)
    have queue: ?thesis if "bind_res (send_arp ip None s)
        (\<lambda>s1. Inr (s1\<lparr>ni_sent_dgram := multimap_insert (ip, d) (ni_sent_dgram s1)\<rparr>)) = Inr s'"
      using that send_arp_frame NiSend assms(1)
      by (auto simp: bind_res_eq_Inr ni_total_def ni_sent_payloads_def sorted_multimap_insert)
    have sent: ?thesis if "send_dgram d a s = Inr s'" for a
      using that
    proof (rule send_dgramE)
      fix payload
      assume "IPv4Datagram_serialize d = Inr payload"
        and "s' = s\<lparr>ni_frames_out := ni_frames_out s @
          [\<lparr>ef_header = \<lparr>eh_dst = a, eh_src = ni_ethernet_address s, eh_type = EthernetHeader_TYPE_IPv4\<rparr>,
            ef_payload = payload\<rparr>]\<rparr>"
      then show ?thesis
        using NiSend assms(1) by (simp add: ni_total_def ni_sent_payloads_def)
    qed
    show ?thesis
      using assms(2) NiSend queue sent by (auto simp: send_datagram_def split: option.splits if_splits)
  next
    case (NiRecv f)
    then show ?thesis
      using assms ni_recv_arp_total [OF assms(1)]
      by (auto simp: recv_frame_def Let_def bind_res_eq_Inr split: if_splits)
  next
    case (NiTick ms)
    then show ?thesis
      using assms by (auto simp: NetworkInterface_tick_def ni_total_def ni_sent_payloads_def)
  qed
  then show "ni_total s' = ni_total s + mset (map IPv4Datagram_serialize (ni_submitted [c]))"
    and "sorted (map fst (ni_sent_dgram s'))"
    by simp_all
qed

lemma ni_submitted_Cons: "ni_submitted (c # cs) = ni_submitted [c] @ ni_submitted cs"
  by (cases c) simp_all

lemma ni_run_total:
  assumes "ni_run cs s = Inr s'" and "sorted (map fst (ni_sent_dgram s))"
  shows "ni_total s' = ni_total s + mset (map IPv4Datagram_serialize (ni_submitted cs)) \<and>
    sorted (map fst (ni_sent_dgram s'))"
  using assms
proof (induction cs arbitrary: s)
  case (Cons c cs)
  then obtain s1 where s1: "ni_step c s = Inr s1" "ni_run cs s1 = Inr s'"
    by (auto simp: bind_res_eq_Inr)
  show ?case
    using Cons.IH [OF s1(2)] ni_step_total [OF Cons.prems(2) s1(1)] by (simp add: ni_submitted_Cons [of c cs])
qed simp

section \<open>Silence between two questions\<close>

fun ni_elapsed :: "ni_call list \<Rightarrow> nat" where
  "ni_elapsed [] = 0"
| "ni_elapsed (NiTick ms # cs) = unat ms + ni_elapsed cs"
| "ni_elapsed (_ # cs) = ni_elapsed cs"

text \<open>A broadcast request for the Ethernet address that belongs to an IP address.\<close>

definition asks_for :: "32 word \<Rightarrow> EthernetFrame \<Rightarrow> bool" where
  "asks_for ip f \<longleftrightarrow>
     (\<exists>s m. arp_frame s ETHERNET_BROADCAST m f \<and> arp_opcode m = ARPMessage_OPCODE_REQUEST \<and>
        arp_target_ip_address m = ip)"

lemma asks_for_arp:
  assumes "arp_frame s dst (ni_arp_message s ip' a) f" and "asks_for ip f"
  shows "ip' = ip"
proof -
  have "arp_target_ip_address (ni_arp_message s ip' a) = ip'"
    by (cases a) (simp_all add: ni_arp_message_def Let_def)
  then show ?thesis
    using assms by (auto simp: asks_for_def arp_frame_def)
qed

lemma asks_for_ip: "eh_type (ef_header f) = EthernetHeader_TYPE_IPv4 \<Longrightarrow> \<not> asks_for ip f"
  by (auto simp: asks_for_def arp_frame_def)

lemma ip_frames_to_silent: "ip_frames_to s a ds fs \<Longrightarrow> f \<in> set fs \<Longrightarrow> \<not> asks_for ip f"
  by (rule asks_for_ip) (auto simp: ip_frames_to_def list_all2_conv_all_nth in_set_conv_nth)

definition ni_silent :: "32 word \<Rightarrow> 64 word \<Rightarrow> NetworkInterface \<Rightarrow> NetworkInterface \<Rightarrow> bool" where
  "ni_silent ip t s s' \<longleftrightarrow>
     (\<exists>n. ni_arp_table s' ip = Some n \<and> en_ask_time n = t) \<and>
     (\<exists>q. ni_frames_out s' = ni_frames_out s @ q \<and> (\<forall>f \<in> set q. \<not> asks_for ip f))"

lemma ni_silent_trans: "ni_silent ip t s s' \<Longrightarrow> ni_silent ip t s' s'' \<Longrightarrow> ni_silent ip t s s''"
  by (auto simp: ni_silent_def)

lemma send_arp_silent:
  assumes "ni_arp_table s ip = Some n" and "unat (ni_timer s - en_ask_time n) \<le> 5000"
    and "send_arp ip' a s = Inr s'"
  shows "ni_silent ip (en_ask_time n) s s'" and "ni_timer s' = ni_timer s"
proof -
  obtain f where f: "arp_frame s (case a of Some m \<Rightarrow> m | None \<Rightarrow> ETHERNET_BROADCAST) (ni_arp_message s ip' a) f"
    and s': "s' = (if ni_asks s ip'
       then s\<lparr>ni_frames_out := ni_frames_out s @ [f], ni_arp_table := (ni_arp_table s)(ip' \<mapsto> ni_asked ip' s)\<rparr>
       else s)"
    using send_arp_effect [of s a ip'] assms(3) by auto
  have "\<not> ni_asks s ip"
    using assms(1,2) by (simp add: ni_asks_def word_less_nat_alt)
  then show "ni_silent ip (en_ask_time n) s s'"
    using assms(1) asks_for_arp [OF f] by (auto simp: ni_silent_def s')
  show "ni_timer s' = ni_timer s"
    by (simp add: s')
qed

lemma send_dgram_silent:
  assumes "ni_arp_table s ip = Some n" and "send_dgram d a s = Inr s'"
  shows "ni_silent ip (en_ask_time n) s s'" and "ni_timer s' = ni_timer s"
  using assms(2) assms(1) by (auto elim!: send_dgramE simp: ni_silent_def asks_for_ip)

lemma ni_recv_arp_silent:
  assumes n: "ni_arp_table s ip = Some n" and le: "unat (ni_timer s - en_ask_time n) \<le> 5000"
    and "ni_recv_arp m s = Inr s'" and "sorted (map fst (ni_sent_dgram s))"
  shows "ni_silent ip (en_ask_time n) s s' \<and> ni_timer s' = ni_timer s"
proof -
  have resend: "ni_silent ip (en_ask_time n) s s1" "ni_timer s1 = ni_timer s"
    if "ni_resend ip' a s = Inr s1" for ip' a s1
    using ni_resend_effect [OF assms(4) that] n by (auto simp: ni_silent_def dest: ip_frames_to_silent)
  have learn: "ni_silent ip t s (ni_learn m s1)" if "ni_silent ip t s s1" for t s1
    using that by (auto simp: ni_silent_def ni_learn_def split: option.splits)
  have "ni_silent ip (en_ask_time n) s s"
    using n by (simp add: ni_silent_def)
  then show ?thesis
    using assms(3) resend learn send_arp_silent [OF n le]
    by (auto simp: ni_recv_arp_def bind_res_eq_Inr split: if_splits)
qed

lemma ni_step_silent:
  assumes n: "ni_arp_table s ip = Some n" and le: "unat (ni_timer s - en_ask_time n) + ni_elapsed [c] \<le> 5000"
    and step: "ni_step c s = Inr s'" and sorted: "sorted (map fst (ni_sent_dgram s))"
  shows "ni_silent ip (en_ask_time n) s s' \<and>
    unat (ni_timer s' - en_ask_time n) = unat (ni_timer s - en_ask_time n) + ni_elapsed [c]"
proof (cases c)
  case (NiSend d ip')
  have le': "unat (ni_timer s - en_ask_time n) \<le> 5000"
    using le by simp
  have queue: ?thesis if "bind_res (send_arp ip' None s)
      (\<lambda>s1. Inr (s1\<lparr>ni_sent_dgram := multimap_insert (ip', d) (ni_sent_dgram s1)\<rparr>)) = Inr s'"
    using that send_arp_silent [OF n le'] NiSend by (auto simp: bind_res_eq_Inr ni_silent_def)
  show ?thesis
    using step NiSend queue send_dgram_silent [OF n]
    by (auto simp: send_datagram_def split: option.splits if_splits)
next
  case (NiRecv f)
  have "ni_silent ip (en_ask_time n) s s"
    using n by (simp add: ni_silent_def)
  then show ?thesis
    using step NiRecv le ni_recv_arp_silent [OF n _ _ sorted]
    by (auto simp: recv_frame_def Let_def bind_res_eq_Inr split: if_splits)
next
  case (NiTick ms)
  have add: "unat (x + ms) = unat x + unat ms" if "unat x + unat ms \<le> 5000" for x :: "64 word"
    using that by (simp add: unat_word_ariths)
  have diff: "ni_timer s' - en_ask_time n = ni_timer s - en_ask_time n + ms"
    using step NiTick by (auto simp: NetworkInterface_tick_def)
  have "unat (ni_timer s' - en_ask_time n) = unat (ni_timer s - en_ask_time n) + unat ms"
    unfolding diff using le NiTick by (intro add) simp
  then show ?thesis
    using step NiTick n by (auto simp: NetworkInterface_tick_def ni_silent_def)
qed

lemma ni_run_silent:
  assumes "ni_arp_table s ip = Some n" and "unat (ni_timer s - en_ask_time n) + ni_elapsed cs \<le> 5000"
    and "ni_run cs s = Inr s'" and "sorted (map fst (ni_sent_dgram s))"
  shows "ni_silent ip (en_ask_time n) s s'"
  using assms
proof (induction cs arbitrary: s n)
  case (Cons c cs)
  obtain s1 where s1: "ni_step c s = Inr s1" "ni_run cs s1 = Inr s'"
    using Cons.prems(3) by (auto simp: bind_res_eq_Inr)
  have el: "ni_elapsed (c # cs) = ni_elapsed [c] + ni_elapsed cs"
    by (cases c) simp_all
  have step: "ni_silent ip (en_ask_time n) s s1"
    "unat (ni_timer s1 - en_ask_time n) = unat (ni_timer s - en_ask_time n) + ni_elapsed [c]"
    using ni_step_silent [OF Cons.prems(1) _ s1(1) Cons.prems(4)] Cons.prems(2) el by simp_all
  then obtain n1 where n1: "ni_arp_table s1 ip = Some n1" "en_ask_time n1 = en_ask_time n"
    by (auto simp: ni_silent_def)
  have "ni_silent ip (en_ask_time n1) s1 s'"
    using step(2) Cons.prems(2) el n1 ni_step_total(2) [OF Cons.prems(4) s1(1)]
    by (intro Cons.IH [OF n1(1) _ s1(2)]) simp_all
  then show ?case
    using step(1) n1(2) ni_silent_trans by simp
qed (simp add: ni_silent_def)

text \<open>A call that sends a request for an address notes the time in the entry of the address.\<close>

lemma send_arp_asks:
  assumes "send_arp ip' a s = Inr s'" and "ni_frames_out s' = ni_frames_out s @ q" and "f \<in> set q" and "asks_for ip f"
  shows "\<exists>n. ni_arp_table s' ip = Some n \<and> en_ask_time n = ni_timer s'"
proof -
  obtain g where g: "arp_frame s (case a of Some m \<Rightarrow> m | None \<Rightarrow> ETHERNET_BROADCAST) (ni_arp_message s ip' a) g"
    and s': "s' = (if ni_asks s ip'
       then s\<lparr>ni_frames_out := ni_frames_out s @ [g], ni_arp_table := (ni_arp_table s)(ip' \<mapsto> ni_asked ip' s)\<rparr>
       else s)"
    using send_arp_effect [of s a ip'] assms(1) by auto
  have "ni_asks s ip'" "f = g"
    using assms(2,3) s' by (auto split: if_splits)
  then show ?thesis
    using asks_for_arp [OF g] assms(4) by (auto simp: s' ni_asked_def split: option.splits)
qed

lemma ni_recv_arp_asks:
  assumes "ni_recv_arp m s = Inr s'" and "sorted (map fst (ni_sent_dgram s))"
    and "ni_frames_out s' = ni_frames_out s @ q" and "f \<in> set q" and "asks_for ip f"
  shows "\<exists>n. ni_arp_table s' ip = Some n \<and> en_ask_time n = ni_timer s'"
proof -
  have learn: "ni_frames_out (ni_learn m s1) = ni_frames_out s1" "ni_timer (ni_learn m s1) = ni_timer s1"
    "ni_arp_table s1 ip = Some n \<Longrightarrow> \<exists>n'. ni_arp_table (ni_learn m s1) ip = Some n' \<and> en_ask_time n' = en_ask_time n"
    for s1 n
    by (auto simp: ni_learn_def)
  have "ni_frames_out s1 \<noteq> ni_frames_out s @ q"
    if "ni_resend (arp_sender_ip_address m) (arp_sender_ethernet_address m) s = Inr s1" for s1
    using ni_resend_effect [OF assms(2) that] assms(4,5) by (auto dest: ip_frames_to_silent)
  then obtain a where "\<exists>s1. send_arp (arp_sender_ip_address m) a s = Inr s1 \<and> s' = ni_learn m s1"
    using assms by (auto simp: ni_recv_arp_def bind_res_eq_Inr learn(1) split: if_splits)
  then show ?thesis
    using send_arp_asks [OF _ _ assms(4,5)] assms(3) learn by metis
qed

lemma ni_step_asks:
  assumes "ni_step c s = Inr s'" and "sorted (map fst (ni_sent_dgram s))"
    and "ni_frames_out s' = ni_frames_out s @ q" and "f \<in> set q" and "asks_for ip f"
  shows "\<exists>n. ni_arp_table s' ip = Some n \<and> en_ask_time n = ni_timer s'"
proof (cases c)
  case (NiSend d ip')
  have "\<not> send_dgram d a s = Inr s'" for a
    using assms(3-5) by (auto elim!: send_dgramE simp: asks_for_ip)
  then have "\<exists>s1. send_arp ip' None s = Inr s1 \<and> s' = s1\<lparr>ni_sent_dgram := multimap_insert (ip', d) (ni_sent_dgram s1)\<rparr>"
    using assms(1) NiSend by (auto simp: send_datagram_def bind_res_eq_Inr split: option.splits if_splits)
  then show ?thesis
    using send_arp_asks [OF _ _ assms(4,5)] assms(3) by auto
next
  case (NiRecv g)
  then obtain m where "ni_recv_arp m s = Inr s'"
    using assms(1,3,4) by (auto simp: recv_frame_def Let_def bind_res_eq_Inr split: if_splits)
  then show ?thesis
    by (rule ni_recv_arp_asks [OF _ assms(2-5)])
qed (use assms in \<open>auto simp: NetworkInterface_tick_def\<close>)

section \<open>Sending\<close>

lemma send_datagram_known:
  assumes "ni_arp_table s ip = Some n" and "en_exist n" and "ni_timer s - en_updated_time n \<le> 30 * 1000"
  shows "send_datagram d ip s = send_dgram d (en_eAddr n) s"
  using assms by (simp add: send_datagram_def not_less [symmetric])

lemma send_datagram_unknown:
  assumes "\<And>n. ni_arp_table s ip = Some n \<Longrightarrow> en_exist n \<Longrightarrow> ni_timer s - en_updated_time n > 30 * 1000"
  shows "send_datagram d ip s = bind_res (send_arp ip None s)
    (\<lambda>s1. Inr (s1\<lparr>ni_sent_dgram := multimap_insert (ip, d) (ni_sent_dgram s1)\<rparr>))"
  using assms by (auto simp: send_datagram_def split: option.splits)

text \<open>A datagram without payload, for examples.\<close>

definition dgram_example :: IPv4Datagram where
  "dgram_example = \<lparr>ipd_header = IPv4Header_default\<lparr>ih_len := 20\<rparr>, ipd_payload = []\<rparr>"

lemma dgram_example_wf:
  "IPv4Header_wf (ipd_header dgram_example)"
  "unat (ih_len (ipd_header dgram_example)) =
     4 * unat (ih_hlen (ipd_header dgram_example)) + length (BufferList_concatenate (ipd_payload dgram_example))"
  by (simp_all add: dgram_example_def IPv4Header_wf_def IPv4Header_default_def)

definition reply_example :: ARPMessage where
  "reply_example = ARPMessage_default\<lparr>arp_opcode := ARPMessage_OPCODE_REPLY,
     arp_sender_ethernet_address := MAC 2 0 0 0 0 7, arp_sender_ip_address := 7,
     arp_target_ethernet_address := MAC 2 0 0 0 0 1, arp_target_ip_address := 9\<rparr>"

lemma reply_example_parses:
  "\<exists>bs. ARPMessage_parse (Buffer_of_string bs) ARPMessage_default = Inr (NoError, reply_example)"
proof -
  obtain bs where "ARPMessage_serialize reply_example = Inr bs"
    by (auto simp: ARPMessage_serialize_eq ARPMessage_supported_def reply_example_def ARPMessage_default_def)
  then show ?thesis
    using ARPMessage_parse_serialized [of reply_example bs "[]"] by auto
qed

lemma ni_example:
  "\<exists>s. ni_run [NiSend dgram_example 7] (NetworkInterface_init (MAC 2 0 0 0 0 1) 9) = Inr s \<and>
    ni_sent_dgram s = [(7, dgram_example)] \<and> ni_ethernet_address s = MAC 2 0 0 0 0 1 \<and> ni_ip_address s = 9 \<and>
    ni_timer s = 0 \<and> (\<exists>n. ni_arp_table s 7 = Some n \<and> en_ask_time n = 0)"
  using send_arp_effect [of "NetworkInterface_init (MAC 2 0 0 0 0 1) 9" None 7]
  by (auto simp: send_datagram_def NetworkInterface_init_def multimap_insert_def ni_asks_def ni_asked_def)

text \<open>
  A request that arrives within five seconds of the interface's own last message to its sender is not
  answered, and it does not release the datagrams that wait for its sender, although its address is
  learned.
\<close>

lemma arp_request_dropped:
  assumes "arp_opcode m = ARPMessage_OPCODE_REQUEST" and "arp_target_ip_address m = ni_ip_address s"
    and "ni_arp_table s (arp_sender_ip_address m) = Some n" and "ni_timer s - en_ask_time n \<le> 5000"
  shows "ni_recv_arp m s = Inr (ni_learn m s)"
  using send_arp_effect [of s "Some (arp_sender_ethernet_address m)" "arp_sender_ip_address m"] assms
  by (auto simp: ni_recv_arp_def ni_asks_def not_less [symmetric])

section \<open>Properties\<close>

text \<open>
  C25. No datagram is lost or duplicated by the interface: over every run of calls, the payloads of the
  IPv4 frames sent together with the datagrams that wait for an address are exactly the datagrams
  submitted, each as often as it was submitted.
\<close>

theorem NetworkInterface_conservation:
  assumes "ni_run cs (NetworkInterface_init mac ip) = Inr s"
  shows "ni_sent_payloads s + mset (map (\<lambda>x. IPv4Datagram_serialize (snd x)) (ni_sent_dgram s)) =
    mset (map IPv4Datagram_serialize (ni_submitted cs))"
  using ni_run_total [OF assms] by (simp add: NetworkInterface_init_def ni_total_def ni_sent_payloads_def)

theorem NetworkInterface_conservation_witness:
  "\<exists>s. ni_run [NiSend dgram_example 7] (NetworkInterface_init (MAC 2 0 0 0 0 1) 9) = Inr s \<and>
    ni_sent_payloads s + mset (map (\<lambda>x. IPv4Datagram_serialize (snd x)) (ni_sent_dgram s)) =
    {#IPv4Datagram_serialize dgram_example#}"
  using ni_example NetworkInterface_conservation [of "[NiSend dgram_example 7]"] by fastforce

text \<open>
  C26. Resolution: when a reply for this interface arrives, every datagram that waited for its sender's
  address is sent to that address, in the order of submission, none of them waits any longer, the
  others are untouched, and the address is known from then on.
\<close>

theorem arp_reply_resolves:
  assumes "ni_run cs (NetworkInterface_init mac ip) = Inr s"
    and "eh_type (ef_header f) = EthernetHeader_TYPE_ARP" and "eh_dst (ef_header f) \<in> {ni_ethernet_address s, ETHERNET_BROADCAST}"
    and "BufferList_to_Buffer (ef_payload f) = Inr buffer"
    and "ARPMessage_parse buffer ARPMessage_default = Inr (NoError, arpm)"
    and "arp_opcode arpm = ARPMessage_OPCODE_REPLY" and "arp_target_ip_address arpm = ni_ip_address s"
    and "list_all (\<lambda>x. \<exists>p. IPv4Datagram_serialize (snd x) = Inr p) (ni_sent_dgram s)"
  shows "\<exists>s' fs n. recv_frame f s = Inr (None, s') \<and> ni_frames_out s' = ni_frames_out s @ fs \<and>
    ip_frames_to s (arp_sender_ethernet_address arpm)
      (filter (\<lambda>x. fst x = arp_sender_ip_address arpm) (ni_sent_dgram s)) fs \<and>
    ni_sent_dgram s' = filter (\<lambda>x. fst x \<noteq> arp_sender_ip_address arpm) (ni_sent_dgram s) \<and>
    ni_arp_table s' (arp_sender_ip_address arpm) = Some n \<and> en_exist n \<and>
    en_eAddr n = arp_sender_ethernet_address arpm \<and> en_updated_time n = ni_timer s'"
proof -
  let ?ip = "arp_sender_ip_address arpm" and ?a = "arp_sender_ethernet_address arpm"
  have sorted: "sorted (map fst (ni_sent_dgram s))"
    using ni_run_total [OF assms(1)] by (simp add: NetworkInterface_init_def)
  have loop: "\<exists>s'. resend_loop ip a passed m t = Inr s'"
    if "list_all (\<lambda>x. \<exists>p. IPv4Datagram_serialize (snd x) = Inr p) m" for ip a passed m t
    using that by (induction ip a passed m t rule: resend_loop.induct) (auto simp: send_dgram_def)
  have "list_all (\<lambda>x. \<exists>p. IPv4Datagram_serialize (snd x) = Inr p) (dropWhile (\<lambda>x. fst x < ?ip) (ni_sent_dgram s))"
    using assms(8) by (auto simp: list_all_iff dest: set_dropWhileD)
  then obtain s1 where s1: "ni_resend ?ip ?a s = Inr s1"
    unfolding ni_resend_def using loop by blast
  have pkg: "ni_pkg_type (ef_header f) s = 2"
    using assms(2,3) by (auto simp: ni_pkg_type_def)
  have "recv_frame f s = Inr (None, ni_learn arpm s1)"
    using assms(4-7) s1 by (simp add: recv_frame_def pkg ni_recv_arp_def ARPMessage_OPCODE_REPLY_def ARPMessage_OPCODE_REQUEST_def)
  then show ?thesis
    using ni_resend_effect [OF sorted s1] by (auto simp: ni_learn_def split: option.splits)
qed

theorem arp_reply_resolves_witness:
  "\<exists>s f s'. ni_run [NiSend dgram_example 7] (NetworkInterface_init (MAC 2 0 0 0 0 1) 9) = Inr s \<and>
    recv_frame f s = Inr (None, s') \<and> ni_sent_dgram s = [(7, dgram_example)] \<and> ni_sent_dgram s' = [] \<and>
    length (ni_frames_out s') = length (ni_frames_out s) + 1"
proof -
  obtain s where s: "ni_run [NiSend dgram_example 7] (NetworkInterface_init (MAC 2 0 0 0 0 1) 9) = Inr s"
    "ni_sent_dgram s = [(7, dgram_example)]" "ni_ethernet_address s = MAC 2 0 0 0 0 1" "ni_ip_address s = 9"
    using ni_example by blast
  obtain bs where bs: "ARPMessage_parse (Buffer_of_string bs) ARPMessage_default = Inr (NoError, reply_example)"
    using reply_example_parses by blast
  let ?f = "\<lparr>ef_header = \<lparr>eh_dst = MAC 2 0 0 0 0 1, eh_src = MAC 2 0 0 0 0 7, eh_type = EthernetHeader_TYPE_ARP\<rparr>,
    ef_payload = [Buffer_of_string bs]\<rparr>"
  have "\<exists>s' fs n. recv_frame ?f s = Inr (None, s') \<and> ni_frames_out s' = ni_frames_out s @ fs \<and>
    ip_frames_to s (arp_sender_ethernet_address reply_example)
      (filter (\<lambda>x. fst x = arp_sender_ip_address reply_example) (ni_sent_dgram s)) fs \<and>
    ni_sent_dgram s' = filter (\<lambda>x. fst x \<noteq> arp_sender_ip_address reply_example) (ni_sent_dgram s) \<and>
    ni_arp_table s' (arp_sender_ip_address reply_example) = Some n \<and> en_exist n \<and>
    en_eAddr n = arp_sender_ethernet_address reply_example \<and> en_updated_time n = ni_timer s'"
    using s bs IPv4Datagram_serialize_eq [OF dgram_example_wf]
    by (intro arp_reply_resolves [OF s(1), of ?f "Buffer_of_string bs" reply_example])
      (simp_all add: BufferList_to_Buffer_def reply_example_def)
  then show ?thesis
    using s by (fastforce simp: reply_example_def ip_frames_to_def list_all2_Cons1)
qed

text \<open>
  C27. Submission of a datagram, on every branch. With an address learned at most 30 seconds ago it is
  sent there at once. Otherwise it waits, and unless the address was asked for within the last five
  seconds, a request for it is broadcast, which every ARP implementation parses as a request from this
  interface.
\<close>

theorem send_datagram_effect:
  assumes "IPv4Datagram_serialize d = Inr payload"
  shows "\<exists>f s'. send_datagram d ip s = Inr s' \<and>
    (case ni_arp_table s ip of
       Some n \<Rightarrow> if en_exist n \<and> ni_timer s - en_updated_time n \<le> 30000
         then s' = s\<lparr>ni_frames_out := ni_frames_out s @ [f]\<rparr> \<and> ip_frames_to s (en_eAddr n) [(ip, d)] [f]
         else mset (ni_sent_dgram s') = add_mset (ip, d) (mset (ni_sent_dgram s)) \<and>
           (if ni_timer s - en_ask_time n \<le> 5000 then ni_frames_out s' = ni_frames_out s
            else ni_frames_out s' = ni_frames_out s @ [f] \<and>
              arp_frame s ETHERNET_BROADCAST (ARPMessage_default\<lparr>arp_opcode := ARPMessage_OPCODE_REQUEST,
                arp_sender_ethernet_address := ni_ethernet_address s, arp_sender_ip_address := ni_ip_address s,
                arp_target_ip_address := ip\<rparr>) f)
     | None \<Rightarrow> mset (ni_sent_dgram s') = add_mset (ip, d) (mset (ni_sent_dgram s)) \<and>
         ni_frames_out s' = ni_frames_out s @ [f] \<and>
         arp_frame s ETHERNET_BROADCAST (ARPMessage_default\<lparr>arp_opcode := ARPMessage_OPCODE_REQUEST,
           arp_sender_ethernet_address := ni_ethernet_address s, arp_sender_ip_address := ni_ip_address s,
           arp_target_ip_address := ip\<rparr>) f)"
proof (cases "\<exists>n. ni_arp_table s ip = Some n \<and> en_exist n \<and> ni_timer s - en_updated_time n \<le> 30000")
  case True
  then obtain n where "ni_arp_table s ip = Some n" "en_exist n" "ni_timer s - en_updated_time n \<le> 30000"
    by blast
  then show ?thesis
    using assms send_datagram_known [of s ip n d]
    by (intro exI [of _ "\<lparr>ef_header = \<lparr>eh_dst = en_eAddr n, eh_src = ni_ethernet_address s,
        eh_type = EthernetHeader_TYPE_IPv4\<rparr>, ef_payload = payload\<rparr>"])
      (simp add: send_dgram_def ip_frames_to_def EthernetHeader_default_def)
next
  case False
  have msg: "ni_arp_message s ip None = ARPMessage_default\<lparr>arp_opcode := ARPMessage_OPCODE_REQUEST,
      arp_sender_ethernet_address := ni_ethernet_address s, arp_sender_ip_address := ni_ip_address s,
      arp_target_ip_address := ip\<rparr>"
    by (simp add: ni_arp_message_def)
  obtain f where f: "arp_frame s ETHERNET_BROADCAST (ni_arp_message s ip None) f"
    "send_arp ip None s = Inr (if ni_asks s ip
       then s\<lparr>ni_frames_out := ni_frames_out s @ [f], ni_arp_table := (ni_arp_table s)(ip \<mapsto> ni_asked ip s)\<rparr>
       else s)"
    using send_arp_effect [of s None ip] by auto
  have "send_datagram d ip s = bind_res (send_arp ip None s)
      (\<lambda>s1. Inr (s1\<lparr>ni_sent_dgram := multimap_insert (ip, d) (ni_sent_dgram s1)\<rparr>))"
    using False by (intro send_datagram_unknown) (auto simp: not_le)
  then show ?thesis
    using f False unfolding msg
    by (intro exI [of _ f]) (auto simp: ni_asks_def not_less split: option.splits)
qed

theorem send_datagram_effect_witness:
  "\<exists>f s'. send_datagram dgram_example 7 (NetworkInterface_init (MAC 2 0 0 0 0 1) 9) = Inr s' \<and>
    ni_frames_out s' = [f] \<and> mset (ni_sent_dgram s') = {#(7, dgram_example)#}"
  using send_datagram_effect [OF IPv4Datagram_serialize_eq [OF dgram_example_wf], of 7
      "NetworkInterface_init (MAC 2 0 0 0 0 1) 9"]
  by (auto simp: NetworkInterface_init_def)

text \<open>
  C28. No ARP flood: after a call that broadcasts an ARP request for an address, no further request for
  that address is broadcast until more than five seconds have passed, whatever datagrams are submitted,
  frames received and ticks counted in between.
\<close>

theorem arp_rate_limit:
  assumes "ni_run cs0 (NetworkInterface_init mac ip0) = Inr s0" and "ni_step c s0 = Inr s"
    and "ni_frames_out s = ni_frames_out s0 @ q0" and "\<exists>f \<in> set q0. asks_for ip f"
    and "ni_run cs s = Inr s'" and "ni_elapsed cs \<le> 5000"
  shows "\<exists>q. ni_frames_out s' = ni_frames_out s @ q \<and> (\<forall>f \<in> set q. \<not> asks_for ip f)"
proof -
  have sorted: "sorted (map fst (ni_sent_dgram s0))"
    using ni_run_total [OF assms(1)] by (simp add: NetworkInterface_init_def)
  obtain f where "f \<in> set q0" "asks_for ip f"
    using assms(4) by blast
  from ni_step_asks [OF assms(2) sorted assms(3) this] obtain n
    where n: "ni_arp_table s ip = Some n" "en_ask_time n = ni_timer s"
    by blast
  have "ni_silent ip (en_ask_time n) s s'"
    using n(2) assms(6) ni_step_total(2) [OF sorted assms(2)] by (intro ni_run_silent [OF n(1) _ assms(5)]) simp_all
  then show ?thesis
    by (simp add: ni_silent_def)
qed

lemma send_datagram_first_asks:
  assumes "ni_arp_table s ip = None"
  shows "\<exists>f s'. send_datagram d ip s = Inr s' \<and> ni_frames_out s' = ni_frames_out s @ [f] \<and> asks_for ip f \<and>
    ni_timer s' = ni_timer s \<and> (\<exists>n. ni_arp_table s' ip = Some n \<and> \<not> en_exist n \<and> en_ask_time n = ni_timer s)"
proof -
  obtain f where f: "arp_frame s ETHERNET_BROADCAST (ni_arp_message s ip None) f"
    "send_arp ip None s =
       Inr (s\<lparr>ni_frames_out := ni_frames_out s @ [f], ni_arp_table := (ni_arp_table s)(ip \<mapsto> ni_asked ip s)\<rparr>)"
    using send_arp_effect [of s None ip] assms by (auto simp: ni_asks_def)
  have "asks_for ip f"
    using f(1) unfolding asks_for_def by (intro exI conjI, assumption) (simp_all add: ni_arp_message_def)
  then show ?thesis
    using assms f(2) by (simp add: send_datagram_def ni_asked_def)
qed

theorem arp_rate_limit_witness:
  "\<exists>s f s'. ni_step (NiSend dgram_example 7) (NetworkInterface_init (MAC 2 0 0 0 0 1) 9) = Inr s \<and>
    ni_frames_out s = [f] \<and> asks_for 7 f \<and> ni_run [NiTick 4000, NiSend dgram_example 7] s = Inr s' \<and>
    (\<exists>q. ni_frames_out s' = f # q \<and> (\<forall>g \<in> set q. \<not> asks_for 7 g))"
proof -
  let ?i = "NetworkInterface_init (MAC 2 0 0 0 0 1) 9" and ?cs = "[NiTick 4000, NiSend dgram_example 7]"
  have i: "ni_arp_table ?i 7 = None" "ni_frames_out ?i = []" "ni_run [] ?i = Inr ?i"
    by (simp_all add: NetworkInterface_init_def)
  obtain f s where s: "ni_step (NiSend dgram_example 7) ?i = Inr s" "ni_frames_out s = ni_frames_out ?i @ [f]" "asks_for 7 f"
    and n: "\<exists>n. ni_arp_table s 7 = Some n \<and> \<not> en_exist n"
    using send_datagram_first_asks [OF i(1), of dgram_example] by auto
  obtain s' where s': "ni_run ?cs s = Inr s'"
    using n send_arp_effect [of "NetworkInterface_tick 4000 s" None 7]
    by (auto simp: send_datagram_def NetworkInterface_tick_def)
  have "\<exists>f \<in> set [f]. asks_for 7 f" "ni_elapsed ?cs \<le> 5000"
    using s(3) by simp_all
  from arp_rate_limit [OF i(3) s(1,2) this(1) s' this(2)] show ?thesis
    using s s' i(2) by auto
qed

lemma send_and_receive:
  assumes d: "IPv4Header_wf (ipd_header d)"
      "unat (ih_len (ipd_header d)) = 4 * unat (ih_hlen (ipd_header d)) + length (BufferList_concatenate (ipd_payload d))"
    and entry: "ni_arp_table s ip = Some n" "en_exist n" "ni_timer s - en_updated_time n \<le> 30000"
    and addr: "ni_ethernet_address r = en_eAddr n"
  shows "\<exists>f f' ck buf. send_datagram d ip s = Inr (s\<lparr>ni_frames_out := ni_frames_out s @ [f]\<rparr>) \<and>
    EthernetFrame_parse (Buffer_of_string (BufferList_concatenate (EthernetFrame_serialize f))) EthernetFrame_default =
      Inr (NoError, f') \<and>
    recv_frame f' r = Inr (Some \<lparr>ipd_header = (ipd_header d)\<lparr>ih_cksum := ck\<rparr>, ipd_payload = [buf]\<rparr>, r) \<and>
    Buffer_wf buf \<and> Buffer_str buf = BufferList_concatenate (ipd_payload d)"
proof -
  let ?ck = "inet_cksum 0 (ip_header_bytes (ipd_header d) 0)"
  let ?payload = "Buffer_of_string (ip_header_bytes (ipd_header d) ?ck) # ipd_payload d"
  let ?f = "\<lparr>ef_header = \<lparr>eh_dst = en_eAddr n, eh_src = ni_ethernet_address s, eh_type = EthernetHeader_TYPE_IPv4\<rparr>,
    ef_payload = ?payload\<rparr>"
  have send: "send_datagram d ip s = Inr (s\<lparr>ni_frames_out := ni_frames_out s @ [?f]\<rparr>)"
    using send_datagram_known [of s ip n d] entry IPv4Datagram_serialize_eq [OF d]
    by (simp add: send_dgram_def EthernetHeader_default_def)
  obtain b where b: "EthernetFrame_parse (Buffer_of_string (BufferList_concatenate (EthernetFrame_serialize ?f)))
      EthernetFrame_default = Inr (NoError, EthernetFrame_default\<lparr>ef_header := ef_header ?f, ef_payload := [b]\<rparr>)"
    "Buffer_wf b" "Buffer_str b = BufferList_concatenate ?payload"
    using EthernetFrame_parse_serialized [of ?f EthernetFrame_default] by auto
  obtain buf where buf: "IPv4Datagram_parse b IPv4Datagram_default =
      Inr (NoError, \<lparr>ipd_header = (ipd_header d)\<lparr>ih_cksum := ?ck\<rparr>, ipd_payload = [buf]\<rparr>)"
    "Buffer_wf buf" "Buffer_str buf = BufferList_concatenate (ipd_payload d)"
    using IPv4Datagram_parse_buffer [OF d b(2), of ?ck IPv4Datagram_default] b(3) that
    by (auto simp: IPv4Datagram_default_def)
  have "recv_frame (EthernetFrame_default\<lparr>ef_header := ef_header ?f, ef_payload := [b]\<rparr>) r =
      Inr (Some \<lparr>ipd_header = (ipd_header d)\<lparr>ih_cksum := ?ck\<rparr>, ipd_payload = [buf]\<rparr>, r)"
    using addr buf(1) by (simp add: recv_frame_def ni_pkg_type_def BufferList_to_Buffer_def)
  then show ?thesis
    using send b(1) buf(2,3) by blast
qed

text \<open>
  C29. From one interface to another over the wire: a well-formed datagram sent to a known address, its
  frame serialised and parsed again at the other end, is handed up by the interface with that address,
  with the same payload and the same header up to the checksum.
\<close>

theorem link_transfer:
  assumes "IPv4Header_wf (ipd_header d)"
    and "unat (ih_len (ipd_header d)) = 4 * unat (ih_hlen (ipd_header d)) + length (BufferList_concatenate (ipd_payload d))"
    and "ni_arp_table s ip = Some n" and "en_exist n" and "ni_timer s - en_updated_time n \<le> 30000"
    and "ni_ethernet_address r = en_eAddr n"
  shows "\<exists>s' f f' d'. send_datagram d ip s = Inr s' \<and> ni_frames_out s' = ni_frames_out s @ [f] \<and>
    EthernetFrame_parse (Buffer_of_string (BufferList_concatenate (EthernetFrame_serialize f))) EthernetFrame_default =
      Inr (NoError, f') \<and>
    recv_frame f' r = Inr (Some d', r) \<and>
    BufferList_concatenate (ipd_payload d') = BufferList_concatenate (ipd_payload d) \<and>
    (\<exists>ck. ipd_header d' = (ipd_header d)\<lparr>ih_cksum := ck\<rparr>)"
proof -
  obtain f f' ck buf where "send_datagram d ip s = Inr (s\<lparr>ni_frames_out := ni_frames_out s @ [f]\<rparr>)"
    "EthernetFrame_parse (Buffer_of_string (BufferList_concatenate (EthernetFrame_serialize f))) EthernetFrame_default =
      Inr (NoError, f')"
    "recv_frame f' r = Inr (Some \<lparr>ipd_header = (ipd_header d)\<lparr>ih_cksum := ck\<rparr>, ipd_payload = [buf]\<rparr>, r)"
    "Buffer_str buf = BufferList_concatenate (ipd_payload d)"
    using send_and_receive [OF assms] by blast
  then show ?thesis
    by (intro exI [of _ "s\<lparr>ni_frames_out := ni_frames_out s @ [f]\<rparr>"] exI [of _ f] exI [of _ f']
        exI [of _ "\<lparr>ipd_header = (ipd_header d)\<lparr>ih_cksum := ck\<rparr>, ipd_payload = [buf]\<rparr>"]) auto
qed

theorem link_transfer_witness:
  "\<exists>s' f f' d'. send_datagram dgram_example 7
      ((NetworkInterface_init (MAC 2 0 0 0 0 1) 9)\<lparr>ni_arp_table :=
        [7 \<mapsto> \<lparr>en_eAddr = MAC 2 0 0 0 0 7, en_updated_time = 0, en_ask_time = 0, en_exist = True\<rparr>]\<rparr>) = Inr s' \<and>
    ni_frames_out s' = [f] \<and>
    EthernetFrame_parse (Buffer_of_string (BufferList_concatenate (EthernetFrame_serialize f))) EthernetFrame_default =
      Inr (NoError, f') \<and>
    recv_frame f' (NetworkInterface_init (MAC 2 0 0 0 0 7) 7) = Inr (Some d', NetworkInterface_init (MAC 2 0 0 0 0 7) 7) \<and>
    BufferList_concatenate (ipd_payload d') = []"
  using link_transfer [OF dgram_example_wf, of
      "(NetworkInterface_init (MAC 2 0 0 0 0 1) 9)\<lparr>ni_arp_table :=
        [7 \<mapsto> \<lparr>en_eAddr = MAC 2 0 0 0 0 7, en_updated_time = 0, en_ask_time = 0, en_exist = True\<rparr>]\<rparr>" 7
      "\<lparr>en_eAddr = MAC 2 0 0 0 0 7, en_updated_time = 0, en_ask_time = 0, en_exist = True\<rparr>"
      "NetworkInterface_init (MAC 2 0 0 0 0 7) 7"]
  by (fastforce simp: NetworkInterface_init_def dgram_example_def)

end
