(* ===== verification/Adapters.thy ===== *)
theory Adapters
  imports Network_Interface TCP_Segment "HOL-Library.Stream"
begin

text \<open>
  The adapters between TCP segments and what carries them: \<^verbatim>\<open>tcp_helpers/fd_adapter.hh\<close> and
  \<^verbatim>\<open>fd_adapter.cc\<close> (UDP payloads), \<^verbatim>\<open>tcp_over_ip.cc\<close> (IPv4 datagrams), \<^verbatim>\<open>tuntap_adapter.hh\<close> and
  \<^verbatim>\<open>tuntap_adapter.cc\<close> (TUN and TAP devices) and \<^verbatim>\<open>lossy_fd_adapter.hh\<close> (random loss).

  What a device delivers is an argument of \<open>read\<close>, and what is written to it is kept in a list, oldest
  first. An address is its numeric form with a port. The values of the random generator are a stream.
\<close>

section \<open>FdAdapterBase\<close>

record Address =
  ad_ipv4_numeric :: "32 word"
  ad_port :: "16 word"

record FdAdapterConfig =
  fc_source :: Address
  fc_destination :: Address
  fc_loss_rate_dn :: "16 word"
  fc_loss_rate_up :: "16 word"

definition FdAdapterConfig_default :: FdAdapterConfig where
  "FdAdapterConfig_default =
     \<lparr>fc_source = \<lparr>ad_ipv4_numeric = 0, ad_port = 0\<rparr>, fc_destination = \<lparr>ad_ipv4_numeric = 0, ad_port = 0\<rparr>,
      fc_loss_rate_dn = 0, fc_loss_rate_up = 0\<rparr>"

record FdAdapterBase =
  fa_cfg :: FdAdapterConfig
  fa_listen :: bool

definition FdAdapterBase_init :: FdAdapterBase where
  "FdAdapterBase_init = \<lparr>fa_cfg = FdAdapterConfig_default, fa_listen = False\<rparr>"

definition set_listening :: "bool \<Rightarrow> FdAdapterBase \<Rightarrow> FdAdapterBase" where
  "set_listening l a = a\<lparr>fa_listen := l\<rparr>"

definition listening :: "FdAdapterBase \<Rightarrow> bool" where
  "listening a = fa_listen a"

definition fa_ports :: "FdAdapterBase \<Rightarrow> TCPSegment \<Rightarrow> TCPSegment" where
  "fa_ports a seg =
     seg\<lparr>ts_header := (ts_header seg)\<lparr>th_sport := ad_port (fc_source (fa_cfg a)),
                                      th_dport := ad_port (fc_destination (fa_cfg a))\<rparr>\<rparr>"

section \<open>TCPOverUDPSocketAdapter\<close>

record TCPOverUDPSocketAdapter =
  ua_base :: FdAdapterBase
  ua_sock :: "(Address \<times> bytes) list"

definition TCPOverUDPSocketAdapter_init :: TCPOverUDPSocketAdapter where
  "TCPOverUDPSocketAdapter_init = \<lparr>ua_base = FdAdapterBase_init, ua_sock = []\<rparr>"

definition TCPOverUDPSocketAdapter_read ::
  "Address \<times> bytes \<Rightarrow> TCPOverUDPSocketAdapter \<Rightarrow> (TCPSegment option \<times> TCPOverUDPSocketAdapter) res" where
  "TCPOverUDPSocketAdapter_read datagram a =
     (let b = ua_base a
      in if \<not> listening b \<and> fst datagram \<noteq> fc_destination (fa_cfg b) then Inr (None, a)
         else
           bind_res (TCPSegment_parse (Buffer_of_string (snd datagram)) 0 TCPSegment_default) (\<lambda>(r, seg).
             if r \<noteq> NoError then Inr (None, a)
             else if listening b then
               if th_syn (ts_header seg) \<and> \<not> th_rst (ts_header seg)
               then Inr (Some seg, a\<lparr>ua_base :=
                      set_listening False (b\<lparr>fa_cfg := (fa_cfg b)\<lparr>fc_destination := fst datagram\<rparr>\<rparr>)\<rparr>)
               else Inr (None, a)
             else Inr (Some seg, a)))"

definition TCPOverUDPSocketAdapter_write ::
  "TCPSegment \<Rightarrow> TCPOverUDPSocketAdapter \<Rightarrow> TCPOverUDPSocketAdapter res" where
  "TCPOverUDPSocketAdapter_write seg a =
     bind_res (TCPSegment_serialize 0 (fa_ports (ua_base a) seg)) (\<lambda>bl.
       Inr (a\<lparr>ua_sock := ua_sock a @ [(fc_destination (fa_cfg (ua_base a)), BufferList_concatenate bl)]\<rparr>))"

section \<open>TCPOverIPv4Adapter\<close>

definition unwrap_tcp_in_ip :: "IPv4Datagram \<Rightarrow> FdAdapterBase \<Rightarrow> (TCPSegment option \<times> FdAdapterBase) res" where
  "unwrap_tcp_in_ip ip_dgram a =
     (let h = ipd_header ip_dgram
      in if \<not> listening a \<and> ih_dst h \<noteq> ad_ipv4_numeric (fc_source (fa_cfg a)) then Inr (None, a)
         else if \<not> listening a \<and> ih_src h \<noteq> ad_ipv4_numeric (fc_destination (fa_cfg a)) then Inr (None, a)
         else if ih_proto h \<noteq> IPv4Header_PROTO_TCP then Inr (None, a)
         else
           bind_res (BufferList_to_Buffer (ipd_payload ip_dgram)) (\<lambda>payload.
           bind_res (TCPSegment_parse payload (pseudo_cksum h) TCPSegment_default) (\<lambda>(r, tcp_seg).
             let th = ts_header tcp_seg
             in if r \<noteq> NoError then Inr (None, a)
                else if th_dport th \<noteq> ad_port (fc_source (fa_cfg a)) then Inr (None, a)
                else if listening a \<and> \<not> (th_syn th \<and> \<not> th_rst th) then Inr (None, a)
                else
                  let a1 = (if listening a
                            then set_listening False (a\<lparr>fa_cfg := (fa_cfg a)\<lparr>
                                   fc_source := \<lparr>ad_ipv4_numeric = ih_dst h, ad_port = ad_port (fc_source (fa_cfg a))\<rparr>,
                                   fc_destination := \<lparr>ad_ipv4_numeric = ih_src h, ad_port = th_sport th\<rparr>\<rparr>\<rparr>)
                            else a)
                  in if th_sport th \<noteq> ad_port (fc_destination (fa_cfg a1)) then Inr (None, a1)
                     else Inr (Some tcp_seg, a1))))"

definition wrap_tcp_in_ip :: "TCPSegment \<Rightarrow> FdAdapterBase \<Rightarrow> IPv4Datagram res" where
  "wrap_tcp_in_ip seg a =
     (let seg = fa_ports a seg;
          h = IPv4Header_default\<lparr>ih_src := ad_ipv4_numeric (fc_source (fa_cfg a)),
                                 ih_dst := ad_ipv4_numeric (fc_destination (fa_cfg a))\<rparr>;
          h = h\<lparr>ih_len := of_nat (unat (ih_hlen h) * 4 + unat (th_doff (ts_header seg)) * 4 +
                                  Buffer_size (ts_payload seg))\<rparr>
      in bind_res (TCPSegment_serialize (pseudo_cksum h) seg) (\<lambda>payload.
           Inr (IPv4Datagram_default\<lparr>ipd_header := h, ipd_payload := payload\<rparr>)))"

section \<open>TUN and TAP devices\<close>

record TCPOverIPv4OverTunFdAdapter =
  ta_base :: FdAdapterBase
  ta_tun :: "bytes list"

definition TCPOverIPv4OverTunFdAdapter_init :: TCPOverIPv4OverTunFdAdapter where
  "TCPOverIPv4OverTunFdAdapter_init = \<lparr>ta_base = FdAdapterBase_init, ta_tun = []\<rparr>"

definition TCPOverIPv4OverTunFdAdapter_read ::
  "bytes \<Rightarrow> TCPOverIPv4OverTunFdAdapter \<Rightarrow> (TCPSegment option \<times> TCPOverIPv4OverTunFdAdapter) res" where
  "TCPOverIPv4OverTunFdAdapter_read bs a =
     bind_res (IPv4Datagram_parse (Buffer_of_string bs) IPv4Datagram_default) (\<lambda>(r, ip_dgram).
       if r \<noteq> NoError then Inr (None, a)
       else bind_res (unwrap_tcp_in_ip ip_dgram (ta_base a)) (\<lambda>(seg, b). Inr (seg, a\<lparr>ta_base := b\<rparr>)))"

definition TCPOverIPv4OverTunFdAdapter_write ::
  "TCPSegment \<Rightarrow> TCPOverIPv4OverTunFdAdapter \<Rightarrow> TCPOverIPv4OverTunFdAdapter res" where
  "TCPOverIPv4OverTunFdAdapter_write seg a =
     bind_res (wrap_tcp_in_ip seg (ta_base a)) (\<lambda>ip_dgram.
     bind_res (IPv4Datagram_serialize ip_dgram) (\<lambda>bl.
       Inr (a\<lparr>ta_tun := ta_tun a @ [BufferList_concatenate bl]\<rparr>)))"

record TCPOverIPv4OverEthernetAdapter =
  ea_base :: FdAdapterBase
  ea_tap :: "bytes list"
  ea_interface :: NetworkInterface
  ea_next_hop :: Address

definition TCPOverIPv4OverEthernetAdapter_init ::
  "EthernetAddress \<Rightarrow> Address \<Rightarrow> Address \<Rightarrow> TCPOverIPv4OverEthernetAdapter" where
  "TCPOverIPv4OverEthernetAdapter_init eth_address ip_address next_hop =
     \<lparr>ea_base = FdAdapterBase_init,
      ea_tap = [BufferList_concatenate (EthernetFrame_serialize EthernetFrame_default)],
      ea_interface = NetworkInterface_init eth_address (ad_ipv4_numeric ip_address), ea_next_hop = next_hop\<rparr>"

fun send_pending_loop :: "EthernetFrame list \<Rightarrow> bytes list \<Rightarrow> bytes list" where
  "send_pending_loop [] tap = tap"
| "send_pending_loop (f # frames) tap =
     send_pending_loop frames (tap @ [BufferList_concatenate (EthernetFrame_serialize f)])"

definition send_pending :: "TCPOverIPv4OverEthernetAdapter \<Rightarrow> TCPOverIPv4OverEthernetAdapter" where
  "send_pending a =
     a\<lparr>ea_tap := send_pending_loop (ni_frames_out (ea_interface a)) (ea_tap a),
       ea_interface := (ea_interface a)\<lparr>ni_frames_out := []\<rparr>\<rparr>"

definition TCPOverIPv4OverEthernetAdapter_read ::
  "bytes \<Rightarrow> TCPOverIPv4OverEthernetAdapter \<Rightarrow> (TCPSegment option \<times> TCPOverIPv4OverEthernetAdapter) res" where
  "TCPOverIPv4OverEthernetAdapter_read bs a =
     bind_res (EthernetFrame_parse (Buffer_of_string bs) EthernetFrame_default) (\<lambda>(r, frame).
       if r \<noteq> NoError then Inr (None, a)
       else
         bind_res (recv_frame frame (ea_interface a)) (\<lambda>(ip_dgram, s).
           let a1 = send_pending (a\<lparr>ea_interface := s\<rparr>)
           in case ip_dgram of
                Some d \<Rightarrow> bind_res (unwrap_tcp_in_ip d (ea_base a1)) (\<lambda>(seg, b). Inr (seg, a1\<lparr>ea_base := b\<rparr>))
              | None \<Rightarrow> Inr (None, a1)))"

definition TCPOverIPv4OverEthernetAdapter_tick ::
  "64 word \<Rightarrow> TCPOverIPv4OverEthernetAdapter \<Rightarrow> TCPOverIPv4OverEthernetAdapter" where
  "TCPOverIPv4OverEthernetAdapter_tick ms a =
     send_pending (a\<lparr>ea_interface := NetworkInterface_tick ms (ea_interface a)\<rparr>)"

definition TCPOverIPv4OverEthernetAdapter_write ::
  "TCPSegment \<Rightarrow> TCPOverIPv4OverEthernetAdapter \<Rightarrow> TCPOverIPv4OverEthernetAdapter res" where
  "TCPOverIPv4OverEthernetAdapter_write seg a =
     bind_res (wrap_tcp_in_ip seg (ea_base a)) (\<lambda>ip_dgram.
     bind_res (send_datagram ip_dgram (ad_ipv4_numeric (ea_next_hop a)) (ea_interface a)) (\<lambda>s.
       Inr (send_pending (a\<lparr>ea_interface := s\<rparr>))))"

section \<open>LossyFdAdapter\<close>

record 'a LossyFdAdapter =
  lo_rand :: "32 word stream"
  lo_adapter :: 'a

text \<open>
  The random value is drawn only when the rate is not zero. The operations of the adapter underneath
  are arguments.
\<close>

definition should_drop ::
  "('a \<Rightarrow> FdAdapterConfig) \<Rightarrow> bool \<Rightarrow> 'a LossyFdAdapter \<Rightarrow> bool \<times> 'a LossyFdAdapter" where
  "should_drop config uplink a =
     (let cfg = config (lo_adapter a);
          loss = (if uplink then fc_loss_rate_up cfg else fc_loss_rate_dn cfg)
      in if loss \<noteq> 0 then (ucast (shd (lo_rand a)) < loss, a\<lparr>lo_rand := stl (lo_rand a)\<rparr>) else (False, a))"

definition LossyFdAdapter_read ::
  "('a \<Rightarrow> FdAdapterConfig) \<Rightarrow> ('i \<Rightarrow> 'a \<Rightarrow> (TCPSegment option \<times> 'a) res) \<Rightarrow> 'i \<Rightarrow> 'a LossyFdAdapter \<Rightarrow>
     (TCPSegment option \<times> 'a LossyFdAdapter) res" where
  "LossyFdAdapter_read config rd i a =
     bind_res (rd i (lo_adapter a)) (\<lambda>(ret, b).
       case should_drop config False (a\<lparr>lo_adapter := b\<rparr>) of
         (lost, a1) \<Rightarrow> Inr (if lost then None else ret, a1))"

definition LossyFdAdapter_write ::
  "('a \<Rightarrow> FdAdapterConfig) \<Rightarrow> (TCPSegment \<Rightarrow> 'a \<Rightarrow> 'a res) \<Rightarrow> TCPSegment \<Rightarrow> 'a LossyFdAdapter \<Rightarrow>
     'a LossyFdAdapter res" where
  "LossyFdAdapter_write config wr seg a =
     (case should_drop config True a of
        (lost, a1) \<Rightarrow>
          if lost then Inr a1 else bind_res (wr seg (lo_adapter a1)) (\<lambda>b. Inr (a1\<lparr>lo_adapter := b\<rparr>)))"

section \<open>Segments on the wire\<close>

text \<open>What a segment must satisfy to fit a datagram.\<close>

definition seg_fits :: "TCPSegment \<Rightarrow> bool" where
  "seg_fits seg \<longleftrightarrow>
     5 \<le> unat (th_doff (ts_header seg)) \<and> unat (th_doff (ts_header seg)) < 16 \<and>
     20 + 4 * unat (th_doff (ts_header seg)) + length (Buffer_str (ts_payload seg)) < 65536"

lemma unat_add_le: "unat (a + b) \<le> unat a + unat (b :: 'a::len word)"
  by (simp add: unat_word_ariths)

lemma unat_low_half: "unat (x AND 0xffff :: 32 word) < 65536"
proof -
  have "x AND 0xffff = take_bit 16 x"
    by (simp add: take_bit_eq_mask mask_eq_exp_minus_1)
  moreover have "unat (take_bit 16 x) < 65536"
    unfolding unsigned_take_bit_eq by (simp add: take_bit_eq_mod)
  ultimately show ?thesis
    by (simp only:)
qed

lemma unat_high_half: "unat (drop_bit 16 x :: 32 word) < 65536"
  unfolding unsigned_drop_bit_eq using unat_lt [of x] by (simp add: drop_bit_eq_div less_mult_imp_div_less take_bit_eq_mod)

lemma pseudo_cksum_le: "unat (pseudo_cksum h) \<le> 400000"
proof -
  have "unat (pseudo_cksum h) \<le>
      unat (drop_bit 16 (ih_src h)) + unat (ih_src h AND 0xffff) + (unat (drop_bit 16 (ih_dst h)) + unat (ih_dst h AND 0xffff)) +
      unat (ucast (ih_proto h) :: 32 word) + unat (ucast (payload_length h) :: 32 word)"
    unfolding pseudo_cksum_def Let_def
    by (intro order_trans [OF unat_add_le] add_mono order_refl)
  moreover have "unat (ucast (ih_proto h) :: 32 word) < 256" "unat (ucast (payload_length h) :: 32 word) < 65536"
    using unat_lt [of "ih_proto h"] unat_lt [of "payload_length h"]
    by (simp_all add: unsigned_ucast_eq take_bit_eq_mod)
  ultimately show ?thesis
    using unat_low_half [of "ih_src h"] unat_low_half [of "ih_dst h"]
      unat_high_half [of "ih_src h"] unat_high_half [of "ih_dst h"] by linarith
qed

lemma fits_parse:
  assumes "seg_fits seg" and "unat d \<le> 400000" and "Buffer_wf buf"
    and "Buffer_str buf = tcp_header_bytes (ts_header seg) (tcp_checksum d seg) @ Buffer_str (ts_payload seg)"
  shows "\<exists>seg'. TCPSegment_parse buf d TCPSegment_default = Inr (NoError, seg') \<and>
    ts_header seg' = (ts_header seg)\<lparr>th_cksum := tcp_checksum d seg\<rparr> \<and>
    Buffer_str (ts_payload seg') = Buffer_str (ts_payload seg)"
proof -
  have "unat d + 65280 * (60 + length (Buffer_str (ts_payload seg))) + 65535 < 2 ^ 32"
    using assms(1,2) by (simp add: seg_fits_def)
  then show ?thesis
    using TCPSegment_parse_buffer [OF _ _ _ assms(3,4), of TCPSegment_default] assms(1)
    by (auto simp: seg_fits_def)
qed

lemma fits_serialize:
  assumes "seg_fits seg"
  shows "TCPSegment_serialize d seg =
    Inr [Buffer_of_string (tcp_header_bytes (ts_header seg) (tcp_checksum d seg)), ts_payload seg]"
  using assms by (simp add: TCPSegment_serialize_eq seg_fits_def word_less_nat_alt)

lemma fa_ports_simps [simp]:
  "ts_payload (fa_ports a seg) = ts_payload seg"
  "th_doff (ts_header (fa_ports a seg)) = th_doff (ts_header seg)"
  by (simp_all add: fa_ports_def)

lemma seg_fits_ports [simp]: "seg_fits (fa_ports a seg) = seg_fits seg"
  by (simp add: seg_fits_def fa_ports_def)

section \<open>What a carrier of segments promises\<close>

text \<open>The loops that write or read one segment after another.\<close>

fun write_segments :: "(TCPSegment \<Rightarrow> 'a \<Rightarrow> 'a res) \<Rightarrow> TCPSegment list \<Rightarrow> 'a \<Rightarrow> 'a res" where
  "write_segments wr [] a = Inr a"
| "write_segments wr (seg # segs) a = bind_res (wr seg a) (write_segments wr segs)"

fun read_segments ::
  "('w \<Rightarrow> 'a \<Rightarrow> (TCPSegment option \<times> 'a) res) \<Rightarrow> 'w list \<Rightarrow> 'a \<Rightarrow> (TCPSegment list \<times> 'a) res" where
  "read_segments rd [] a = Inr ([], a)"
| "read_segments rd (w # ws) a =
     bind_res (rd w a) (\<lambda>(seg, a1).
     bind_res (read_segments rd ws a1) (\<lambda>(segs, a2).
       Inr ((case seg of Some s \<Rightarrow> s # segs | None \<Rightarrow> segs), a2)))"

locale segment_carrier =
  fixes wr :: "TCPSegment \<Rightarrow> 'a \<Rightarrow> 'a res"
    and rd :: "'w \<Rightarrow> 'a \<Rightarrow> (TCPSegment option \<times> 'a) res"
    and out :: "'a \<Rightarrow> 'w list"
    and peers :: "'a \<Rightarrow> 'a \<Rightarrow> bool"
  assumes transfer: "peers a b \<Longrightarrow> seg_fits seg \<Longrightarrow>
      \<exists>w a' seg'. wr seg a = Inr a' \<and> out a' = out a @ [w] \<and> peers a' b \<and>
        rd w b = Inr (Some seg', b) \<and> tcp_same seg seg'"
begin

lemma transfer_all:
  assumes "peers a b" and "list_all seg_fits segs"
  shows "\<exists>ws a' segs'. write_segments wr segs a = Inr a' \<and> out a' = out a @ ws \<and>
    read_segments rd ws b = Inr (segs', b) \<and> list_all2 tcp_same segs segs'"
  using assms
proof (induction segs arbitrary: a)
  case (Cons seg segs)
  then obtain w a1 seg' where 1: "wr seg a = Inr a1" "out a1 = out a @ [w]" "peers a1 b"
    "rd w b = Inr (Some seg', b)" "tcp_same seg seg'"
    using transfer [of a b seg] by auto
  then obtain ws a' segs' where "write_segments wr segs a1 = Inr a'" "out a' = out a1 @ ws"
    "read_segments rd ws b = Inr (segs', b)" "list_all2 tcp_same segs segs'"
    using Cons by fastforce
  with 1 show ?case
    by (intro exI [of _ "w # ws"] exI [of _ a'] exI [of _ "seg' # segs'"]) simp
qed simp

end

text \<open>Two adapters are configured for each other when each has the other's address as its destination.\<close>

definition fa_peers :: "FdAdapterBase \<Rightarrow> FdAdapterBase \<Rightarrow> bool" where
  "fa_peers a b \<longleftrightarrow>
     \<not> listening b \<and> fc_source (fa_cfg a) = fc_destination (fa_cfg b) \<and>
     fc_destination (fa_cfg a) = fc_source (fa_cfg b)"

lemma wrap_tcp_in_ip_fits:
  assumes "seg_fits seg"
  shows "\<exists>h. wrap_tcp_in_ip seg a = Inr \<lparr>ipd_header = h, ipd_payload =
      [Buffer_of_string (tcp_header_bytes (ts_header (fa_ports a seg)) (tcp_checksum (pseudo_cksum h) (fa_ports a seg))),
       ts_payload seg]\<rparr> \<and>
    IPv4Header_wf h \<and>
    unat (ih_len h) = 4 * unat (ih_hlen h) + (4 * unat (th_doff (ts_header seg)) + length (Buffer_str (ts_payload seg))) \<and>
    ih_src h = ad_ipv4_numeric (fc_source (fa_cfg a)) \<and> ih_dst h = ad_ipv4_numeric (fc_destination (fa_cfg a)) \<and>
    ih_proto h = IPv4Header_PROTO_TCP"
proof -
  define n where "n = 5 * 4 + unat (th_doff (ts_header seg)) * 4 + Buffer_size (ts_payload seg)"
  let ?h = "IPv4Header_default\<lparr>ih_src := ad_ipv4_numeric (fc_source (fa_cfg a)),
    ih_dst := ad_ipv4_numeric (fc_destination (fa_cfg a)), ih_len := of_nat n\<rparr>"
  have "n < 65536" and n: "n = 20 + (4 * unat (th_doff (ts_header seg)) + length (Buffer_str (ts_payload seg)))"
    using assms by (simp_all add: seg_fits_def n_def Buffer_size_def)
  from \<open>n < 65536\<close> have "unat (ih_len ?h) = n"
    by (simp add: unat_of_nat)
  then have "unat (ih_len ?h) = 20 + (4 * unat (th_doff (ts_header seg)) + length (Buffer_str (ts_payload seg)))"
    unfolding n .
  moreover have "wrap_tcp_in_ip seg a = Inr \<lparr>ipd_header = ?h, ipd_payload =
      [Buffer_of_string (tcp_header_bytes (ts_header (fa_ports a seg)) (tcp_checksum (pseudo_cksum ?h) (fa_ports a seg))),
       ts_payload seg]\<rparr>"
    using fits_serialize [of "fa_ports a seg" "pseudo_cksum ?h"] assms
    by (simp add: wrap_tcp_in_ip_def Let_def IPv4Header_default_def IPv4Datagram_default_def n_def)
  ultimately show ?thesis
    by (intro exI [of _ ?h]) (simp add: IPv4Header_default_def IPv4Header_wf_def)
qed

lemma unwrap_tcp_in_ip_fits:
  assumes "seg_fits seg" and "fa_peers a b" and "Buffer_wf buf"
    and "ih_src h = ad_ipv4_numeric (fc_source (fa_cfg a))"
    and "ih_dst h = ad_ipv4_numeric (fc_destination (fa_cfg a))" and "ih_proto h = IPv4Header_PROTO_TCP"
    and "Buffer_str buf = tcp_header_bytes (ts_header (fa_ports a seg))
      (tcp_checksum (pseudo_cksum h) (fa_ports a seg)) @ Buffer_str (ts_payload seg)"
  shows "\<exists>seg'. unwrap_tcp_in_ip \<lparr>ipd_header = h, ipd_payload = [buf]\<rparr> b = Inr (Some seg', b) \<and> tcp_same seg seg'"
proof -
  obtain seg' where seg': "TCPSegment_parse buf (pseudo_cksum h) TCPSegment_default = Inr (NoError, seg')"
    "ts_header seg' = (ts_header (fa_ports a seg))\<lparr>th_cksum := tcp_checksum (pseudo_cksum h) (fa_ports a seg)\<rparr>"
    "Buffer_str (ts_payload seg') = Buffer_str (ts_payload seg)"
    using fits_parse [of "fa_ports a seg" "pseudo_cksum h" buf] assms(1,3,7) pseudo_cksum_le [of h]
    by auto
  then have "unwrap_tcp_in_ip \<lparr>ipd_header = h, ipd_payload = [buf]\<rparr> b = Inr (Some seg', b)"
    using assms(2,4-6)
    by (simp add: unwrap_tcp_in_ip_def Let_def BufferList_to_Buffer_def fa_peers_def fa_ports_def)
  moreover have "tcp_same seg seg'"
    using seg'(2,3) by (auto simp: tcp_same_def fa_ports_def)
  ultimately show ?thesis
    by blast
qed

text \<open>The three carriers.\<close>

definition udp_peers :: "TCPOverUDPSocketAdapter \<Rightarrow> TCPOverUDPSocketAdapter \<Rightarrow> bool" where
  "udp_peers a b \<longleftrightarrow> fa_peers (ua_base a) (ua_base b)"

text \<open>
  What the network does with a datagram written for an address: the socket that has this address receives
  it, with the address of its peer as the sender's; any other socket does not see it.
\<close>

definition udp_receive ::
  "Address \<times> bytes \<Rightarrow> TCPOverUDPSocketAdapter \<Rightarrow> (TCPSegment option \<times> TCPOverUDPSocketAdapter) res" where
  "udp_receive w b =
     (if fst w = fc_source (fa_cfg (ua_base b))
      then TCPOverUDPSocketAdapter_read (fc_destination (fa_cfg (ua_base b)), snd w) b
      else Inr (None, b))"

interpretation udp: segment_carrier TCPOverUDPSocketAdapter_write udp_receive ua_sock udp_peers
proof
  fix a b :: TCPOverUDPSocketAdapter and seg :: TCPSegment
  assume peers: "udp_peers a b" and fits: "seg_fits seg"
  let ?seg = "fa_ports (ua_base a) seg"
  let ?bs = "tcp_header_bytes (ts_header ?seg) (tcp_checksum 0 ?seg) @ Buffer_str (ts_payload ?seg)"
  let ?w = "(fc_destination (fa_cfg (ua_base a)), ?bs)"
  obtain seg' where seg': "TCPSegment_parse (Buffer_of_string ?bs) 0 TCPSegment_default = Inr (NoError, seg')"
    "ts_header seg' = (ts_header ?seg)\<lparr>th_cksum := tcp_checksum 0 ?seg\<rparr>"
    "Buffer_str (ts_payload seg') = Buffer_str (ts_payload ?seg)"
    using fits_parse [of ?seg 0 "Buffer_of_string ?bs"] fits by auto
  have "TCPOverUDPSocketAdapter_write seg a = Inr (a\<lparr>ua_sock := ua_sock a @ [?w]\<rparr>)"
    using fits_serialize [of ?seg 0] fits by (simp add: TCPOverUDPSocketAdapter_write_def)
  moreover have "udp_receive ?w b = Inr (Some seg', b)"
    using peers seg'(1)
    by (simp add: udp_receive_def TCPOverUDPSocketAdapter_read_def Let_def udp_peers_def fa_peers_def)
  moreover have "tcp_same seg seg'"
    using seg'(2,3) by (auto simp: tcp_same_def fa_ports_def)
  ultimately show "\<exists>w a' seg'. TCPOverUDPSocketAdapter_write seg a = Inr a' \<and> ua_sock a' = ua_sock a @ [w] \<and>
      udp_peers a' b \<and> udp_receive w b = Inr (Some seg', b) \<and> tcp_same seg seg'"
    using peers by (fastforce simp: udp_peers_def)
qed

definition tun_peers :: "TCPOverIPv4OverTunFdAdapter \<Rightarrow> TCPOverIPv4OverTunFdAdapter \<Rightarrow> bool" where
  "tun_peers a b \<longleftrightarrow> fa_peers (ta_base a) (ta_base b)"

lemma pseudo_cksum_update [simp]: "pseudo_cksum (h\<lparr>ih_cksum := ck\<rparr>) = pseudo_cksum h"
  by (simp add: pseudo_cksum_def payload_length_def)

text \<open>A wrapped segment, sent as a datagram and parsed from any buffer with its bytes, is unwrapped by the peer.\<close>

lemma datagram_transfer:
  assumes peers: "fa_peers a b" and fits: "seg_fits seg"
  shows "\<exists>d. wrap_tcp_in_ip seg a = Inr d \<and> IPv4Header_wf (ipd_header d) \<and>
    unat (ih_len (ipd_header d)) = 4 * unat (ih_hlen (ipd_header d)) + length (BufferList_concatenate (ipd_payload d)) \<and>
    (\<forall>ck buf. Buffer_wf buf \<longrightarrow> Buffer_str buf = BufferList_concatenate (ipd_payload d) \<longrightarrow>
       (\<exists>seg'. unwrap_tcp_in_ip \<lparr>ipd_header = (ipd_header d)\<lparr>ih_cksum := ck\<rparr>, ipd_payload = [buf]\<rparr> b = Inr (Some seg', b) \<and>
          tcp_same seg seg'))"
proof -
  obtain h where h: "wrap_tcp_in_ip seg a = Inr \<lparr>ipd_header = h, ipd_payload =
      [Buffer_of_string (tcp_header_bytes (ts_header (fa_ports a seg)) (tcp_checksum (pseudo_cksum h) (fa_ports a seg))),
       ts_payload seg]\<rparr>" "IPv4Header_wf h"
    "unat (ih_len h) = 4 * unat (ih_hlen h) + (4 * unat (th_doff (ts_header seg)) + length (Buffer_str (ts_payload seg)))"
    "ih_src h = ad_ipv4_numeric (fc_source (fa_cfg a))" "ih_dst h = ad_ipv4_numeric (fc_destination (fa_cfg a))"
    "ih_proto h = IPv4Header_PROTO_TCP"
    using wrap_tcp_in_ip_fits [OF fits, of a] by blast
  have "length (tcp_header_bytes (ts_header (fa_ports a seg)) c) = 4 * unat (th_doff (ts_header seg))" for c
    using fits by (simp add: tcp_header_bytes_length seg_fits_def)
  then show ?thesis
    using h unwrap_tcp_in_ip_fits [OF fits peers, where h = "h\<lparr>ih_cksum := ck\<rparr>" for ck] by fastforce
qed

interpretation tun: segment_carrier TCPOverIPv4OverTunFdAdapter_write TCPOverIPv4OverTunFdAdapter_read ta_tun tun_peers
proof
  fix a b :: TCPOverIPv4OverTunFdAdapter and seg :: TCPSegment
  assume peers: "tun_peers a b" and fits: "seg_fits seg"
  obtain d where d: "wrap_tcp_in_ip seg (ta_base a) = Inr d" "IPv4Header_wf (ipd_header d)"
    "unat (ih_len (ipd_header d)) = 4 * unat (ih_hlen (ipd_header d)) + length (BufferList_concatenate (ipd_payload d))"
    and unwrap: "\<And>ck buf. Buffer_wf buf \<Longrightarrow> Buffer_str buf = BufferList_concatenate (ipd_payload d) \<Longrightarrow>
       \<exists>seg'. unwrap_tcp_in_ip \<lparr>ipd_header = (ipd_header d)\<lparr>ih_cksum := ck\<rparr>, ipd_payload = [buf]\<rparr> (ta_base b) =
          Inr (Some seg', ta_base b) \<and> tcp_same seg seg'"
    using datagram_transfer [OF peers [unfolded tun_peers_def] fits] by blast
  let ?ck = "inet_cksum 0 (ip_header_bytes (ipd_header d) 0)"
  let ?bs = "ip_header_bytes (ipd_header d) ?ck @ BufferList_concatenate (ipd_payload d)"
  obtain buf where buf: "IPv4Datagram_parse (Buffer_of_string ?bs) IPv4Datagram_default =
      Inr (NoError, IPv4Datagram_default\<lparr>ipd_header := (ipd_header d)\<lparr>ih_cksum := ?ck\<rparr>, ipd_payload := [buf]\<rparr>)"
    "Buffer_wf buf" "Buffer_str buf = BufferList_concatenate (ipd_payload d)"
    using IPv4Datagram_parse_buffer [OF d(2,3), of "Buffer_of_string ?bs" ?ck IPv4Datagram_default] by auto
  obtain seg' where seg': "unwrap_tcp_in_ip \<lparr>ipd_header = (ipd_header d)\<lparr>ih_cksum := ?ck\<rparr>, ipd_payload = [buf]\<rparr>
      (ta_base b) = Inr (Some seg', ta_base b)" "tcp_same seg seg'"
    using unwrap [OF buf(2,3)] by blast
  have "TCPOverIPv4OverTunFdAdapter_write seg a = Inr (a\<lparr>ta_tun := ta_tun a @ [?bs]\<rparr>)"
    using d(1) IPv4Datagram_serialize_eq [OF d(2,3)] by (simp add: TCPOverIPv4OverTunFdAdapter_write_def)
  moreover have "TCPOverIPv4OverTunFdAdapter_read ?bs b = Inr (Some seg', b)"
    using buf(1) seg'(1) by (simp add: TCPOverIPv4OverTunFdAdapter_read_def IPv4Datagram_default_def)
  ultimately show "\<exists>w a' seg'. TCPOverIPv4OverTunFdAdapter_write seg a = Inr a' \<and> ta_tun a' = ta_tun a @ [w] \<and>
      tun_peers a' b \<and> TCPOverIPv4OverTunFdAdapter_read w b = Inr (Some seg', b) \<and> tcp_same seg seg'"
    using peers seg'(2) by (fastforce simp: tun_peers_def)
qed

text \<open>
  On Ethernet, when the address of the next hop is known at the sender and is that of the receiver, and
  no frame is left over from before.
\<close>

definition eth_peers :: "TCPOverIPv4OverEthernetAdapter \<Rightarrow> TCPOverIPv4OverEthernetAdapter \<Rightarrow> bool" where
  "eth_peers a b \<longleftrightarrow>
     fa_peers (ea_base a) (ea_base b) \<and> ni_frames_out (ea_interface a) = [] \<and> ni_frames_out (ea_interface b) = [] \<and>
     (\<exists>n. ni_arp_table (ea_interface a) (ad_ipv4_numeric (ea_next_hop a)) = Some n \<and> en_exist n \<and>
        ni_timer (ea_interface a) - en_updated_time n \<le> 30000 \<and> ni_ethernet_address (ea_interface b) = en_eAddr n)"

lemma send_pending_loop_eq:
  "send_pending_loop fs tap = tap @ map (\<lambda>f. BufferList_concatenate (EthernetFrame_serialize f)) fs"
  by (induction fs arbitrary: tap) simp_all

interpretation eth: segment_carrier TCPOverIPv4OverEthernetAdapter_write TCPOverIPv4OverEthernetAdapter_read ea_tap eth_peers
proof
  fix a b :: TCPOverIPv4OverEthernetAdapter and seg :: TCPSegment
  assume peers: "eth_peers a b" and fits: "seg_fits seg"
  let ?ip = "ad_ipv4_numeric (ea_next_hop a)"
  obtain n where n: "ni_arp_table (ea_interface a) ?ip = Some n" "en_exist n"
    "ni_timer (ea_interface a) - en_updated_time n \<le> 30000" "ni_ethernet_address (ea_interface b) = en_eAddr n"
    using peers by (auto simp: eth_peers_def)
  have quiet: "ni_frames_out (ea_interface a) = []" "ni_frames_out (ea_interface b) = []"
    using peers by (auto simp: eth_peers_def)
  obtain d where d: "wrap_tcp_in_ip seg (ea_base a) = Inr d" "IPv4Header_wf (ipd_header d)"
    "unat (ih_len (ipd_header d)) = 4 * unat (ih_hlen (ipd_header d)) + length (BufferList_concatenate (ipd_payload d))"
    and unwrap: "\<And>ck buf. Buffer_wf buf \<Longrightarrow> Buffer_str buf = BufferList_concatenate (ipd_payload d) \<Longrightarrow>
       \<exists>seg'. unwrap_tcp_in_ip \<lparr>ipd_header = (ipd_header d)\<lparr>ih_cksum := ck\<rparr>, ipd_payload = [buf]\<rparr> (ea_base b) =
          Inr (Some seg', ea_base b) \<and> tcp_same seg seg'"
    using datagram_transfer [of "ea_base a" "ea_base b", OF _ fits] peers unfolding eth_peers_def by blast
  obtain f f' ck buf where f: "send_datagram d ?ip (ea_interface a) = Inr ((ea_interface a)\<lparr>ni_frames_out := [f]\<rparr>)"
    "EthernetFrame_parse (Buffer_of_string (BufferList_concatenate (EthernetFrame_serialize f))) EthernetFrame_default =
      Inr (NoError, f')"
    "recv_frame f' (ea_interface b) =
      Inr (Some \<lparr>ipd_header = (ipd_header d)\<lparr>ih_cksum := ck\<rparr>, ipd_payload = [buf]\<rparr>, ea_interface b)"
    "Buffer_wf buf" "Buffer_str buf = BufferList_concatenate (ipd_payload d)"
    using send_and_receive [OF d(2,3) n] quiet(1) by auto
  obtain seg' where seg': "unwrap_tcp_in_ip \<lparr>ipd_header = (ipd_header d)\<lparr>ih_cksum := ck\<rparr>, ipd_payload = [buf]\<rparr>
      (ea_base b) = Inr (Some seg', ea_base b)" "tcp_same seg seg'"
    using unwrap [OF f(4,5)] by blast
  let ?w = "BufferList_concatenate (EthernetFrame_serialize f)"
  have "TCPOverIPv4OverEthernetAdapter_write seg a = Inr (a\<lparr>ea_tap := ea_tap a @ [?w]\<rparr>)"
    using d(1) f(1) quiet(1)
    by (simp add: TCPOverIPv4OverEthernetAdapter_write_def send_pending_def send_pending_loop_eq)
  moreover have "TCPOverIPv4OverEthernetAdapter_read ?w b = Inr (Some seg', b)"
    using f(2,3) seg'(1) quiet(2)
    by (simp add: TCPOverIPv4OverEthernetAdapter_read_def send_pending_def Let_def)
  ultimately show "\<exists>w a' seg'. TCPOverIPv4OverEthernetAdapter_write seg a = Inr a' \<and> ea_tap a' = ea_tap a @ [w] \<and>
      eth_peers a' b \<and> TCPOverIPv4OverEthernetAdapter_read w b = Inr (Some seg', b) \<and> tcp_same seg seg'"
    using peers seg'(2) by (fastforce simp: eth_peers_def)
qed

section \<open>Properties\<close>

text \<open>
  C30. Segments written to an adapter of any of the three kinds come out of the adapter of the peer as
  they went in: every datagram or frame it puts on the wire is accepted at the other end, in order, with
  the same payload and the same header up to ports and checksum, and no state changes at the reader.
\<close>

theorem adapters_transfer:
  assumes "list_all seg_fits segs"
  shows "(udp_peers ua ub \<longrightarrow> (\<exists>ws a' segs'. write_segments TCPOverUDPSocketAdapter_write segs ua = Inr a' \<and>
        ua_sock a' = ua_sock ua @ ws \<and> read_segments udp_receive ws ub = Inr (segs', ub) \<and>
        list_all2 tcp_same segs segs')) \<and>
    (tun_peers ta tb \<longrightarrow> (\<exists>ws a' segs'. write_segments TCPOverIPv4OverTunFdAdapter_write segs ta = Inr a' \<and>
        ta_tun a' = ta_tun ta @ ws \<and> read_segments TCPOverIPv4OverTunFdAdapter_read ws tb = Inr (segs', tb) \<and>
        list_all2 tcp_same segs segs')) \<and>
    (eth_peers ea eb \<longrightarrow> (\<exists>ws a' segs'. write_segments TCPOverIPv4OverEthernetAdapter_write segs ea = Inr a' \<and>
        ea_tap a' = ea_tap ea @ ws \<and> read_segments TCPOverIPv4OverEthernetAdapter_read ws eb = Inr (segs', eb) \<and>
        list_all2 tcp_same segs segs'))"
  using udp.transfer_all [OF _ assms] tun.transfer_all [OF _ assms] eth.transfer_all [OF _ assms] by simp

definition base_example :: "bool \<Rightarrow> FdAdapterBase" where
  "base_example swap =
     (let x = \<lparr>ad_ipv4_numeric = 7, ad_port = 1000\<rparr>; y = \<lparr>ad_ipv4_numeric = 9, ad_port = 80\<rparr>
      in FdAdapterBase_init\<lparr>fa_cfg := FdAdapterConfig_default\<lparr>fc_source := if swap then y else x,
           fc_destination := if swap then x else y\<rparr>\<rparr>)"

definition eth_example :: "bool \<Rightarrow> TCPOverIPv4OverEthernetAdapter" where
  "eth_example swap =
     \<lparr>ea_base = base_example swap, ea_tap = [],
      ea_interface = (NetworkInterface_init (if swap then MAC 2 0 0 0 0 9 else MAC 2 0 0 0 0 7) (if swap then 9 else 7))
        \<lparr>ni_arp_table := [9 \<mapsto> \<lparr>en_eAddr = MAC 2 0 0 0 0 9, en_updated_time = 0, en_ask_time = 0, en_exist = True\<rparr>]\<rparr>,
      ea_next_hop = \<lparr>ad_ipv4_numeric = 9, ad_port = 0\<rparr>\<rparr>"

theorem adapters_transfer_witness:
  "\<exists>ws a' segs'. write_segments TCPOverIPv4OverEthernetAdapter_write
      [TCPSegment_default, TCPSegment_default\<lparr>ts_payload := Buffer_of_string [1, 2]\<rparr>] (eth_example False) = Inr a' \<and>
    ea_tap a' = ws \<and> read_segments TCPOverIPv4OverEthernetAdapter_read ws (eth_example True) = Inr (segs', eth_example True) \<and>
    list_all2 tcp_same [TCPSegment_default, TCPSegment_default\<lparr>ts_payload := Buffer_of_string [1, 2]\<rparr>] segs'"
proof -
  have "eth_peers (eth_example False) (eth_example True)"
    by (simp add: eth_peers_def eth_example_def base_example_def fa_peers_def listening_def FdAdapterBase_init_def
        NetworkInterface_init_def Let_def)
  moreover have "list_all seg_fits [TCPSegment_default, TCPSegment_default\<lparr>ts_payload := Buffer_of_string [1, 2]\<rparr>]"
    by (simp add: seg_fits_def TCPSegment_default_def TCPHeader_default_def)
  moreover have "ea_tap (eth_example False) = []"
    by (simp add: eth_example_def)
  ultimately show ?thesis
    using adapters_transfer [of "[TCPSegment_default, TCPSegment_default\<lparr>ts_payload := Buffer_of_string [1, 2]\<rparr>]"
        undefined undefined undefined undefined "eth_example False" "eth_example True"]
    by simp
qed

text \<open>
  C31. What the IPv4 adapter lets through belongs to the connection: a segment it returns came in a
  datagram of protocol TCP with a correct checksum, and its addresses and ports are those of the
  configuration afterwards. The configuration only changes while listening, and then only for a
  segment with SYN and without RST, which ends the listening and fixes the peer.
\<close>

theorem unwrap_tcp_in_ip_filters:
  assumes "unwrap_tcp_in_ip d a = Inr (r, a')"
  shows "(case r of
      Some seg \<Rightarrow>
        ih_proto (ipd_header d) = IPv4Header_PROTO_TCP \<and>
        inet_cksum (pseudo_cksum (ipd_header d)) (BufferList_concatenate (ipd_payload d)) = 0 \<and>
        \<not> listening a' \<and>
        fc_source (fa_cfg a') = \<lparr>ad_ipv4_numeric = ih_dst (ipd_header d), ad_port = th_dport (ts_header seg)\<rparr> \<and>
        fc_destination (fa_cfg a') = \<lparr>ad_ipv4_numeric = ih_src (ipd_header d), ad_port = th_sport (ts_header seg)\<rparr> \<and>
        (listening a \<longrightarrow> th_syn (ts_header seg) \<and> \<not> th_rst (ts_header seg)) \<and>
        ad_port (fc_source (fa_cfg a')) = ad_port (fc_source (fa_cfg a))
    | None \<Rightarrow> a' = a) \<and>
    (\<not> listening a \<longrightarrow> a' = a)"
proof -
  let ?h = "ipd_header d"
  show ?thesis
  proof (cases r)
    case None
    then show ?thesis
      using assms
      by (auto simp: unwrap_tcp_in_ip_def Let_def bind_res_eq_Inr set_listening_def split: if_splits)
  next
    case (Some seg)
    obtain buf where buf: "BufferList_to_Buffer (ipd_payload d) = Inr buf"
      "TCPSegment_parse buf (pseudo_cksum ?h) TCPSegment_default = Inr (NoError, seg)"
      using assms Some by (auto simp: unwrap_tcp_in_ip_def Let_def bind_res_eq_Inr split: if_splits)
    have "BufferList_concatenate (ipd_payload d) = Buffer_str buf"
      using buf(1) by (auto simp: BufferList_to_Buffer_def split: list.splits)
    moreover have "inet_cksum (pseudo_cksum ?h) (Buffer_str buf) = 0"
      using buf(2) by (auto simp: TCPSegment_parse_def Let_def inet_cksum_def split: if_splits)
    moreover have "a' = (if listening a
        then set_listening False (a\<lparr>fa_cfg := (fa_cfg a)\<lparr>
               fc_source := \<lparr>ad_ipv4_numeric = ih_dst ?h, ad_port = ad_port (fc_source (fa_cfg a))\<rparr>,
               fc_destination := \<lparr>ad_ipv4_numeric = ih_src ?h, ad_port = th_sport (ts_header seg)\<rparr>\<rparr>\<rparr>)
        else a)"
      using assms Some buf by (simp add: unwrap_tcp_in_ip_def Let_def split: if_splits)
    moreover have "ih_proto ?h = IPv4Header_PROTO_TCP" "th_dport (ts_header seg) = ad_port (fc_source (fa_cfg a))"
      "listening a \<Longrightarrow> th_syn (ts_header seg) \<and> \<not> th_rst (ts_header seg)"
      "\<not> listening a \<Longrightarrow> ih_dst ?h = ad_ipv4_numeric (fc_source (fa_cfg a)) \<and>
         ih_src ?h = ad_ipv4_numeric (fc_destination (fa_cfg a)) \<and> th_sport (ts_header seg) = ad_port (fc_destination (fa_cfg a))"
      using assms Some buf by (simp_all add: unwrap_tcp_in_ip_def Let_def split: if_splits)
    ultimately show ?thesis
      using Some by (cases "listening a") (simp_all add: set_listening_def listening_def)
  qed
qed

theorem unwrap_tcp_in_ip_filters_witness:
  "\<exists>d seg. unwrap_tcp_in_ip d (base_example True) = Inr (Some seg, base_example True) \<and>
    inet_cksum (pseudo_cksum (ipd_header d)) (BufferList_concatenate (ipd_payload d)) = 0 \<and>
    th_dport (ts_header seg) = 80 \<and> th_sport (ts_header seg) = 1000"
proof -
  have peers: "fa_peers (base_example False) (base_example True)"
    by (simp add: base_example_def fa_peers_def listening_def FdAdapterBase_init_def Let_def)
  have fits: "seg_fits TCPSegment_default"
    by (simp add: seg_fits_def TCPSegment_default_def TCPHeader_default_def)
  obtain d :: IPv4Datagram where "\<And>ck buf. Buffer_wf buf \<Longrightarrow> Buffer_str buf = BufferList_concatenate (ipd_payload d) \<Longrightarrow>
      \<exists>seg. unwrap_tcp_in_ip \<lparr>ipd_header = (ipd_header d)\<lparr>ih_cksum := ck\<rparr>, ipd_payload = [buf]\<rparr> (base_example True) =
        Inr (Some seg, base_example True)"
    using datagram_transfer [OF peers fits] by blast
  from this [of "Buffer_of_string (BufferList_concatenate (ipd_payload d))" 0] obtain buf seg where
    d: "unwrap_tcp_in_ip \<lparr>ipd_header = (ipd_header d)\<lparr>ih_cksum := 0\<rparr>, ipd_payload = [buf]\<rparr> (base_example True) =
      Inr (Some seg, base_example True)"
    by auto
  show ?thesis
    using unwrap_tcp_in_ip_filters [OF d] d
    by (intro exI [of _ "\<lparr>ipd_header = (ipd_header d)\<lparr>ih_cksum := 0\<rparr>, ipd_payload = [buf]\<rparr>"] exI [of _ seg])
      (simp add: base_example_def Let_def)
qed

end
