(* ===== verification/Packet_Tools.thy ===== *)
theory Packet_Tools
  imports Adapters Event_Loop
begin

text \<open>
  The programs under \<^verbatim>\<open>apps\<close> that look at packets or pass them on: \<^verbatim>\<open>udp_tcpdump.cc\<close>, \<^verbatim>\<open>tun.cc\<close>,
  \<^verbatim>\<open>bouncer.cc\<close> and \<^verbatim>\<open>webget.cc\<close>. What a program prints is a value that holds what the text is made of.
\<close>

section \<open>udp\_tcpdump\<close>

text \<open>Reading past the captured bytes is undefined behaviour.\<close>

definition byte_at :: "bytes \<Rightarrow> nat \<Rightarrow> byte res" where
  "byte_at data i = (if i < length data then Inr (data ! i) else Inl UndefinedBehaviour)"

definition inet_addr_at :: "nat \<Rightarrow> bytes \<Rightarrow> nat \<Rightarrow> bytes res" where
  "inet_addr_at n data off = (if off + n \<le> length data then Inr (take n (drop off data)) else Inl UndefinedBehaviour)"

text \<open>The loop over the extension headers of an IPv6 packet.\<close>

function (sequential) skip_extensions :: "bytes \<Rightarrow> byte \<Rightarrow> nat \<Rightarrow> nat option res" where
  "skip_extensions data nxt data_offset =
     (if nxt = 0x11 then Inr (Some data_offset)
      else if nxt \<noteq> 0 \<and> nxt \<noteq> 43 \<and> nxt \<noteq> 60 then Inr None
      else
        bind_res (byte_at data data_offset) (\<lambda>nxt'.
        bind_res (byte_at data (data_offset + 1)) (\<lambda>n.
          let data_offset' = data_offset + 8 * (1 + unat n)
          in if length data < data_offset' + 2 then Inr None
             else skip_extensions data nxt' data_offset')))"
  by pat_completeness auto
termination
  by (relation "measure (\<lambda>(data, _, data_offset). length data - data_offset)") (auto simp: byte_at_def split: if_splits)

declare skip_extensions.simps [simp del]

text \<open>The position of the UDP payload and the two addresses, or \<open>None\<close> where the code returns -1.\<close>

definition process_ipv4_ipv6 :: "bytes \<Rightarrow> (nat \<times> bytes \<times> bytes) option res" where
  "process_ipv4_ipv6 data =
     (if length data < 1 then Inr None
      else
        bind_res (byte_at data 0) (\<lambda>b0.
          let pt = b0 AND 0xf0
          in if pt = 0x40 then
               let data_offset = unat (b0 AND 0x0f) * 4
               in if length data < data_offset then Inr None
                  else
                    bind_res (byte_at data 9) (\<lambda>proto.
                      if proto \<noteq> 0x11 then Inr None
                      else
                        bind_res (inet_addr_at 4 data 12) (\<lambda>src_addr.
                        bind_res (inet_addr_at 4 data 16) (\<lambda>dst_addr.
                          Inr (Some (data_offset + 8, src_addr, dst_addr)))))
             else if pt = 0x60 then
               if length data < 42 then Inr None
               else
                 bind_res (byte_at data 6) (\<lambda>nxt.
                 bind_res (skip_extensions data nxt 40) (\<lambda>found.
                   case found of
                     None \<Rightarrow> Inr None
                   | Some data_offset \<Rightarrow>
                       bind_res (inet_addr_at 16 data 8) (\<lambda>src_addr.
                       bind_res (inet_addr_at 16 data 24) (\<lambda>dst_addr.
                         Inr (Some (data_offset + 8, src_addr, dst_addr))))))
             else Inr None))"

datatype datalink = DLT_RAW | DLT_NULL | DLT_EN10MB | DLT_LINUX_SLL | DLT_LINUX_SLL2 | DLT_OTHER

datatype dump_line =
    Malformed
  | Non_IP
  | Error_Parsing
  | Mysterious
  | Not_Recognized bytes bytes
  | Segment_Line bytes bytes TCPSegment bool size_t

definition ether_type :: "bytes \<Rightarrow> nat \<Rightarrow> 16 word res" where
  "ether_type data i =
     bind_res (byte_at data i) (\<lambda>a. bind_res (byte_at data (i + 1)) (\<lambda>b. Inr (push_bit 8 (ucast a) OR ucast b)))"

text \<open>Where the IP packet starts, based on the link type; a line to print instead where it does not.\<close>

definition link_ethertype :: "nat \<Rightarrow> nat \<Rightarrow> bytes \<Rightarrow> (dump_line + nat) res" where
  "link_ethertype hdr_off i pkt =
     (if length pkt < hdr_off then Inr (Inl Malformed)
      else bind_res (ether_type pkt i) (\<lambda>pt.
             Inr (if pt \<noteq> 0x0800 \<and> pt \<noteq> 0x86dd then Inl Non_IP else Inr hdr_off)))"

definition link_offset :: "datalink \<Rightarrow> bytes \<Rightarrow> (dump_line + nat) res" where
  "link_offset dl_type pkt =
     (case dl_type of
        DLT_NULL \<Rightarrow>
          if length pkt < 4 then Inr (Inl Malformed)
          else bind_res (byte_at pkt 3) (\<lambda>pt.
                 Inr (if pt \<noteq> 2 \<and> pt \<noteq> 24 \<and> pt \<noteq> 28 \<and> pt \<noteq> 30 then Inl Non_IP else Inr 4))
      | DLT_EN10MB \<Rightarrow> link_ethertype 14 12 pkt
      | DLT_LINUX_SLL \<Rightarrow> link_ethertype 16 14 pkt
      | DLT_LINUX_SLL2 \<Rightarrow> link_ethertype 20 0 pkt
      | DLT_RAW \<Rightarrow> Inr (Inr 0)
      | DLT_OTHER \<Rightarrow> Inr (Inl Mysterious))"

text \<open>
  One captured packet. The length of the payload is an unsigned difference; a view that would reach
  past the packet is undefined behaviour when it is copied.
\<close>

definition dump_packet :: "datalink \<Rightarrow> bytes \<Rightarrow> dump_line res" where
  "dump_packet dl_type pkt =
     bind_res (link_offset dl_type pkt) (\<lambda>l.
       case l of
         Inl line \<Rightarrow> Inr line
       | Inr hdr_off \<Rightarrow>
           bind_res (process_ipv4_ipv6 (drop hdr_off pkt)) (\<lambda>p.
             case p of
               None \<Rightarrow> Inr Error_Parsing
             | Some (start_off, src, dst) \<Rightarrow>
                 let payload_off = hdr_off + start_off;
                     payload_len = sub64 (length pkt) payload_off
                 in if payload_off + payload_len > length pkt then Inl UndefinedBehaviour
                    else
                      bind_res (TCPSegment_parse (Buffer_of_string (take payload_len (drop payload_off pkt))) 0 TCPSegment_default)
                        (\<lambda>(res, seg).
                          Inr (if res \<noteq> NoError \<and> res \<noteq> BadChecksum then Not_Recognized src dst
                               else Segment_Line src dst seg (res = NoError) payload_len))))"

section \<open>tun\<close>

datatype tun_report =
    Not_IPv4
  | Not_TCP IPv4Header
  | Bad_TCP IPv4Header
  | TCP_Report IPv4Header size_t TCPHeader

definition tun_packet :: "bytes \<Rightarrow> tun_report res" where
  "tun_packet buffer =
     bind_res (IPv4Datagram_parse (Buffer_of_string buffer) IPv4Datagram_default) (\<lambda>(res, ip_dgram).
       if res \<noteq> NoError then Inr Not_IPv4
       else if ih_proto (ipd_header ip_dgram) \<noteq> IPv4Header_PROTO_TCP then Inr (Not_TCP (ipd_header ip_dgram))
       else
         bind_res (BufferList_to_Buffer (ipd_payload ip_dgram)) (\<lambda>payload.
         bind_res (TCPSegment_parse payload (pseudo_cksum (ipd_header ip_dgram)) TCPSegment_default) (\<lambda>(res, tcp_seg).
           Inr (if res \<noteq> NoError then Bad_TCP (ipd_header ip_dgram)
                else TCP_Report (ipd_header ip_dgram) (Buffer_size (ts_payload tcp_seg)) (ts_header tcp_seg)))))"

section \<open>bouncer\<close>

record bouncer_pair =
  bp_x_peer :: "Address option"
  bp_y_peer :: "Address option"

text \<open>What one callback sends: the destination and the payload.\<close>

definition bounce_x :: "Address \<times> bytes \<Rightarrow> bouncer_pair \<Rightarrow> bouncer_pair \<times> (Address \<times> bytes) option" where
  "bounce_x rec b =
     (let b = (if bp_x_peer b = None \<or> bp_x_peer b \<noteq> Some (fst rec) then b\<lparr>bp_x_peer := Some (fst rec)\<rparr> else b)
      in (b, case bp_y_peer b of
               Some peer \<Rightarrow> if snd rec \<noteq> [] then Some (peer, snd rec) else None
             | None \<Rightarrow> None))"

definition bounce_y :: "Address \<times> bytes \<Rightarrow> bouncer_pair \<Rightarrow> bouncer_pair \<times> (Address \<times> bytes) option" where
  "bounce_y rec b =
     (let b = (if bp_y_peer b = None \<or> bp_y_peer b \<noteq> Some (fst rec) then b\<lparr>bp_y_peer := Some (fst rec)\<rparr> else b)
      in (b, case bp_x_peer b of
               Some peer \<Rightarrow> if snd rec \<noteq> [] then Some (peer, snd rec) else None
             | None \<Rightarrow> None))"

text \<open>
  The ports of the sockets in the order in which they are created, with the 16-bit counter of the loop.
\<close>

function (sequential) bouncer_ports :: "16 word \<Rightarrow> 16 word list" where
  "bouncer_ports lower_port =
     (if lower_port \<le> 64000 then lower_port # (lower_port + 1) # bouncer_ports (lower_port + 2) else [])"
  by pat_completeness auto
termination
proof (relation "measure (\<lambda>p. 2 ^ 16 - unat p)")
  fix p :: "16 word"
  assume "p \<le> 64000"
  then have "unat (p + 2) = unat p + 2" "unat p \<le> 64000"
    by (auto simp: word_le_nat_alt unat_word_ariths)
  then show "(p + 2, p) \<in> measure (\<lambda>p. 2 ^ 16 - unat p)"
    by simp
qed simp

declare bouncer_ports.simps [simp del]

section \<open>webget\<close>

definition http_request :: "string \<Rightarrow> string \<Rightarrow> string list" where
  "http_request host path =
     [''GET '' @ path @ '' HTTP/1.1'' @ [CHR 0x0D, CHR 0x0A],
      ''Host: '' @ host @ [CHR 0x0D, CHR 0x0A],
      ''Connection: close'' @ [CHR 0x0D, CHR 0x0A],
      [CHR 0x0D, CHR 0x0A]]"

text \<open>The loop that prints what the server sends, in reads of at most 20 bytes.\<close>

partial_function (option) print_all ::
  "('x \<Rightarrow> bytes option \<times> 'x) \<Rightarrow> FDWrapper \<Rightarrow> bytes \<Rightarrow> 'x \<Rightarrow> (bytes \<times> FDWrapper \<times> 'x) res option" where
  "print_all read fd out x =
     (if fd_eof fd then Some (Inr (out, fd, x))
      else
        case read x of
          (answer, x') \<Rightarrow>
            (case FileDescriptor_read 20 answer fd of
               Inl e \<Rightarrow> Some (Inl e)
             | Inr (data, fd') \<Rightarrow> print_all read fd' (out @ data) x'))"

section \<open>What the packet parser reads\<close>

lemma skip_extensions_safe:
  assumes "data_offset + 2 \<le> length data"
  shows "\<exists>r. skip_extensions data nxt data_offset = Inr r"
  using assms
proof (induction "length data - data_offset" arbitrary: nxt data_offset rule: less_induct)
  case less
  then have "byte_at data data_offset = Inr (data ! data_offset)"
    "byte_at data (data_offset + 1) = Inr (data ! (data_offset + 1))"
    by (simp_all add: byte_at_def)
  then show ?case
    using less by (subst skip_extensions.simps) (auto simp: Let_def)
qed

text \<open>
  The parser reads outside the packet exactly for IPv4 packets that are shorter than the fixed header
  although their header length field fits.
\<close>

lemma process_ipv4_ipv6_undefined:
  "process_ipv4_ipv6 data = Inl UndefinedBehaviour \<longleftrightarrow>
     data \<noteq> [] \<and> data ! 0 AND 0xf0 = 0x40 \<and> unat (data ! 0 AND 0x0f) * 4 \<le> length data \<and>
     (length data \<le> 9 \<or> length data < 20 \<and> data ! 9 = 0x11)"
proof (cases "data = [] \<or> data ! 0 AND 0xf0 \<noteq> 0x60 \<or> length data < 42")
  case True
  then show ?thesis
    by (auto simp: process_ipv4_ipv6_def byte_at_def inet_addr_at_def Let_def)
next
  case False
  then obtain r where "skip_extensions data (data ! 6) 40 = Inr r"
    using skip_extensions_safe [of 40 data "data ! 6"] by auto
  then have "\<exists>r. process_ipv4_ipv6 data = Inr r"
    using False by (auto simp: process_ipv4_ipv6_def byte_at_def inet_addr_at_def Let_def split: option.splits)
  then show ?thesis
    using False by auto
qed

text \<open>Four bytes are enough, and a packet that ends after the IPv4 header leaves no room for the UDP header.\<close>

lemma process_ipv4_ipv6_short: "process_ipv4_ipv6 [0x41, 0, 0, 0] = Inl UndefinedBehaviour"
  by (simp add: process_ipv4_ipv6_undefined)

lemma dump_packet_no_udp_header:
  "dump_packet DLT_RAW [0x45, 0, 0, 20, 0, 0, 0, 0, 64, 0x11, 0, 0, 10, 0, 0, 1, 10, 0, 0, 2] = Inl UndefinedBehaviour"
  by (simp add: dump_packet_def link_offset_def process_ipv4_ipv6_def byte_at_def inet_addr_at_def sub64_def size_max_def)

definition link_header :: "datalink \<Rightarrow> bytes \<Rightarrow> bool" where
  "link_header dl_type l \<longleftrightarrow>
     (case dl_type of
        DLT_RAW \<Rightarrow> l = []
      | DLT_NULL \<Rightarrow> length l = 4 \<and> l ! 3 \<in> {2, 24, 28, 30}
      | DLT_EN10MB \<Rightarrow> length l = 14 \<and> l ! 12 = 0x08 \<and> l ! 13 = 0x00
      | DLT_LINUX_SLL \<Rightarrow> length l = 16 \<and> l ! 14 = 0x08 \<and> l ! 15 = 0x00
      | DLT_LINUX_SLL2 \<Rightarrow> length l = 20 \<and> l ! 0 = 0x08 \<and> l ! 1 = 0x00
      | DLT_OTHER \<Rightarrow> False)"

lemma link_offset_header:
  assumes "link_header dl_type l"
  shows "link_offset dl_type (l @ pkt) = Inr (Inr (length l))"
  using assms
  by (cases dl_type) (auto simp: link_header_def link_offset_def link_ethertype_def ether_type_def byte_at_def nth_append)

definition udp_in_ipv4 :: "bytes \<Rightarrow> bool" where
  "udp_in_ipv4 hdr \<longleftrightarrow>
     20 \<le> length hdr \<and> hdr ! 0 AND 0xf0 = 0x40 \<and> length hdr = unat (hdr ! 0 AND 0x0f) * 4 \<and> hdr ! 9 = 0x11"

lemma process_ipv4_header:
  assumes "udp_in_ipv4 hdr"
  shows "process_ipv4_ipv6 (hdr @ rest) = Inr (Some (length hdr + 8, take 4 (drop 12 hdr), take 4 (drop 16 hdr)))"
  using assms by (auto simp: udp_in_ipv4_def process_ipv4_ipv6_def byte_at_def inet_addr_at_def Let_def nth_append)

text \<open>
  C39. What the packet dump makes of the packets of a TCP connection over UDP. A segment, serialized for
  UDP and captured behind any supported link header, an IPv4 header for UDP and a UDP header, is reported
  with the addresses of the IPv4 header, its own header and payload, a correct checksum and its length.
\<close>

theorem dump_packet_segment:
  assumes "link_header dl_type l" and "udp_in_ipv4 hdr" and "length udp = 8"
    and "5 \<le> unat (th_doff (ts_header seg))" and "unat (th_doff (ts_header seg)) < 16"
    and "65280 * (60 + length (Buffer_str (ts_payload seg))) + 65535 < 2 ^ 32"
    and "length l + length hdr + 8 + 60 + length (Buffer_str (ts_payload seg)) < 2 ^ 64"
  shows "\<exists>bl payload'. TCPSegment_serialize 0 seg = Inr bl \<and>
    dump_packet dl_type (l @ hdr @ udp @ BufferList_concatenate bl) =
      Inr (Segment_Line (take 4 (drop 12 hdr)) (take 4 (drop 16 hdr))
        (TCPSegment_default\<lparr>ts_header := (ts_header seg)\<lparr>th_cksum := tcp_checksum 0 seg\<rparr>, ts_payload := payload'\<rparr>)
        True (length (BufferList_concatenate bl))) \<and>
    Buffer_str payload' = Buffer_str (ts_payload seg)"
proof -
  let ?bl = "[Buffer_of_string (tcp_header_bytes (ts_header seg) (tcp_checksum 0 seg)), ts_payload seg]"
  define payload where "payload = tcp_header_bytes (ts_header seg) (tcp_checksum 0 seg) @ Buffer_str (ts_payload seg)"
  define pkt where "pkt = l @ hdr @ udp @ payload"
  have "\<not> th_doff (ts_header seg) < 5"
    using assms(4) by (simp add: word_less_nat_alt)
  then have bl: "TCPSegment_serialize 0 seg = Inr ?bl" "BufferList_concatenate ?bl = payload"
    by (simp_all add: TCPSegment_serialize_eq payload_def)
  obtain payload' where payload': "TCPSegment_parse (Buffer_of_string payload) 0 TCPSegment_default =
      Inr (NoError, TCPSegment_default\<lparr>ts_header := (ts_header seg)\<lparr>th_cksum := tcp_checksum 0 seg\<rparr>, ts_payload := payload'\<rparr>)"
    "Buffer_str payload' = Buffer_str (ts_payload seg)"
    using TCPSegment_parse_buffer [OF assms(4,5), of 0 "Buffer_of_string payload" TCPSegment_default] assms(6)
    by (auto simp: payload_def)
  have "length payload \<le> 60 + length (Buffer_str (ts_payload seg))"
    using assms(4,5) by (simp add: payload_def tcp_header_bytes_length)
  then have "length pkt < size_max" and off: "length l + (length hdr + 8) + length payload = length pkt"
    using assms(3,7) by (simp_all add: pkt_def size_max_def)
  then have len: "sub64 (length pkt) (length l + (length hdr + 8)) = length payload"
    by (subst sub64_eq) auto
  have "drop (length l + (length hdr + 8)) pkt = payload" "drop (length l) pkt = hdr @ udp @ payload"
    using assms(3) by (simp_all add: pkt_def)
  then have "dump_packet dl_type pkt =
      Inr (Segment_Line (take 4 (drop 12 hdr)) (take 4 (drop 16 hdr))
        (TCPSegment_default\<lparr>ts_header := (ts_header seg)\<lparr>th_cksum := tcp_checksum 0 seg\<rparr>, ts_payload := payload'\<rparr>)
        True (length payload))"
    using link_offset_header [OF assms(1), of "hdr @ udp @ payload"] process_ipv4_header [OF assms(2), of "udp @ payload"]
      payload'(1) off
    by (simp add: dump_packet_def Let_def len flip: pkt_def)
  then show ?thesis
    using bl payload'(2) by (intro exI [of _ ?bl] exI [of _ payload']) (simp add: pkt_def)
qed

theorem dump_packet_segment_witness:
  "\<exists>bl payload'. TCPSegment_serialize 0 TCPSegment_default = Inr bl \<and>
    dump_packet DLT_EN10MB ((replicate 12 1 @ [0x08, 0x00]) @
        [0x45, 0, 0, 48, 0, 0, 0, 0, 64, 0x11, 0, 0, 10, 0, 0, 1, 10, 0, 0, 2] @ replicate 8 0 @ BufferList_concatenate bl) =
      Inr (Segment_Line [10, 0, 0, 1] [10, 0, 0, 2]
        (TCPSegment_default\<lparr>ts_header := TCPHeader_default\<lparr>th_cksum := tcp_checksum 0 TCPSegment_default\<rparr>,
           ts_payload := payload'\<rparr>)
        True (length (BufferList_concatenate bl))) \<and>
    Buffer_str payload' = []"
proof -
  let ?l = "replicate 12 1 @ [0x08, 0x00] :: bytes"
  let ?hdr = "[0x45, 0, 0, 48, 0, 0, 0, 0, 64, 0x11, 0, 0, 10, 0, 0, 1, 10, 0, 0, 2] :: bytes"
  have "link_header DLT_EN10MB ?l"
    by (simp add: link_header_def nth_append)
  moreover have "udp_in_ipv4 ?hdr"
    by (simp add: udp_in_ipv4_def)
  ultimately show ?thesis
    using dump_packet_segment [of DLT_EN10MB ?l ?hdr "replicate 8 0" TCPSegment_default]
    by (simp add: TCPSegment_default_def TCPHeader_default_def Buffer_default_def Buffer_str_def)
qed

section \<open>The other tools\<close>

text \<open>Every segment that the TUN adapter takes from a packet is reported by \<^verbatim>\<open>tun\<close>.\<close>

lemma tun_packet_reports:
  assumes "TCPOverIPv4OverTunFdAdapter_read pkt a = Inr (Some seg, a')"
  shows "\<exists>h. tun_packet pkt = Inr (TCP_Report h (Buffer_size (ts_payload seg)) (ts_header seg))"
  using assms
  by (auto simp: TCPOverIPv4OverTunFdAdapter_read_def unwrap_tcp_in_ip_def tun_packet_def bind_res_eq_Inr Let_def
      split: if_splits prod.splits)

lemma bouncer_ports_eq:
  assumes "even (unat p)" and "unat p \<le> 64002"
  shows "bouncer_ports p = map of_nat [unat p..<64002]"
  using assms
proof (induction "64002 - unat p" arbitrary: p rule: less_induct)
  case less
  show ?case
  proof (cases "p \<le> 64000")
    case True
    then have p: "unat (p + 2) = unat p + 2" "unat p \<le> 64000"
      by (auto simp: word_le_nat_alt unat_word_ariths)
    then have "bouncer_ports (p + 2) = map of_nat [unat p + 2..<64002]"
      using less.hyps [of "p + 2"] less.prems by simp
    then show ?thesis
      using True p(2) by (subst bouncer_ports.simps) (simp add: upt_conv_Cons)
  next
    case False
    then have "unat p = 64002"
      using less.prems by (auto simp: word_le_nat_alt elim: evenE)
    then show ?thesis
      using False by (simp add: bouncer_ports.simps)
  qed
qed

text \<open>
  The vectors of the bouncer reserve room for 66000 elements. That is enough for all sockets, so no
  element moves while the callbacks hold references to it; and no port is bound twice.
\<close>

lemma distinct_ports:
  assumes "b \<le> 2 ^ 16"
  shows "distinct (map (of_nat :: nat \<Rightarrow> 16 word) [a..<b])"
proof -
  have "inj_on (of_nat :: nat \<Rightarrow> 16 word) {a..<b}"
    using assms by (intro inj_onI) (auto simp: word_unat_eq_iff unat_of_nat)
  then show ?thesis
    by (simp add: distinct_map)
qed

lemma bouncer_sockets: "length (bouncer_ports 1024) \<le> 66000 \<and> distinct (bouncer_ports 1024)"
proof -
  have ports: "bouncer_ports 1024 = map of_nat [unat (1024 :: 16 word)..<64002]"
    by (rule bouncer_ports_eq) simp_all
  have "length (bouncer_ports 1024) = 64002 - unat (1024 :: 16 word)"
    unfolding ports by (simp only: length_map length_upt)
  moreover have "distinct (bouncer_ports 1024)"
    unfolding ports by (rule distinct_ports) simp
  ultimately show ?thesis
    by linarith
qed

text \<open>What the server sends up to its end is printed, in order.\<close>

fun read_chunk :: "bytes list \<Rightarrow> bytes option \<times> bytes list" where
  "read_chunk [] = (Some [], [])"
| "read_chunk (c # cs) = (Some c, cs)"

lemma print_all_chunks:
  assumes "\<forall>c \<in> set chunks. c \<noteq> [] \<and> length c \<le> 20" and "\<not> fd_eof fd"
  shows "\<exists>fd'. print_all read_chunk fd out chunks = Some (Inr (out @ concat chunks, fd', [])) \<and> fd_eof fd'"
  using assms
proof (induction chunks arbitrary: fd out)
  case Nil
  have "FileDescriptor_read 20 (Some []) fd = Inr ([], register_read (fd\<lparr>fd_eof := True\<rparr>))"
    by (simp add: FileDescriptor_read_def Let_def)
  then show ?case
    using Nil by (subst print_all.simps) (simp add: print_all.simps register_read_def)
next
  case (Cons c cs)
  have "FileDescriptor_read 20 (Some c) fd = Inr (c, register_read fd)"
    using Cons.prems(1) by (simp add: FileDescriptor_read_def Let_def FileDescriptor_BUFFER_SIZE_def)
  moreover have "\<not> fd_eof (register_read fd)"
    using Cons.prems(2) by (simp add: register_read_def)
  ultimately show ?case
    using Cons.IH [of "register_read fd" "out @ c"] Cons.prems by (subst print_all.simps) simp
qed

end
