(* ===== verification/Router.thy ===== *)
theory Router
  imports Network_Interface
begin

text \<open>
  \<^verbatim>\<open>libsponge/router.hh\<close> and \<^verbatim>\<open>router.cc\<close>: interfaces that keep what they received for later, the table of
  routes and the forwarding of datagrams.

  The table is a list in the order of the map; an iterator is the key it points to, or \<open>None\<close> for the
  past-the-end iterator. The map of the source holds in each entry an iterator to the nearest prefix
  that includes it. Loops that may run forever are partial functions, for which \<open>None\<close> means that they
  do not return; \<open>flog\<close> is the natural logarithm rounded down, as the source computes it in floating
  point.
\<close>

section \<open>AsyncNetworkInterface\<close>

record AsyncNetworkInterface =
  ani_interface :: NetworkInterface
  ani_datagrams_out :: "IPv4Datagram list"

definition AsyncNetworkInterface_of :: "NetworkInterface \<Rightarrow> AsyncNetworkInterface" where
  "AsyncNetworkInterface_of interface = \<lparr>ani_interface = interface, ani_datagrams_out = []\<rparr>"

definition AsyncNetworkInterface_recv_frame ::
  "EthernetFrame \<Rightarrow> AsyncNetworkInterface \<Rightarrow> AsyncNetworkInterface res" where
  "AsyncNetworkInterface_recv_frame frame a =
     bind_res (recv_frame frame (ani_interface a)) (\<lambda>(optional_dgram, s).
       let a1 = a\<lparr>ani_interface := s\<rparr>
       in case optional_dgram of
            Some d \<Rightarrow> Inr (a1\<lparr>ani_datagrams_out := ani_datagrams_out a1 @ [d]\<rparr>)
          | None \<Rightarrow> Inr a1)"

section \<open>The table of routes\<close>

type_synonym rt_k = "32 word \<times> 32 word"

record rt_v =
  rv_nearest_prefix :: "rt_k option"
  rv_interface :: size_t
  rv_next_hop :: "32 word"
  rv_prefix_length :: "8 word"

type_synonym rt_table = "(rt_k \<times> rt_v) list"

record Router =
  ro_interfaces :: "AsyncNetworkInterface list"
  ro_table :: rt_table

definition Router_init :: Router where
  "Router_init = \<lparr>ro_interfaces = [], ro_table = []\<rparr>"

definition cmp_map :: "rt_k \<Rightarrow> rt_k \<Rightarrow> bool" where
  "cmp_map ts tb = (if fst ts = fst tb then snd ts > snd tb else fst ts < fst tb)"

text \<open>The operations of the ordered map.\<close>

definition rt_begin :: "rt_table \<Rightarrow> rt_k option" where
  "rt_begin t = (case t of [] \<Rightarrow> None | x # _ \<Rightarrow> Some (fst x))"

definition rt_lower_bound :: "rt_k \<Rightarrow> rt_table \<Rightarrow> rt_k option" where
  "rt_lower_bound k t = rt_begin (dropWhile (\<lambda>x. cmp_map (fst x) k) t)"

definition rt_next :: "rt_k \<Rightarrow> rt_table \<Rightarrow> rt_k option" where
  "rt_next k t = rt_begin (tl (dropWhile (\<lambda>x. fst x \<noteq> k) t))"

definition rt_prev :: "rt_k option \<Rightarrow> rt_table \<Rightarrow> rt_k option" where
  "rt_prev it t = rt_begin (rev (takeWhile (\<lambda>x. it \<noteq> Some (fst x)) t))"

definition rt_insert :: "rt_k \<times> rt_v \<Rightarrow> rt_table \<Rightarrow> rt_table" where
  "rt_insert x t =
     (if fst x \<in> fst ` set t then t
      else takeWhile (\<lambda>y. cmp_map (fst y) (fst x)) t @ x # dropWhile (\<lambda>y. cmp_map (fst y) (fst x)) t)"

definition rt_set_nearest :: "rt_k \<Rightarrow> rt_k \<Rightarrow> rt_table \<Rightarrow> rt_table" where
  "rt_set_nearest k n t =
     map (\<lambda>(k', v). if k' = k then (k', v\<lparr>rv_nearest_prefix := Some n\<rparr>) else (k', v)) t"

text \<open>The search backwards for the first entry that ends later.\<close>

fun rt_enclosing :: "32 word \<Rightarrow> rt_table \<Rightarrow> rt_k option" where
  "rt_enclosing end_index [] = None"
| "rt_enclosing end_index (x # rev_before) =
     (if snd (fst x) > end_index then Some (fst x) else rt_enclosing end_index rev_before)"

text \<open>The loop over the entries behind the new one, with its two ways to skip nested prefixes.\<close>

definition rt_skip_short :: "rt_k \<Rightarrow> rt_table \<Rightarrow> rt_k option" where
  "rt_skip_short k t =
     rt_begin (dropWhile (\<lambda>x. fst (fst x) < snd k) (tl (dropWhile (\<lambda>x. fst x \<noteq> k) t)))"

partial_function (option) rt_forward :: "32 word \<Rightarrow> rt_k \<Rightarrow> rt_k option \<Rightarrow> rt_table \<Rightarrow> rt_table option" where
  "rt_forward log_length inserted it t =
     (case it of
        None \<Rightarrow> Some t
      | Some k \<Rightarrow>
          if snd inserted \<ge> snd k then Some t
          else
            let t1 = rt_set_nearest k inserted t
            in if snd k - fst k + 1 < log_length
               then rt_forward log_length inserted (rt_skip_short k t1) t1
               else rt_forward log_length inserted (rt_lower_bound (snd k, - 1) t1) t1)"

definition route_end :: "32 word \<Rightarrow> 8 word \<Rightarrow> 32 word" where
  "route_end route_prefix prefix_length =
     (let shift = (if prefix_length = 0 then 0 else 32 - prefix_length);
          start_index = route_prefix AND push_bit (unat shift) (- 1)
      in start_index + (2 ^ (32 - unat prefix_length) - 1))"

definition add_route ::
  "(32 word \<Rightarrow> 32 word) \<Rightarrow> 32 word \<Rightarrow> 8 word \<Rightarrow> 32 word option \<Rightarrow> size_t \<Rightarrow> Router \<Rightarrow> Router res option" where
  "add_route flog route_prefix prefix_length next_hop interface_num r =
     (if prefix_length > 32 then Some (Inl UndefinedBehaviour)
      else
        let end_index = route_end route_prefix prefix_length;
            next_hop_fmd = (case next_hop of Some a \<Rightarrow> a | None \<Rightarrow> 0);
            k = (route_prefix, end_index);
            t1 = rt_insert (k, \<lparr>rv_nearest_prefix = rt_begin (ro_table r), rv_interface = interface_num,
                               rv_next_hop = next_hop_fmd, rv_prefix_length = prefix_length\<rparr>) (ro_table r);
            t2 = (case rt_enclosing end_index (rev (takeWhile (\<lambda>x. fst x \<noteq> k) t1)) of
                    Some n \<Rightarrow> rt_set_nearest k n t1
                  | None \<Rightarrow> t1);
            log_length = flog (end_index - route_prefix + 1)
        in case rt_forward log_length k (rt_next k t2) t2 of
             Some t3 \<Rightarrow> Some (Inr (r\<lparr>ro_table := t3\<rparr>))
           | None \<Rightarrow> None)"

section \<open>Forwarding\<close>

record rt_best =
  rb_interface :: size_t
  rb_prefix_length :: "32 word"
  rb_next_hop :: "32 word"
  rb_saved :: bool

definition rt_consider :: "32 word \<Rightarrow> rt_k \<Rightarrow> rt_v \<Rightarrow> rt_best \<Rightarrow> rt_best" where
  "rt_consider dst k v best =
     (if snd k \<ge> dst \<and> ucast (rv_prefix_length v) \<ge> rb_prefix_length best
      then \<lparr>rb_interface = rv_interface v, rb_prefix_length = ucast (rv_prefix_length v),
            rb_next_hop = rv_next_hop v, rb_saved = True\<rparr>
      else best)"

text \<open>
  Dereferencing the past-the-end iterator is undefined behaviour. The first argument of a step is the
  iterator the loop moves to.
\<close>

partial_function (option) rt_search ::
  "rt_table \<Rightarrow> 32 word \<Rightarrow> rt_k option \<Rightarrow> bool \<Rightarrow> rt_best \<Rightarrow> rt_best res option" where
  "rt_search t dst it fast_search best =
     (if it = rt_begin t then Some (Inr best)
      else
        case (if \<not> fast_search then rt_prev it t
              else Option.bind (Option.bind it (map_of t)) rv_nearest_prefix) of
          None \<Rightarrow> Some (Inl UndefinedBehaviour)
        | Some k \<Rightarrow>
            (case map_of t k of
               None \<Rightarrow> Some (Inl UndefinedBehaviour)
             | Some v \<Rightarrow>
                 rt_search t dst (Some k) (if \<not> fast_search then snd k \<le> dst else True)
                   (rt_consider dst k v best)))"

declare rt_forward.simps [code]
declare rt_search.simps [code]

definition rt_route :: "rt_table \<Rightarrow> 32 word \<Rightarrow> rt_best res option" where
  "rt_route t dst =
     rt_search t dst (rt_lower_bound (dst, 0) t) False
       \<lparr>rb_interface = 0, rb_prefix_length = 0, rb_next_hop = 0, rb_saved = False\<rparr>"

definition Router_interface :: "size_t \<Rightarrow> Router \<Rightarrow> AsyncNetworkInterface res" where
  "Router_interface n r = (if n < length (ro_interfaces r) then Inr (ro_interfaces r ! n) else Inl OutOfRange)"

definition Router_add_interface :: "AsyncNetworkInterface \<Rightarrow> Router \<Rightarrow> size_t \<times> Router" where
  "Router_add_interface interface r =
     (length (ro_interfaces r @ [interface]) - 1, r\<lparr>ro_interfaces := ro_interfaces r @ [interface]\<rparr>)"

definition route_one_datagram :: "IPv4Datagram \<Rightarrow> Router \<Rightarrow> Router res option" where
  "route_one_datagram dgram r =
     (let h = ipd_header dgram;
          h = (if ih_ttl h \<noteq> 0 then h\<lparr>ih_ttl := ih_ttl h - 1\<rparr> else h);
          dgram = dgram\<lparr>ipd_header := h\<rparr>
      in if ih_ttl h = 0 then Some (Inr r)
         else
           case rt_route (ro_table r) (ih_dst h) of
             None \<Rightarrow> None
           | Some m \<Rightarrow>
               Some (bind_res m (\<lambda>best.
                 if rb_saved best then
                   bind_res (Router_interface (rb_interface best) r) (\<lambda>a.
                   bind_res (send_datagram dgram (if rb_next_hop best = 0 then ih_dst h else rb_next_hop best)
                               (ani_interface a)) (\<lambda>s.
                     Inr (r\<lparr>ro_interfaces := (ro_interfaces r)[rb_interface best := a\<lparr>ani_interface := s\<rparr>]\<rparr>)))
                 else Inr r)))"

text \<open>The queue of one interface, then all of them.\<close>

definition ro_pop :: "nat \<Rightarrow> Router \<Rightarrow> Router" where
  "ro_pop i r =
     r\<lparr>ro_interfaces := (ro_interfaces r)[i := (ro_interfaces r ! i)\<lparr>ani_datagrams_out :=
        tl (ani_datagrams_out (ro_interfaces r ! i))\<rparr>]\<rparr>"

fun route_queue :: "nat \<Rightarrow> IPv4Datagram list \<Rightarrow> Router \<Rightarrow> Router res option" where
  "route_queue i [] r = Some (Inr r)"
| "route_queue i (d # queue) r =
     (case route_one_datagram d r of
        None \<Rightarrow> None
      | Some (Inl e) \<Rightarrow> Some (Inl e)
      | Some (Inr r') \<Rightarrow> route_queue i queue (ro_pop i r'))"

fun route_all :: "nat list \<Rightarrow> Router \<Rightarrow> Router res option" where
  "route_all [] r = Some (Inr r)"
| "route_all (i # is') r =
     (case route_queue i (ani_datagrams_out (ro_interfaces r ! i)) r of
        None \<Rightarrow> None
      | Some (Inl e) \<Rightarrow> Some (Inl e)
      | Some (Inr r') \<Rightarrow> route_all is' r')"

definition Router_route :: "Router \<Rightarrow> Router res option" where
  "Router_route r = route_all [0..<length (ro_interfaces r)] r"

end
