(* ===== verification/Router_Table.thy ===== *)
theory Router_Table
  imports Router
begin

text \<open>
  What the router's table computes: prefixes as blocks of addresses, the invariant that adding routes
  keeps, and the search of \<^verbatim>\<open>Router::route_one_datagram\<close> as longest-prefix matching.
\<close>

section \<open>Prefixes as blocks of addresses\<close>

abbreviation block :: "8 word \<Rightarrow> nat" where
  "block len \<equiv> 2 ^ (32 - unat len)"

definition prefix_ok :: "32 word \<Rightarrow> 8 word \<Rightarrow> bool" where
  "prefix_ok p len \<longleftrightarrow> unat len \<le> 32 \<and> block len dvd unat p"

lemma dvd_gap: "(d :: nat) dvd x \<Longrightarrow> d dvd y \<Longrightarrow> x < y \<Longrightarrow> x + d \<le> y"
  by (metis add.commute dvd_imp_le le_diff_conv2 less_imp_le_nat dvd_diff_nat zero_less_diff)

lemma block_fits:
  assumes "prefix_ok p len"
  shows "unat p + block len \<le> 2 ^ 32"
proof -
  have "block len dvd (2 :: nat) ^ 32"
    by (rule le_imp_power_dvd) simp
  then show ?thesis
    using assms unat_lt [of p] by (intro dvd_gap) (simp_all add: prefix_ok_def)
qed

lemma and_high_bits:
  assumes "(2 :: nat) ^ n dvd unat (p :: 'w::len word)"
  shows "p AND push_bit n (- 1) = p"
proof -
  have "take_bit n (unat p) = 0"
    using assms by (simp add: take_bit_eq_mod dvd_eq_mod_eq_0)
  then have "unat (take_bit n p) = 0"
    by (simp only: unsigned_take_bit_eq)
  then have "take_bit n p = 0"
    by (simp only: unsigned_eq_0_iff)
  then have "n \<le> i" if "bit p i" for i
    using that by (metis bit_take_bit_iff bit_0_eq bot_apply bot_bool_def not_le)
  then show ?thesis
    by (auto simp: bit_eq_iff bit_simps) (meson leD)
qed

lemma route_end_unat:
  assumes "prefix_ok p len"
  shows "unat (route_end p len) = unat p + block len - 1"
proof -
  let ?s = "if len = 0 then 0 else 32 - len"
  have len: "unat len \<le> 32" and aligned: "block len dvd unat p"
    using assms by (simp_all add: prefix_ok_def)
  have "2 ^ unat ?s dvd unat p"
  proof (cases "len = 0")
    case False
    have "len \<le> 32"
      using len by (simp add: word_le_nat_alt)
    then have "unat (32 - len) = 32 - unat len"
      by (simp add: unat_sub)
    then show ?thesis
      using aligned False by simp
  qed simp
  then have "p AND push_bit (unat ?s) (- 1) = p"
    by (rule and_high_bits)
  then have e: "route_end p len = p + of_nat (block len - 1)"
    by (simp add: route_end_def Let_def of_nat_diff)
  define m where "m = block len - 1"
  have "unat p + m < 2 ^ 32" "block len = m + 1"
    using block_fits [OF assms] by (auto simp: m_def)
  then show ?thesis
    unfolding e m_def [symmetric] by (simp add: unat_word_ariths unat_of_nat)
qed

lemma prefix_covers_iff:
  assumes "prefix_ok p len"
  shows "p \<le> d \<and> d \<le> route_end p len \<longleftrightarrow> drop_bit (32 - unat len) d = drop_bit (32 - unat len) p"
proof -
  define n where "n = block len"
  have "n dvd unat p" and n: "0 < n"
    using assms by (simp_all add: prefix_ok_def n_def)
  then obtain m where m: "unat p = n * m"
    by (elim dvdE)
  have "p \<le> d \<and> d \<le> route_end p len \<longleftrightarrow> n * m \<le> unat d \<and> unat d < n * m + n"
    using n by (auto simp: word_le_nat_alt route_end_unat [OF assms] m simp flip: n_def)
  also have "\<dots> \<longleftrightarrow> unat d div n = m"
    using n by (auto intro!: div_nat_eqI simp: algebra_simps) (simp_all add: dividend_less_times_div)
  also have "\<dots> \<longleftrightarrow> drop_bit (32 - unat len) (unat d) = drop_bit (32 - unat len) (unat p)"
    using n by (simp add: m drop_bit_eq_div flip: n_def)
  also have "\<dots> \<longleftrightarrow> unat (drop_bit (32 - unat len) d) = unat (drop_bit (32 - unat len) p)"
    by (simp only: unat_drop_bit_eq)
  also have "\<dots> \<longleftrightarrow> drop_bit (32 - unat len) d = drop_bit (32 - unat len) p"
    by (simp only: word_unat_eq_iff)
  finally show ?thesis .
qed

section \<open>Entries and what they cover\<close>

definition rt_entry_ok :: "rt_k \<times> rt_v \<Rightarrow> bool" where
  "rt_entry_ok x \<longleftrightarrow>
     prefix_ok (fst (fst x)) (rv_prefix_length (snd x)) \<and>
     snd (fst x) = route_end (fst (fst x)) (rv_prefix_length (snd x))"

definition rt_covers :: "32 word \<Rightarrow> rt_k \<times> rt_v \<Rightarrow> bool" where
  "rt_covers dst x \<longleftrightarrow> fst (fst x) \<le> dst \<and> dst \<le> snd (fst x)"

lemma cmp_map_trans: "cmp_map a b \<Longrightarrow> cmp_map b c \<Longrightarrow> cmp_map a c"
  by (auto simp: cmp_map_def split: if_splits)

lemma cmp_map_irrefl [simp]: "\<not> cmp_map a a"
  by (simp add: cmp_map_def)

lemma cmp_map_total: "a \<noteq> b \<Longrightarrow> cmp_map a b \<or> cmp_map b a"
  by (cases a; cases b) (auto simp: cmp_map_def)

lemma cmp_map_fst: "cmp_map a b \<Longrightarrow> fst a \<le> fst b"
  by (auto simp: cmp_map_def split: if_splits)

lemma rt_entry_end:
  assumes "rt_entry_ok x"
  shows "unat (snd (fst x)) + 1 = unat (fst (fst x)) + block (rv_prefix_length (snd x))"
proof -
  have "unat (snd (fst x)) = unat (fst (fst x)) + block (rv_prefix_length (snd x)) - 1"
    using assms route_end_unat by (simp add: rt_entry_ok_def)
  moreover have "0 < block (rv_prefix_length (snd x))"
    by simp
  ultimately show ?thesis
    by linarith
qed

lemma rt_entry_le:
  assumes "rt_entry_ok x"
  shows "fst (fst x) \<le> snd (fst x)"
proof -
  have "0 < block (rv_prefix_length (snd x))"
    by simp
  then show ?thesis
    using rt_entry_end [OF assms] unfolding word_le_nat_alt by linarith
qed

lemma rt_entry_less:
  assumes "rt_entry_ok x" and "unat (rv_prefix_length (snd x)) < 32"
  shows "fst (fst x) < snd (fst x)"
proof -
  have "1 < block (rv_prefix_length (snd x))"
    using assms(2) by (intro one_less_power) simp_all
  then show ?thesis
    using rt_entry_end [OF assms(1)] unfolding word_less_nat_alt by linarith
qed

text \<open>Of two entries that cover an address, the later one is the longer prefix.\<close>

lemma covers_longer:
  assumes x: "rt_entry_ok x" "rt_covers dst x" and y: "rt_entry_ok y" "rt_covers dst y"
    and less: "cmp_map (fst x) (fst y)"
  shows "rv_prefix_length (snd x) < rv_prefix_length (snd y)"
proof (rule ccontr)
  let ?x = "rv_prefix_length (snd x)" and ?y = "rv_prefix_length (snd y)"
  define a where "a = unat (fst (fst x))"
  define b where "b = unat (fst (fst y))"
  have px: "prefix_ok (fst (fst x)) ?x" "snd (fst x) = route_end (fst (fst x)) ?x"
    and py: "prefix_ok (fst (fst y)) ?y" "snd (fst y) = route_end (fst (fst y)) ?y"
    using x(1) y(1) by (simp_all add: rt_entry_ok_def)
  assume "\<not> ?x < ?y"
  then have le: "unat ?y \<le> unat ?x"
    by (simp add: word_less_nat_alt)
  then have dvd: "block ?x dvd block ?y"
    by (simp add: le_imp_power_dvd)
  have ends: "unat (snd (fst x)) + 1 = a + block ?x" "unat (snd (fst y)) + 1 = b + block ?y"
    using rt_entry_end x(1) y(1) by (simp_all add: a_def b_def)
  have dst: "b \<le> unat dst" "unat dst \<le> unat (snd (fst x))"
    using x(2) y(2) by (simp_all add: rt_covers_def word_le_nat_alt b_def)
  have "block ?x dvd a" "block ?x dvd b"
    using px(1) py(1) dvd by (auto simp: prefix_ok_def a_def b_def intro: dvd_trans)
  then have "\<not> a < b"
    using dvd_gap [of "block ?x" a b] ends(1) dst by linarith
  then have "a = b" "unat (snd (fst y)) < unat (snd (fst x))"
    using less by (auto simp: cmp_map_def a_def b_def word_less_nat_alt split: if_splits)
  moreover have "block ?x \<le> block ?y"
    using le by (simp add: power_increasing)
  ultimately show False
    using ends by linarith
qed

text \<open>An entry that starts inside another one ends inside it.\<close>

lemma entry_nested:
  assumes x: "rt_entry_ok x" and y: "rt_entry_ok y" and less: "cmp_map (fst x) (fst y)"
    and inside: "fst (fst y) \<le> snd (fst x)"
  shows "snd (fst y) \<le> snd (fst x)"
proof -
  let ?x = "block (rv_prefix_length (snd x))" and ?y = "block (rv_prefix_length (snd y))"
  have "rt_covers (fst (fst y)) x" "rt_covers (fst (fst y)) y"
    using inside cmp_map_fst [OF less] rt_entry_le [OF y] by (simp_all add: rt_covers_def)
  then have "rv_prefix_length (snd x) < rv_prefix_length (snd y)"
    using covers_longer [OF x _ y _ less] by blast
  then have "?y dvd ?x"
    by (intro le_imp_power_dvd) (simp add: word_less_nat_alt)
  moreover have "?x dvd unat (fst (fst x))" "?y dvd unat (fst (fst y))"
    using x y by (simp_all add: rt_entry_ok_def prefix_ok_def)
  ultimately have "unat (fst (fst y)) + ?y \<le> unat (fst (fst x)) + ?x"
    using rt_entry_end [OF x] inside
    by (intro dvd_gap dvd_add) (auto intro: dvd_trans simp: word_le_nat_alt)
  then show ?thesis
    using rt_entry_end [OF x] rt_entry_end [OF y] by (simp add: word_le_nat_alt)
qed

section \<open>The invariant of the table\<close>

text \<open>
  Entries are in order and are proper prefixes. Every entry but the first has a link to an earlier
  entry, and what lies between the two does not end later than the entry itself.
\<close>

definition rt_link_ok :: "rt_k set \<Rightarrow> rt_k \<Rightarrow> rt_k option \<Rightarrow> bool" where
  "rt_link_ok K k link \<longleftrightarrow>
     (\<exists>j \<in> K. cmp_map j k) \<longrightarrow>
     (\<exists>n \<in> K. link = Some n \<and> cmp_map n k \<and> (\<forall>j \<in> K. cmp_map n j \<and> cmp_map j k \<longrightarrow> snd j \<le> snd k))"

definition rt_inv :: "rt_table \<Rightarrow> bool" where
  "rt_inv t \<longleftrightarrow>
     sorted_wrt (\<lambda>x y. cmp_map (fst x) (fst y)) t \<and>
     (\<forall>x \<in> set t. rt_entry_ok x \<and> unat (rv_prefix_length (snd x)) < 32 \<and>
        rt_link_ok (fst ` set t) (fst x) (rv_nearest_prefix (snd x)))"

lemma rt_invD:
  assumes "rt_inv t" and "x \<in> set t"
  shows "rt_entry_ok x" "fst (fst x) < snd (fst x)" "rt_link_ok (fst ` set t) (fst x) (rv_nearest_prefix (snd x))"
  using assms rt_entry_less by (auto simp: rt_inv_def)

lemma rt_inv_distinct:
  assumes "rt_inv t"
  shows "distinct (map fst t)"
proof -
  have "sorted_wrt (\<lambda>x y. cmp_map (fst x) (fst y)) t \<Longrightarrow> distinct (map fst t)"
    by (induction t) force+
  then show ?thesis
    using assms by (simp add: rt_inv_def)
qed

lemma rt_inv_order:
  assumes "rt_inv (xs @ ys)" and "x \<in> set xs" and "y \<in> set ys"
  shows "cmp_map (fst x) (fst y)"
  using assms by (auto simp: rt_inv_def sorted_wrt_append)

lemma map_of_mid: "distinct (map fst (xs @ x # ys)) \<Longrightarrow> map_of (xs @ x # ys) (fst x) = Some (snd x)"
  by (cases x) (force simp: map_add_def split: option.splits dest: map_of_SomeD)

text \<open>The link of an entry, as a position in the table.\<close>

lemma rt_link_split:
  assumes inv: "rt_inv (xs @ x # ys)" and "xs \<noteq> []"
  shows "\<exists>xs1 n xs2. xs = xs1 @ n # xs2 \<and> rv_nearest_prefix (snd x) = Some (fst n) \<and>
    (\<forall>y \<in> set xs2. snd (fst y) \<le> snd (fst x))"
proof -
  let ?t = "xs @ x # ys"
  obtain z where "z \<in> set xs"
    using assms(2) by (meson hd_in_set)
  then have "\<exists>j \<in> fst ` set ?t. cmp_map j (fst x)"
    using rt_inv_order [OF inv, of z x] by auto
  then obtain n where n: "n \<in> set ?t" "rv_nearest_prefix (snd x) = Some (fst n)" "cmp_map (fst n) (fst x)"
    and between: "\<And>y. y \<in> set ?t \<Longrightarrow> cmp_map (fst n) (fst y) \<Longrightarrow> cmp_map (fst y) (fst x) \<Longrightarrow> snd (fst y) \<le> snd (fst x)"
    using rt_invD(3) [OF inv, of x] by (auto simp: rt_link_ok_def)
  have "n \<in> set xs"
  proof (rule ccontr)
    assume "n \<notin> set xs"
    then have "n = x \<or> cmp_map (fst x) (fst n)"
      using n(1) rt_inv_order [of "xs @ [x]" ys x n] inv by auto
    then show False
      using n(3) cmp_map_trans by (metis cmp_map_irrefl)
  qed
  then obtain xs1 xs2 where xs: "xs = xs1 @ n # xs2"
    by (meson split_list)
  have "snd (fst y) \<le> snd (fst x)" if "y \<in> set xs2" for y
    using between [of y] rt_inv_order [of "xs1 @ [n]" "xs2 @ x # ys" n y] rt_inv_order [of xs "x # ys" y x]
      inv that xs by auto
  then show ?thesis
    using xs n(2) by blast
qed

section \<open>The search\<close>

text \<open>One round of the loop moves to an entry further to the front, without passing one of interest.\<close>

lemma rt_search_step:
  assumes inv: "rt_inv (xs @ rest)" and "xs \<noteq> []" and "fast \<Longrightarrow> rest \<noteq> []"
  shows "\<exists>xs1 n xs2. xs = xs1 @ n # xs2 \<and> (if fast then \<forall>y \<in> set xs2. snd (fst y) \<le> snd (fst (hd rest)) else xs2 = []) \<and>
    rt_search (xs @ rest) dst (rt_begin rest) fast best =
      rt_search (xs @ rest) dst (rt_begin (n # xs2 @ rest)) (fast \<or> snd (fst n) \<le> dst)
        (rt_consider dst (fst n) (snd n) best)"
proof -
  let ?t = "xs @ rest"
  have dis: "distinct (map fst ?t)"
    using inv by (rule rt_inv_distinct)
  have start: "rt_begin rest \<noteq> rt_begin ?t"
    using dis assms(2) by (cases xs; cases rest) (auto simp: rt_begin_def)
  have found: "map_of ?t (fst n) = Some (snd n)" if "xs = xs1 @ n # xs2" for xs1 n xs2
    using map_of_mid [of xs1 n "xs2 @ rest"] dis that by simp
  show ?thesis
  proof (cases fast)
    case True
    then obtain x ys where rest: "rest = x # ys"
      using assms(3) by (cases rest) auto
    obtain xs1 n xs2 where n: "xs = xs1 @ n # xs2" "rv_nearest_prefix (snd x) = Some (fst n)"
      "\<forall>y \<in> set xs2. snd (fst y) \<le> snd (fst x)"
      using rt_link_split inv assms(2) rest by blast
    have "map_of ?t (fst x) = Some (snd x)"
      using map_of_mid dis rest by simp
    then have "rt_search ?t dst (rt_begin rest) True best =
        rt_search ?t dst (Some (fst n)) True (rt_consider dst (fst n) (snd n) best)"
      using start found [OF n(1)] n(2) rest by (subst rt_search.simps) (simp add: rt_begin_def)
    then show ?thesis
      using n True rest by (intro exI [of _ xs1] exI [of _ n] exI [of _ xs2]) (simp add: rt_begin_def)
  next
    case False
    obtain xs1 n where n: "xs = xs1 @ [n]"
      using assms(2) by (metis rev_exhaust)
    have "takeWhile (\<lambda>z. rt_begin rest \<noteq> Some (fst z)) ?t = xs @ takeWhile (\<lambda>z. rt_begin rest \<noteq> Some (fst z)) rest"
      using dis by (intro takeWhile_append2) (cases rest; force simp: rt_begin_def)
    also have "takeWhile (\<lambda>z. rt_begin rest \<noteq> Some (fst z)) rest = []"
      by (cases rest) (simp_all add: rt_begin_def)
    finally have "rt_prev (rt_begin rest) ?t = Some (fst n)"
      using n by (simp add: rt_prev_def rt_begin_def)
    then have "rt_search ?t dst (rt_begin rest) False best =
        rt_search ?t dst (Some (fst n)) (snd (fst n) \<le> dst) (rt_consider dst (fst n) (snd n) best)"
      using start found [OF n] by (subst rt_search.simps) simp
    then show ?thesis
      using n False by (intro exI [of _ xs1] exI [of _ n] exI [of _ "[]"]) (simp add: rt_begin_def)
  qed
qed

text \<open>Nothing further to the front improves the choice: the search returns it.\<close>

lemma rt_search_done:
  assumes "rt_inv (xs @ rest)" and "fast \<Longrightarrow> rest \<noteq> []"
    and "\<forall>y \<in> set xs. rt_consider dst (fst y) (snd y) best = best"
  shows "rt_search (xs @ rest) dst (rt_begin rest) fast best = Some (Inr best)"
  using assms
proof (induction "length xs" arbitrary: xs rest fast rule: less_induct)
  case less
  show ?case
  proof (cases "xs = []")
    case True
    then show ?thesis
      by (subst rt_search.simps) simp
  next
    case False
    obtain xs1 n xs2 where n: "xs = xs1 @ n # xs2" and step: "rt_search (xs @ rest) dst (rt_begin rest) fast best =
        rt_search (xs @ rest) dst (rt_begin (n # xs2 @ rest)) (fast \<or> snd (fst n) \<le> dst)
          (rt_consider dst (fst n) (snd n) best)"
      using rt_search_step [OF less.prems(1) False less.prems(2)] by blast
    have "rt_search (xs1 @ n # xs2 @ rest) dst (rt_begin (n # xs2 @ rest)) (fast \<or> snd (fst n) \<le> dst) best = Some (Inr best)"
      using less.prems n by (intro less.hyps) auto
    then show ?thesis
      using step n less.prems(3) by simp
  qed
qed

text \<open>
  Entries behind the wanted one end before the destination, so neither phase of the search can pass it;
  entries in front of it do not beat it.
\<close>

lemma rt_search_finds:
  assumes "rt_inv (ws @ m # us @ rest)" and "fast \<Longrightarrow> rest \<noteq> [] \<and> snd (fst (hd rest)) < dst"
    and m: "dst \<le> snd (fst m)" "rt_consider dst (fst m) (snd m) best = best'"
    and ws: "\<forall>y \<in> set ws. rt_consider dst (fst y) (snd y) best' = best'"
    and "\<forall>y \<in> set us. snd (fst y) < dst"
  shows "rt_search (ws @ m # us @ rest) dst (rt_begin rest) fast best = Some (Inr best')"
  using assms(1,2,6)
proof (induction "length us" arbitrary: us rest fast rule: less_induct)
  case less
  let ?xs = "ws @ m # us"
  have inv: "rt_inv (?xs @ rest)"
    using less.prems(1) by simp
  obtain xs1 n xs2 where n: "?xs = xs1 @ n # xs2"
    and near: "if fast then \<forall>y \<in> set xs2. snd (fst y) \<le> snd (fst (hd rest)) else xs2 = []"
    and step: "rt_search (?xs @ rest) dst (rt_begin rest) fast best =
      rt_search (?xs @ rest) dst (rt_begin (n # xs2 @ rest)) (fast \<or> snd (fst n) \<le> dst)
        (rt_consider dst (fst n) (snd n) best)"
    using rt_search_step [OF inv, of fast dst best] less.prems(2) by blast
  have "m \<notin> set xs2"
    using near less.prems(2) m(1) by (cases fast) auto
  from n consider "xs1 = ws" "n = m" "xs2 = us" | us1 where "us = us1 @ n # xs2" "xs1 = ws @ m # us1"
    using \<open>m \<notin> set xs2\<close> by (auto simp: append_eq_append_conv2 Cons_eq_append_conv append_eq_Cons_conv)
  then show ?case
  proof cases
    case 1
    then show ?thesis
      using step m(2) rt_search_done [of ws "m # us @ rest"] inv ws by simp
  next
    case 2
    then have "snd (fst n) < dst"
      using less.prems(3) by simp
    then have "rt_consider dst (fst n) (snd n) best = best"
      by (auto simp: rt_consider_def)
    moreover have "rt_search (ws @ m # us1 @ n # xs2 @ rest) dst (rt_begin (n # xs2 @ rest)) (fast \<or> snd (fst n) \<le> dst) best =
        Some (Inr best')"
      using less.prems 2 \<open>snd (fst n) < dst\<close> by (intro less.hyps) auto
    ultimately show ?thesis
      using step 2 by simp
  qed
qed

lemma ucast_le_32: "(ucast (a :: 8 word) :: 32 word) \<le> ucast b \<longleftrightarrow> a \<le> b"
proof -
  have "unat (ucast w :: 32 word) = unat w" for w :: "8 word"
    using unat_lt [of w] by (simp add: unsigned_ucast_eq take_bit_eq_mod)
  then show ?thesis
    by (simp add: word_le_nat_alt)
qed

text \<open>The lookup: the longest of the covering entries, whatever the order of the others.\<close>

definition rt_none :: rt_best where
  "rt_none = \<lparr>rb_interface = 0, rb_prefix_length = 0, rb_next_hop = 0, rb_saved = False\<rparr>"

definition rt_taken :: "rt_k \<times> rt_v \<Rightarrow> rt_best" where
  "rt_taken x =
     \<lparr>rb_interface = rv_interface (snd x), rb_prefix_length = ucast (rv_prefix_length (snd x)),
      rb_next_hop = rv_next_hop (snd x), rb_saved = True\<rparr>"

lemma rt_route_front:
  assumes "rt_inv t"
  shows "rt_route t dst = rt_search t dst (rt_begin (dropWhile (\<lambda>x. fst (fst x) \<le> dst) t)) False rt_none"
proof -
  have "0 < snd (fst x)" if "x \<in> set t" for x
    using rt_invD(2) [OF assms that] by (rule le_less_trans [OF word_zero_le])
  then have "dropWhile (\<lambda>x. cmp_map (fst x) (dst, 0)) t = dropWhile (\<lambda>x. fst (fst x) \<le> dst) t"
    by (intro dropWhile_cong) (auto simp: cmp_map_def)
  then show ?thesis
    by (simp add: rt_route_def rt_lower_bound_def rt_none_def)
qed

lemma rt_route_longest:
  assumes inv: "rt_inv t" and m: "m \<in> set t" "rt_covers dst m"
    and longest: "\<forall>x \<in> set t. rt_covers dst x \<longrightarrow> rv_prefix_length (snd x) \<le> rv_prefix_length (snd m)"
  shows "rt_route t dst = Some (Inr (rt_taken m))"
proof -
  let ?P = "\<lambda>x. fst (fst x) \<le> dst"
  obtain ws us where t: "t = ws @ m # us"
    using m(1) by (meson split_list)
  have ordered: "cmp_map (fst y) (fst m)" if "y \<in> set ws" for y
    using rt_inv_order [of ws "m # us" y m] inv t that by simp
  have "?P y" if "y \<in> set ws" for y
    using cmp_map_fst [OF ordered [OF that]] m(2) by (auto simp: rt_covers_def)
  then have "dropWhile ?P t = dropWhile ?P us"
    using m(2) by (simp add: t rt_covers_def)
  then have "rt_route t dst = rt_search (ws @ m # takeWhile ?P us @ dropWhile ?P us) dst (rt_begin (dropWhile ?P us)) False rt_none"
    using rt_route_front [OF inv] t by simp
  also have "\<dots> = Some (Inr (rt_taken m))"
  proof (rule rt_search_finds)
    show "\<forall>y \<in> set (takeWhile ?P us). snd (fst y) < dst"
    proof
      fix y
      assume "y \<in> set (takeWhile ?P us)"
      then have y: "y \<in> set us" "?P y"
        by (auto dest: set_takeWhileD)
      have "cmp_map (fst m) (fst y)"
        using rt_inv_order [of "ws @ [m]" us m y] inv t y(1) by simp
      then have "\<not> rt_covers dst y"
        using covers_longer [of m dst y] longest rt_invD(1) [OF inv] m t y(1) by fastforce
      then show "snd (fst y) < dst"
        using y(2) by (auto simp: rt_covers_def)
    qed
    show "\<forall>y \<in> set ws. rt_consider dst (fst y) (snd y) (rt_taken m) = rt_taken m"
    proof
      fix y
      assume y: "y \<in> set ws"
      then have "?P y"
        using cmp_map_fst [OF ordered [OF y]] m(2) by (auto simp: rt_covers_def)
      then have "rv_prefix_length (snd y) < rv_prefix_length (snd m)" if "dst \<le> snd (fst y)"
        using covers_longer [of y dst m] ordered [OF y] rt_invD(1) [OF inv] m t y that by (auto simp: rt_covers_def)
      then show "rt_consider dst (fst y) (snd y) (rt_taken m) = rt_taken m"
        by (auto simp: rt_consider_def rt_taken_def ucast_le_32)
    qed
    show "rt_consider dst (fst m) (snd m) rt_none = rt_taken m"
      using m(2) by (simp add: rt_consider_def rt_taken_def rt_none_def rt_covers_def)
  qed (use inv t m(2) in \<open>simp_all add: rt_covers_def\<close>)
  finally show ?thesis .
qed

lemma rt_route_none:
  assumes inv: "rt_inv t" and none: "\<forall>x \<in> set t. \<not> rt_covers dst x"
  shows "rt_route t dst = Some (Inr rt_none)"
proof -
  let ?P = "\<lambda>x. fst (fst x) \<le> dst"
  have "rt_consider dst (fst y) (snd y) rt_none = rt_none" if "y \<in> set (takeWhile ?P t)" for y
  proof -
    have "y \<in> set t" "?P y"
      using that by (auto dest: set_takeWhileD)
    then show ?thesis
      using none by (auto simp: rt_covers_def rt_consider_def)
  qed
  then have "rt_search (takeWhile ?P t @ dropWhile ?P t) dst (rt_begin (dropWhile ?P t)) False rt_none = Some (Inr rt_none)"
    using inv by (intro rt_search_done) simp_all
  then show ?thesis
    using rt_route_front [OF inv] by simp
qed

section \<open>Adding a route\<close>

definition rt_relink :: "rt_k \<Rightarrow> rt_k set \<Rightarrow> rt_table \<Rightarrow> rt_table" where
  "rt_relink n S t = map (\<lambda>x. if fst x \<in> S then (fst x, (snd x)\<lparr>rv_nearest_prefix := Some n\<rparr>) else x) t"

lemma rt_relink_empty [simp]: "rt_relink n {} t = t"
  by (simp add: rt_relink_def)

lemma rt_set_nearest_relink: "rt_set_nearest k n (rt_relink n S t) = rt_relink n (insert k S) t"
  by (auto simp: rt_set_nearest_def rt_relink_def)

lemma rt_begin_relink [simp]: "rt_begin (rt_relink n S t) = rt_begin t"
  by (auto simp: rt_begin_def rt_relink_def split: list.splits)

lemma dropWhile_relink: "dropWhile (\<lambda>x. P (fst x)) (rt_relink n S t) = rt_relink n S (dropWhile (\<lambda>x. P (fst x)) t)"
  by (induction t) (auto simp: rt_relink_def)

lemma rt_skip_short_relink [simp]: "rt_skip_short k (rt_relink n S t) = rt_skip_short k t"
proof -
  have "tl (rt_relink n S u) = rt_relink n S (tl u)" for u
    by (simp add: rt_relink_def map_tl)
  then show ?thesis
    unfolding rt_skip_short_def
    by (simp only: dropWhile_relink [of "\<lambda>j. j \<noteq> k"] dropWhile_relink [of "\<lambda>j. fst j < snd k"] rt_begin_relink)
qed

lemma rt_lower_bound_relink [simp]: "rt_lower_bound k (rt_relink n S t) = rt_lower_bound k t"
  unfolding rt_lower_bound_def by (simp only: dropWhile_relink [of "\<lambda>j. cmp_map j k"] rt_begin_relink)

text \<open>The two ways to skip what is nested in an entry come to the same entry.\<close>

definition rt_sound :: "rt_table \<Rightarrow> bool" where
  "rt_sound t \<longleftrightarrow>
     sorted_wrt (\<lambda>x y. cmp_map (fst x) (fst y)) t \<and>
     (\<forall>x \<in> set t. rt_entry_ok x \<and> unat (rv_prefix_length (snd x)) < 32)"

lemma rt_inv_sound:
  "rt_inv t \<longleftrightarrow> rt_sound t \<and> (\<forall>x \<in> set t. rt_link_ok (fst ` set t) (fst x) (rv_nearest_prefix (snd x)))"
  by (auto simp: rt_inv_def rt_sound_def)

lemma rt_sound_order:
  assumes "rt_sound (xs @ ys)" and "x \<in> set xs" and "y \<in> set ys"
  shows "cmp_map (fst x) (fst y)"
  using assms by (auto simp: rt_sound_def sorted_wrt_append)

lemma rt_skip_lower_bound:
  assumes sound: "rt_sound (xs @ y # rs)"
  shows "rt_lower_bound (snd (fst y), - 1) (xs @ y # rs) = rt_begin (dropWhile (\<lambda>x. fst (fst x) < snd (fst y)) rs)"
proof -
  have less: "fst (fst y) < snd (fst y)"
    using sound rt_entry_less by (simp add: rt_sound_def)
  have "cmp_map k (e, - 1) \<longleftrightarrow> fst k < e" for k e
    by (auto simp: cmp_map_def)
  moreover have "fst (fst x) < snd (fst y)" if "x \<in> set xs" for x
    using cmp_map_fst rt_sound_order [OF sound that, of y] less by fastforce
  ultimately show ?thesis
    using less by (simp add: rt_lower_bound_def)
qed

lemma rt_skip_short_next:
  assumes "rt_sound (xs @ y # rs)"
  shows "rt_skip_short (fst y) (xs @ y # rs) = rt_begin (dropWhile (\<lambda>x. fst (fst x) < snd (fst y)) rs)"
proof -
  have "fst x \<noteq> fst y" if "x \<in> set xs" for x
    using rt_sound_order [OF assms that, of y] by auto
  then show ?thesis
    by (simp add: rt_skip_short_def)
qed

text \<open>
  The loop over the later entries: when each of them ends later than the new one, it returns and links
  to the new entry only where nothing in between ends later, among them the first.
\<close>

definition rt_linkable :: "rt_table \<Rightarrow> rt_k \<Rightarrow> rt_k set" where
  "rt_linkable t k =
     {j \<in> fst ` set t. cmp_map k j \<and> (\<forall>i \<in> fst ` set t. cmp_map k i \<and> cmp_map i j \<longrightarrow> snd i \<le> snd j)}"

lemma rt_linkable_next:
  assumes sound: "rt_sound (xs @ x # ps @ y # rs)" and ps: "\<forall>p \<in> set ps. snd (fst p) \<le> snd (fst y)"
  shows "fst y \<in> rt_linkable (xs @ x # ps @ y # rs) (fst x)"
proof -
  let ?t = "xs @ x # ps @ y # rs"
  have "cmp_map (fst x) (fst y)"
    using rt_sound_order [of "xs @ [x]" "ps @ y # rs" x y] sound by simp
  moreover have "snd (fst z) \<le> snd (fst y)"
    if z: "z \<in> set ?t" and after: "cmp_map (fst x) (fst z)" and before: "cmp_map (fst z) (fst y)" for z
  proof -
    have "z \<notin> set (xs @ [x])"
      using rt_sound_order [of xs "x # ps @ y # rs" z x] sound after by (auto dest: cmp_map_trans)
    moreover have "z \<notin> set (y # rs)"
      using rt_sound_order [of "xs @ x # ps @ [y]" rs y z] sound before by (auto dest: cmp_map_trans)
    ultimately show ?thesis
      using z ps by simp
  qed
  ultimately show ?thesis
    by (auto simp: rt_linkable_def)
qed

lemma rt_forward_links:
  assumes "rt_sound (xs @ x # ps @ rest)" and "\<forall>y \<in> set rest. snd (fst x) < snd (fst y)"
    and "\<forall>y \<in> set rest. \<forall>p \<in> set ps. snd (fst p) \<le> snd (fst y)"
    and "S \<subseteq> rt_linkable (xs @ x # ps @ rest) (fst x)"
  shows "\<exists>S'. rt_forward log_length (fst x) (rt_begin rest) (rt_relink (fst x) S (xs @ x # ps @ rest)) =
      Some (rt_relink (fst x) S' (xs @ x # ps @ rest)) \<and>
    S \<subseteq> S' \<and> S' \<subseteq> rt_linkable (xs @ x # ps @ rest) (fst x) \<and> (rest \<noteq> [] \<longrightarrow> fst (hd rest) \<in> S')"
  using assms
proof (induction "length rest" arbitrary: rest ps S rule: less_induct)
  case less
  show ?case
  proof (cases rest)
    case Nil
    then show ?thesis
      using less.prems by (intro exI [of _ S]) (simp add: rt_begin_def rt_forward.simps)
  next
    case (Cons y rs)
    define t where "t = xs @ x # ps @ y # rs"
    have sound: "rt_sound t" and S: "S \<subseteq> rt_linkable t (fst x)"
      using less.prems Cons by (simp_all add: t_def)
    let ?P = "\<lambda>z. fst (fst z) < snd (fst y)"
    let ?ps = "ps @ y # takeWhile ?P rs" and ?rest = "dropWhile ?P rs"
    have t': "t = xs @ x # ?ps @ ?rest"
      by (simp add: t_def)
    have y: "fst y \<in> rt_linkable t (fst x)"
      using rt_linkable_next [of xs x ps y rs] sound less.prems(3) Cons by (simp add: t_def)
    have skip: "rt_skip_short (fst y) t = rt_begin ?rest" "rt_lower_bound (snd (fst y), - 1) t = rt_begin ?rest"
      using rt_skip_short_next [of "xs @ x # ps" y rs] rt_skip_lower_bound [of "xs @ x # ps" y rs] sound
      by (simp_all add: t_def)
    have nested: "snd (fst p) \<le> snd (fst z)" if p: "p \<in> set ?ps" and z: "z \<in> set ?rest" for p z
    proof -
      have ends: "snd (fst y) \<le> fst (fst z)"
      proof -
        obtain h rs' where rest: "?rest = h # rs'"
          using z by (cases ?rest) (auto simp del: dropWhile_eq_Nil_conv)
        have "snd (fst y) \<le> fst (fst h)"
          using rest by (meson dropWhile_eq_Cons_conv not_less)
        moreover have "rt_sound ((xs @ x # ?ps @ [h]) @ rs')"
          using sound rest unfolding t' by simp
        then have "z = h \<or> cmp_map (fst h) (fst z)"
          using rt_sound_order [of "xs @ x # ?ps @ [h]" rs' h z] z unfolding rest by auto
        ultimately show ?thesis
          using cmp_map_fst order_trans by blast
      qed
      have "rt_entry_ok z"
        using set_dropWhileD [OF z] sound by (simp add: rt_sound_def t_def)
      then have "snd (fst y) \<le> snd (fst z)"
        using ends rt_entry_le by (meson order_trans)
      moreover have "snd (fst p) \<le> snd (fst y)"
      proof -
        consider "p \<in> set ps" | "p = y" | "p \<in> set (takeWhile ?P rs)"
          using p by auto
        then show ?thesis
        proof cases
          case 1
          then show ?thesis
            using less.prems(3) Cons by simp
        next
          case 3
          then have "p \<in> set rs" "?P p"
            by (auto dest: set_takeWhileD)
          then show ?thesis
            using entry_nested [of y p] rt_sound_order [of "xs @ x # ps @ [y]" rs y p] sound
            by (auto simp: t_def rt_sound_def)
        qed simp
      qed
      ultimately show ?thesis
        by simp
    qed
    have "\<exists>S'. rt_forward log_length (fst x) (rt_begin ?rest) (rt_relink (fst x) (insert (fst y) S) (xs @ x # ?ps @ ?rest)) =
        Some (rt_relink (fst x) S' (xs @ x # ?ps @ ?rest)) \<and>
      insert (fst y) S \<subseteq> S' \<and> S' \<subseteq> rt_linkable (xs @ x # ?ps @ ?rest) (fst x) \<and> (?rest \<noteq> [] \<longrightarrow> fst (hd ?rest) \<in> S')"
    proof (rule less.hyps)
      show "length ?rest < length rest"
        using length_dropWhile_le [of ?P rs] Cons by simp
      show "rt_sound (xs @ x # ?ps @ ?rest)" "insert (fst y) S \<subseteq> rt_linkable (xs @ x # ?ps @ ?rest) (fst x)"
        using sound y S unfolding t' by simp_all
      show "\<forall>z \<in> set ?rest. snd (fst x) < snd (fst z)"
        using less.prems(2) Cons by (auto dest: set_dropWhileD)
      show "\<forall>z \<in> set ?rest. \<forall>p \<in> set ?ps. snd (fst p) \<le> snd (fst z)"
        using nested by blast
    qed
    then obtain S' where S': "rt_forward log_length (fst x) (rt_begin ?rest) (rt_relink (fst x) (insert (fst y) S) t) =
        Some (rt_relink (fst x) S' t)" "insert (fst y) S \<subseteq> S'" "S' \<subseteq> rt_linkable t (fst x)"
      unfolding t' by blast
    have "\<not> snd (fst y) \<le> snd (fst x)"
      using less.prems(2) Cons by auto
    then have "rt_forward log_length (fst x) (rt_begin rest) (rt_relink (fst x) S t) = Some (rt_relink (fst x) S' t)"
      using S'(1) Cons by (subst rt_forward.simps) (simp add: rt_begin_def Let_def rt_set_nearest_relink skip)
    then show ?thesis
      using S'(2,3) Cons by (intro exI [of _ S']) (simp add: t_def)
  qed
qed

lemma rt_enclosing_Some:
  "rt_enclosing e ys = Some n \<Longrightarrow> \<exists>as x bs. ys = as @ x # bs \<and> n = fst x \<and> (\<forall>y \<in> set as. snd (fst y) \<le> e)"
proof (induction ys)
  case (Cons y ys)
  show ?case
  proof (cases "e < snd (fst y)")
    case True
    then show ?thesis
      using Cons.prems by (intro exI [of _ "[]"]) auto
  next
    case False
    then obtain as x bs where "ys = as @ x # bs" "n = fst x" "\<forall>y \<in> set as. snd (fst y) \<le> e"
      using Cons by auto
    then show ?thesis
      using False by (intro exI [of _ "y # as"] exI [of _ x] exI [of _ bs]) auto
  qed
qed simp

lemma rt_enclosing_None: "rt_enclosing e ys = None \<Longrightarrow> \<forall>y \<in> set ys. snd (fst y) \<le> e"
  by (induction ys) (auto split: if_splits)

text \<open>The link of the new entry.\<close>

lemma rt_link_new:
  assumes sound: "rt_sound (ys @ x # zs)"
    and link: "link = (case rt_enclosing (snd (fst x)) (rev ys) of Some n \<Rightarrow> Some n | None \<Rightarrow> rt_begin (ys @ zs))"
  shows "rt_link_ok (fst ` set (ys @ x # zs)) (fst x) link"
proof -
  let ?t = "ys @ x # zs"
  have early: "z \<in> set ys" if "z \<in> set ?t" "cmp_map (fst z) (fst x)" for z
    using that rt_sound_order [of "ys @ [x]" zs x z] sound by (auto dest: cmp_map_trans)
  have link_split: "\<exists>as n bs. ys = as @ n # bs \<and> link = Some (fst n) \<and> (\<forall>y \<in> set bs. snd (fst y) \<le> snd (fst x))" if "ys \<noteq> []"
  proof (cases "rt_enclosing (snd (fst x)) (rev ys)")
    case None
    then have "link = Some (fst (hd ys))" "\<forall>y \<in> set ys. snd (fst y) \<le> snd (fst x)"
      using that link rt_enclosing_None [OF None] by (cases ys; simp add: rt_begin_def)+
    then show ?thesis
      using that by (intro exI [of _ "[]"] exI [of _ "hd ys"] exI [of _ "tl ys"]) (auto dest: list.set_sel(2))
  next
    case (Some n)
    then obtain as m bs where m: "rev ys = as @ m # bs" "n = fst m" "\<forall>y \<in> set as. snd (fst y) \<le> snd (fst x)"
      using rt_enclosing_Some by blast
    from m(1) have "ys = rev bs @ m # rev as"
      by (metis append.assoc append_Cons append_Nil rev.simps(2) rev_append rev_rev_ident)
    then show ?thesis
      using link Some m(2,3) by (intro exI [of _ "rev bs"] exI [of _ m] exI [of _ "rev as"]) simp
  qed
  have between: "snd (fst z) \<le> snd (fst x)"
    if ys: "ys = as @ n # bs" and bs: "\<forall>y \<in> set bs. snd (fst y) \<le> snd (fst x)"
      and z: "z \<in> set ?t" "cmp_map (fst n) (fst z)" "cmp_map (fst z) (fst x)" for as n bs z
  proof -
    have "z \<notin> set (as @ [n])"
      using rt_sound_order [of as "n # bs @ x # zs" z n] sound z(2) ys by (auto dest: cmp_map_trans)
    then show ?thesis
      using early [OF z(1,3)] ys bs by auto
  qed
  have before: "cmp_map (fst n) (fst x)" if "n \<in> set ys" for n
    using rt_sound_order [OF sound that, of x] by simp
  have first: "ys \<noteq> []" if "\<exists>j \<in> fst ` set ?t. cmp_map j (fst x)"
  proof -
    from that obtain z where "z \<in> set ?t" "cmp_map (fst z) (fst x)"
      by blast
    then have "z \<in> set ys"
      by (rule early)
    then show ?thesis
      by auto
  qed
  show ?thesis
    unfolding rt_link_ok_def
  proof
    assume "\<exists>j \<in> fst ` set ?t. cmp_map j (fst x)"
    then obtain as n bs where n: "ys = as @ n # bs" "link = Some (fst n)" "\<forall>y \<in> set bs. snd (fst y) \<le> snd (fst x)"
      using link_split first by blast
    show "\<exists>n \<in> fst ` set ?t. link = Some n \<and> cmp_map n (fst x) \<and>
        (\<forall>j \<in> fst ` set ?t. cmp_map n j \<and> cmp_map j (fst x) \<longrightarrow> snd j \<le> snd (fst x))"
    proof (intro bexI [of _ "fst n"] conjI ballI impI)
      fix j
      assume "j \<in> fst ` set ?t" "cmp_map (fst n) j \<and> cmp_map j (fst x)"
      then show "snd j \<le> snd (fst x)"
        using between [OF n(1,3)] by blast
    qed (use n before in auto)
  qed
qed

text \<open>The links that were there stay right: no entry behind the new one ends before it.\<close>

lemma rt_link_old:
  assumes "rt_link_ok K j link" and "\<exists>i \<in> K. cmp_map i j" and "cmp_map k j \<Longrightarrow> snd k \<le> snd j"
  shows "rt_link_ok (insert k K) j link"
  using assms unfolding rt_link_ok_def by blast

lemma rt_relink_fst [simp]: "fst ` set (rt_relink n S t) = fst ` set t"
proof -
  have "map fst (rt_relink n S t) = map fst t"
    by (simp add: rt_relink_def)
  then show ?thesis
    by (metis set_map)
qed

lemma rt_sound_relink [simp]: "rt_sound (rt_relink n S t) \<longleftrightarrow> rt_sound t"
proof -
  have "sorted_wrt (\<lambda>x y. cmp_map (fst x) (fst y)) (rt_relink n S t) \<longleftrightarrow> sorted_wrt (\<lambda>x y. cmp_map (fst x) (fst y)) t"
  proof (induction t)
    case (Cons y t)
    have "(\<forall>x \<in> set (rt_relink n S t). cmp_map (fst y) (fst x)) \<longleftrightarrow> (\<forall>j \<in> fst ` set t. cmp_map (fst y) j)"
      unfolding rt_relink_fst [of n S t, symmetric] by blast
    then show ?case
      using Cons by (simp add: rt_relink_def)
  qed (simp add: rt_relink_def)
  moreover have "(\<forall>x \<in> set (rt_relink n S t). rt_entry_ok x \<and> unat (rv_prefix_length (snd x)) < 32) \<longleftrightarrow>
      (\<forall>x \<in> set t. rt_entry_ok x \<and> unat (rv_prefix_length (snd x)) < 32)"
    unfolding rt_relink_def set_map ball_simps by (intro ball_cong) (auto simp: rt_entry_ok_def)
  ultimately show ?thesis
    by (simp add: rt_sound_def)
qed

lemma rt_relink_link:
  assumes "x \<in> set (rt_relink n S t)"
  obtains "fst x \<in> S" "rv_nearest_prefix (snd x) = Some n" | "fst x \<notin> S" "x \<in> set t"
  using assms by (auto simp: rt_relink_def split: if_splits)

lemma rt_linkable_ok:
  assumes "j \<in> rt_linkable t k" and "k \<in> fst ` set t"
  shows "rt_link_ok (fst ` set t) j (Some k)"
  using assms by (auto simp: rt_linkable_def rt_link_ok_def)

text \<open>The table after the insertion, and its entries as routes.\<close>

lemma rt_insert_sound:
  assumes "rt_sound t" and "rt_entry_ok x" and "unat (rv_prefix_length (snd x)) < 32" and "fst x \<notin> fst ` set t"
  obtains ys zs where "t = ys @ zs" and "rt_insert x t = ys @ x # zs" and "rt_sound (ys @ x # zs)"
proof
  let ?P = "\<lambda>y. cmp_map (fst y) (fst x)"
  show "t = takeWhile ?P t @ dropWhile ?P t" "rt_insert x t = takeWhile ?P t @ x # dropWhile ?P t"
    using assms(4) by (simp_all add: rt_insert_def)
  have sorted: "sorted_wrt (\<lambda>x y. cmp_map (fst x) (fst y)) (takeWhile ?P t @ dropWhile ?P t)"
    using assms(1) by (simp add: rt_sound_def)
  have "cmp_map (fst x) (fst z)" if z: "z \<in> set (dropWhile ?P t)" for z
  proof -
    obtain h rs where h: "dropWhile ?P t = h # rs" "\<not> ?P h"
      using z by (cases "dropWhile ?P t") (auto simp: dropWhile_eq_Cons_conv simp del: dropWhile_eq_Nil_conv)
    moreover have "h \<in> set t"
      using h(1) by (metis list.set_intros(1) set_dropWhileD)
    ultimately have "cmp_map (fst x) (fst h)"
      using assms(4) cmp_map_total by (metis image_eqI)
    moreover have "z = h \<or> cmp_map (fst h) (fst z)"
      using sorted z unfolding h(1) by (auto simp: sorted_wrt_append)
    ultimately show ?thesis
      using cmp_map_trans by blast
  qed
  then show "rt_sound (takeWhile ?P t @ x # dropWhile ?P t)"
    using sorted [unfolded sorted_wrt_append] assms(1-3)
    by (auto simp: rt_sound_def sorted_wrt_append dest: set_takeWhileD set_dropWhileD cmp_map_trans)
qed

type_synonym route_spec = "32 word \<times> 8 word \<times> 32 word \<times> size_t"

definition rt_spec :: "rt_k \<times> rt_v \<Rightarrow> route_spec" where
  "rt_spec x = (fst (fst x), rv_prefix_length (snd x), rv_next_hop (snd x), rv_interface (snd x))"

lemma rt_spec_relink [simp]: "rt_spec ` set (rt_relink n S t) = rt_spec ` set t"
proof -
  have "map rt_spec (rt_relink n S t) = map rt_spec t"
    by (simp add: rt_relink_def rt_spec_def)
  then show ?thesis
    by (metis set_map)
qed

lemma rt_relink_inv:
  assumes sound: "rt_sound (ys @ x # zs)" and old: "rt_inv (ys @ zs)"
    and link: "rt_link_ok (fst ` set (ys @ x # zs)) (fst x) (rv_nearest_prefix (snd x))"
    and later: "\<forall>z \<in> set zs. snd (fst x) < snd (fst z)"
    and S: "S \<subseteq> rt_linkable (ys @ x # zs) (fst x)" "zs \<noteq> [] \<longrightarrow> fst (hd zs) \<in> S"
  shows "rt_inv (rt_relink (fst x) S (ys @ x # zs))"
proof -
  let ?t = "ys @ x # zs"
  have "rt_link_ok (fst ` set ?t) (fst z) (rv_nearest_prefix (snd z))" if "z \<in> set (rt_relink (fst x) S ?t)" for z
    using that
  proof (cases rule: rt_relink_link)
    case 1
    then show ?thesis
      using rt_linkable_ok [of "fst z" ?t "fst x"] S(1) by auto
  next
    case 2
    consider "z = x" | "z \<in> set ys" | "z \<in> set zs"
      using 2(2) by auto
    then show ?thesis
    proof cases
      case 1
      then show ?thesis
        using link by simp
    next
      case 2
      then have "cmp_map (fst z) (fst x)"
        using rt_sound_order [OF sound, of z x] by simp
      then have "\<not> cmp_map (fst x) (fst z)"
        by (auto dest: cmp_map_trans)
      then show ?thesis
        using rt_link_old [of "fst ` set (ys @ zs)" "fst z" _ "fst x"] rt_invD(3) [OF old, of z] 2
        by (auto simp: rt_link_ok_def)
    next
      case 3
      then have "zs \<noteq> []" "z \<noteq> hd zs"
        using 2 S(2) by auto
      then have "hd zs \<in> set zs" "z \<in> set (tl zs)" "ys @ zs = (ys @ [hd zs]) @ tl zs"
        using 3 by (auto simp: neq_Nil_conv)
      then have "\<exists>i \<in> fst ` set (ys @ zs). cmp_map i (fst z)"
        using rt_inv_order [of "ys @ [hd zs]" "tl zs" "hd zs" z] old by auto
      then have "rt_link_ok (insert (fst x) (fst ` set (ys @ zs))) (fst z) (rv_nearest_prefix (snd z))"
        using rt_invD(3) [OF old, of z] 3 later by (intro rt_link_old) (auto simp: less_imp_le)
      then show ?thesis
        by simp
    qed
  qed
  then show ?thesis
    using sound by (simp add: rt_inv_sound)
qed

lemma add_route_inv:
  assumes inv: "rt_inv (ro_table r)" and p: "prefix_ok p len" "unat len < 32"
    and fresh: "\<forall>x \<in> set (ro_table r). \<not> (p \<le> fst (fst x) \<and> snd (fst x) \<le> route_end p len)"
  shows "\<exists>t. add_route flog p len next_hop i r = Some (Inr (r\<lparr>ro_table := t\<rparr>)) \<and> rt_inv t \<and>
    rt_spec ` set t = insert (p, len, case next_hop of Some a \<Rightarrow> a | None \<Rightarrow> 0, i) (rt_spec ` set (ro_table r))"
proof -
  let ?hop = "case next_hop of Some a \<Rightarrow> a | None \<Rightarrow> 0"
  define t k where "t = ro_table r" and "k = (p, route_end p len)"
  define v where "v = \<lparr>rv_nearest_prefix = rt_begin t, rv_interface = i, rv_next_hop = ?hop, rv_prefix_length = len\<rparr>"
  have "rt_sound t" "rt_entry_ok (k, v)" "unat (rv_prefix_length v) < 32" and new: "k \<notin> fst ` set t"
    using inv p fresh by (auto simp: rt_inv_sound t_def rt_entry_ok_def k_def v_def)
  then obtain ys zs where t: "t = ys @ zs" and insert_k: "rt_insert (k, v) t = ys @ (k, v) # zs"
    and sound: "rt_sound (ys @ (k, v) # zs)"
    using rt_insert_sound [of t "(k, v)"] by auto
  have keys: "\<forall>y \<in> set ys. fst y \<noteq> k" "\<forall>z \<in> set zs. fst z \<noteq> k"
    using new t by auto
  define link where "link = (case rt_enclosing (snd k) (rev ys) of Some n \<Rightarrow> Some n | None \<Rightarrow> rt_begin t)"
  define x where "x = (k, v\<lparr>rv_nearest_prefix := link\<rparr>)"
  have fst_x [simp]: "fst x = k" "rv_nearest_prefix (snd x) = link"
    by (simp_all add: x_def)
  have sound': "rt_sound (ys @ x # zs)"
    using sound by (simp add: rt_sound_def x_def rt_entry_ok_def sorted_wrt_append)
  have "rt_set_nearest k n (ys @ (k, v) # zs) = ys @ (k, v\<lparr>rv_nearest_prefix := Some n\<rparr>) # zs" for n
    using keys by (simp add: rt_set_nearest_def case_prod_beta map_idI)
  then have linked: "(case rt_enclosing (snd k) (rev (takeWhile (\<lambda>y. fst y \<noteq> k) (ys @ (k, v) # zs))) of
      Some n \<Rightarrow> rt_set_nearest k n (ys @ (k, v) # zs) | None \<Rightarrow> ys @ (k, v) # zs) = ys @ x # zs"
    using keys(1) by (auto simp: x_def link_def v_def split: option.splits)
  have next_k: "rt_next k (ys @ x # zs) = rt_begin zs"
    using keys(1) by (simp add: rt_next_def)
  have later: "\<forall>z \<in> set zs. snd (fst x) < snd (fst z)"
  proof
    fix z
    assume z: "z \<in> set zs"
    then have "cmp_map k (fst z)"
      using rt_sound_order [of "ys @ [x]" zs x z] sound' by simp
    then have "p \<le> fst (fst z)"
      using cmp_map_fst [of k "fst z"] by (simp add: k_def)
    then show "snd (fst x) < snd (fst z)"
      using fresh [rule_format, of z] z t by (simp add: k_def t_def)
  qed
  obtain S where S: "rt_forward (flog (snd k - fst k + 1)) k (rt_begin zs) (ys @ x # zs) = Some (rt_relink k S (ys @ x # zs))"
    "S \<subseteq> rt_linkable (ys @ x # zs) k" "zs \<noteq> [] \<longrightarrow> fst (hd zs) \<in> S"
    using rt_forward_links [of ys x "[]" zs "{}" "flog (snd k - fst k + 1)"] sound' later by auto
  have "\<not> 32 < len"
    using p(2) by (simp add: word_less_nat_alt)
  then have "add_route flog p len next_hop i r = Some (Inr (r\<lparr>ro_table := rt_relink k S (ys @ x # zs)\<rparr>))"
    using S(1) insert_k linked next_k
    by (simp add: add_route_def Let_def k_def v_def t_def cong: option.case_cong)
  moreover have "rt_link_ok (fst ` set (ys @ x # zs)) (fst x) link"
    using rt_link_new [OF sound', of link] unfolding link_def t by simp
  then have "rt_inv (rt_relink k S (ys @ x # zs))"
    using rt_relink_inv [of ys x zs S] sound' later S(2,3) inv t by (simp add: t_def)
  moreover have "rt_spec x = (p, len, ?hop, i)"
    by (simp add: rt_spec_def x_def v_def k_def)
  ultimately show ?thesis
    using t by (intro exI [of _ "rt_relink k S (ys @ x # zs)"]) (auto simp: t_def)
qed

section \<open>Routing by the longest matching prefix\<close>

record route =
  re_prefix :: "32 word"
  re_length :: "8 word"
  re_next_hop :: "32 word option"
  re_interface :: size_t

definition route_matches :: "route \<Rightarrow> 32 word \<Rightarrow> bool" where
  "route_matches e a \<longleftrightarrow> drop_bit (32 - unat (re_length e)) a = drop_bit (32 - unat (re_length e)) (re_prefix e)"

definition route_ok :: "route \<Rightarrow> bool" where
  "route_ok e \<longleftrightarrow> prefix_ok (re_prefix e) (re_length e) \<and> unat (re_length e) < 32 \<and> re_next_hop e \<noteq> Some 0"

text \<open>A route encloses another when its prefix is not longer and matches the prefix of the other.\<close>

definition route_encloses :: "route \<Rightarrow> route \<Rightarrow> bool" where
  "route_encloses e f \<longleftrightarrow> re_length e \<le> re_length f \<and> route_matches e (re_prefix f)"

fun add_routes :: "(32 word \<Rightarrow> 32 word) \<Rightarrow> route list \<Rightarrow> Router \<Rightarrow> Router res option" where
  "add_routes flog [] r = Some (Inr r)"
| "add_routes flog (e # es) r =
     (case add_route flog (re_prefix e) (re_length e) (re_next_hop e) (re_interface e) r of
        None \<Rightarrow> None
      | Some (Inl err) \<Rightarrow> Some (Inl err)
      | Some (Inr r') \<Rightarrow> add_routes flog es r')"

definition route_spec_of :: "route \<Rightarrow> route_spec" where
  "route_spec_of e = (re_prefix e, re_length e, case re_next_hop e of Some a \<Rightarrow> a | None \<Rightarrow> 0, re_interface e)"

definition router_has :: "route set \<Rightarrow> Router \<Rightarrow> bool" where
  "router_has E r \<longleftrightarrow> rt_inv (ro_table r) \<and> rt_spec ` set (ro_table r) = route_spec_of ` E"

lemma rt_entry_of_route:
  assumes "router_has E r" and "x \<in> set (ro_table r)"
  obtains e where "e \<in> E" and "rt_spec x = route_spec_of e" and "fst x = (re_prefix e, route_end (re_prefix e) (re_length e))"
    and "prefix_ok (re_prefix e) (re_length e)"
proof -
  have "rt_spec x \<in> route_spec_of ` E"
    using assms by (metis image_eqI router_has_def)
  then obtain e where e: "e \<in> E" "rt_spec x = route_spec_of e"
    by blast
  moreover have "rt_entry_ok x"
    using assms(1) by (intro rt_invD(1) [OF _ assms(2)]) (simp add: router_has_def)
  ultimately show thesis
    using that [of e] by (cases x) (auto simp: rt_entry_ok_def rt_spec_def route_spec_of_def)
qed

lemma block_le_iff:
  assumes "unat len < 32"
  shows "block len' \<le> block len \<longleftrightarrow> len \<le> len'"
  using assms by (auto simp: word_le_nat_alt)

lemma add_route_has:
  assumes has: "router_has E r" and e: "route_ok e" and outer: "\<forall>f \<in> E. \<not> route_encloses e f"
  shows "\<exists>r'. add_route flog (re_prefix e) (re_length e) (re_next_hop e) (re_interface e) r = Some (Inr r') \<and>
    router_has (insert e E) r' \<and> ro_interfaces r' = ro_interfaces r"
proof -
  have "\<not> (re_prefix e \<le> fst (fst x) \<and> snd (fst x) \<le> route_end (re_prefix e) (re_length e))" if x: "x \<in> set (ro_table r)" for x
  proof
    obtain f where f: "f \<in> E" "fst x = (re_prefix f, route_end (re_prefix f) (re_length f))"
      "prefix_ok (re_prefix f) (re_length f)"
      using rt_entry_of_route [OF has x] by metis
    assume enclosed: "re_prefix e \<le> fst (fst x) \<and> snd (fst x) \<le> route_end (re_prefix e) (re_length e)"
    have p: "prefix_ok (re_prefix e) (re_length e)" "unat (re_length e) < 32"
      using e by (simp_all add: route_ok_def)
    have ends: "unat (route_end (re_prefix f) (re_length f)) + 1 = unat (re_prefix f) + block (re_length f)"
      "unat (route_end (re_prefix e) (re_length e)) + 1 = unat (re_prefix e) + block (re_length e)"
      using route_end_unat [OF f(3)] route_end_unat [OF p(1)] by (simp_all add: Suc_le_eq)
    have pos: "0 < block (re_length f)"
      by simp
    have le: "unat (re_prefix e) \<le> unat (re_prefix f)"
      "unat (route_end (re_prefix f) (re_length f)) \<le> unat (route_end (re_prefix e) (re_length e))"
      using enclosed f(2) by (simp_all add: word_le_nat_alt)
    have "block (re_length f) \<le> block (re_length e)"
      using ends le by linarith
    moreover have "re_prefix f \<le> route_end (re_prefix e) (re_length e)"
      using ends le pos unfolding word_le_nat_alt by linarith
    ultimately have "route_encloses e f"
      using prefix_covers_iff [OF p(1), of "re_prefix f"] block_le_iff [OF p(2)] enclosed f(2)
      by (simp add: route_encloses_def route_matches_def)
    then show False
      using outer f(1) by blast
  qed
  then obtain t where "add_route flog (re_prefix e) (re_length e) (re_next_hop e) (re_interface e) r = Some (Inr (r\<lparr>ro_table := t\<rparr>))"
    "rt_inv t" "rt_spec ` set t = insert (route_spec_of e) (rt_spec ` set (ro_table r))"
    using add_route_inv [of r "re_prefix e" "re_length e" flog "re_next_hop e" "re_interface e"] has e
    unfolding router_has_def route_ok_def route_spec_of_def by blast
  then show ?thesis
    using has by (intro exI [of _ "r\<lparr>ro_table := t\<rparr>"]) (simp add: router_has_def)
qed

lemma add_routes_has:
  assumes "router_has E r" and "\<forall>e \<in> set es. route_ok e" and "sorted_wrt (\<lambda>e f. \<not> route_encloses f e) es"
    and "\<forall>e \<in> E. \<forall>f \<in> set es. \<not> route_encloses f e"
  shows "\<exists>r'. add_routes flog es r = Some (Inr r') \<and> router_has (set es \<union> E) r' \<and> ro_interfaces r' = ro_interfaces r"
  using assms
proof (induction es arbitrary: E r)
  case (Cons e es)
  obtain r1 where r1: "add_route flog (re_prefix e) (re_length e) (re_next_hop e) (re_interface e) r = Some (Inr r1)"
    "router_has (insert e E) r1" "ro_interfaces r1 = ro_interfaces r"
    using add_route_has [of E r e flog] Cons.prems by auto
  then show ?case
    using Cons.IH [OF r1(2)] Cons.prems by auto
qed simp

definition router_sends :: "IPv4Datagram \<Rightarrow> 32 word \<Rightarrow> size_t \<Rightarrow> Router \<Rightarrow> Router res" where
  "router_sends dgram next_hop i r =
     bind_res (Router_interface i r) (\<lambda>a.
     bind_res (send_datagram dgram next_hop (ani_interface a)) (\<lambda>s.
       Inr (r\<lparr>ro_interfaces := (ro_interfaces r)[i := a\<lparr>ani_interface := s\<rparr>]\<rparr>)))"

definition forwarded :: "IPv4Datagram \<Rightarrow> IPv4Datagram" where
  "forwarded dgram = dgram\<lparr>ipd_header := (ipd_header dgram)\<lparr>ih_ttl := ih_ttl (ipd_header dgram) - 1\<rparr>\<rparr>"

lemma rt_covers_route:
  assumes "fst x = (re_prefix e, route_end (re_prefix e) (re_length e))" and "prefix_ok (re_prefix e) (re_length e)"
  shows "rt_covers dst x \<longleftrightarrow> route_matches e dst"
  using assms prefix_covers_iff by (simp add: rt_covers_def route_matches_def)

lemma route_one_datagram_best:
  assumes has: "router_has E r" and ttl: "1 < ih_ttl (ipd_header dgram)" and e: "e \<in> E" "route_ok e"
    and match: "route_matches e (ih_dst (ipd_header dgram))"
    and best: "\<forall>f \<in> E. route_matches f (ih_dst (ipd_header dgram)) \<longrightarrow> re_length f \<le> re_length e"
  shows "route_one_datagram dgram r =
    Some (router_sends (forwarded dgram) (case re_next_hop e of Some a \<Rightarrow> a | None \<Rightarrow> ih_dst (ipd_header dgram))
      (re_interface e) r)"
proof -
  let ?dst = "ih_dst (ipd_header dgram)"
  have "route_spec_of e \<in> rt_spec ` set (ro_table r)"
    using has e(1) by (simp add: router_has_def)
  then obtain m where m: "m \<in> set (ro_table r)" "rt_spec m = route_spec_of e"
    by (metis imageE)
  then have fields: "fst (fst m) = re_prefix e" "rv_prefix_length (snd m) = re_length e" "rv_interface (snd m) = re_interface e"
    "rv_next_hop (snd m) = (case re_next_hop e of Some a \<Rightarrow> a | None \<Rightarrow> 0)"
    by (simp_all add: rt_spec_def route_spec_of_def)
  have inv: "rt_inv (ro_table r)"
    using has by (simp add: router_has_def)
  then have "fst m = (re_prefix e, route_end (re_prefix e) (re_length e))"
    using rt_invD(1) [OF inv m(1)] fields by (cases "fst m") (simp add: rt_entry_ok_def)
  then have "rt_covers ?dst m"
    using rt_covers_route match e(2) by (simp add: route_ok_def)
  moreover have "rv_prefix_length (snd x) \<le> rv_prefix_length (snd m)" if x: "x \<in> set (ro_table r)" "rt_covers ?dst x" for x
  proof -
    obtain f where f: "f \<in> E" "rt_spec x = route_spec_of f" "rt_covers ?dst x \<longleftrightarrow> route_matches f ?dst"
      using rt_entry_of_route [OF has x(1)] rt_covers_route by metis
    then show ?thesis
      using best x(2) fields(2) by (simp add: rt_spec_def route_spec_of_def)
  qed
  ultimately have "rt_route (ro_table r) ?dst = Some (Inr (rt_taken m))"
    using rt_route_longest [OF inv m(1)] by blast
  moreover have "ih_ttl (ipd_header dgram) \<noteq> 0" "ih_ttl (ipd_header dgram) - 1 \<noteq> 0"
    using ttl by auto
  moreover have "re_next_hop e \<noteq> Some 0"
    using e(2) by (simp add: route_ok_def)
  ultimately show ?thesis
    by (auto simp: route_one_datagram_def Let_def rt_taken_def fields router_sends_def forwarded_def split: option.splits)
qed

lemma route_one_datagram_unmatched:
  assumes has: "router_has E r" and ttl: "1 < ih_ttl (ipd_header dgram)"
    and none: "\<forall>f \<in> E. \<not> route_matches f (ih_dst (ipd_header dgram))"
  shows "route_one_datagram dgram r = Some (Inr r)"
proof -
  let ?dst = "ih_dst (ipd_header dgram)"
  have "\<not> rt_covers ?dst x" if "x \<in> set (ro_table r)" for x
    using rt_entry_of_route [OF has that] rt_covers_route none by metis
  then have "rt_route (ro_table r) ?dst = Some (Inr rt_none)"
    using rt_route_none has by (simp add: router_has_def)
  then show ?thesis
    by (simp add: route_one_datagram_def Let_def rt_none_def)
qed

text \<open>
  C8. A router whose routes were added from the outside in, that is no route encloses one that was
  added before it, forwards by the longest matching prefix. Whatever logarithm the platform computes,
  every call of \<^verbatim>\<open>add_route\<close> returns; afterwards a datagram whose time to live is more than one leaves
  with a time to live one less through the interface of the longest route that matches its destination,
  to that route's next hop or, when the route is direct, to the destination; and a datagram that no
  route matches is dropped. Routes are shorter than 32 bits and have no host bits.
\<close>

theorem router_longest_prefix:
  assumes "ro_table r = []" and "\<forall>e \<in> set es. route_ok e" and "sorted_wrt (\<lambda>e f. \<not> route_encloses f e) es"
    and "1 < ih_ttl (ipd_header dgram)"
  shows "\<exists>r'. add_routes flog es r = Some (Inr r') \<and> ro_interfaces r' = ro_interfaces r \<and>
    (\<forall>e \<in> set es. route_matches e (ih_dst (ipd_header dgram)) \<and>
        (\<forall>f \<in> set es. route_matches f (ih_dst (ipd_header dgram)) \<longrightarrow> re_length f \<le> re_length e) \<longrightarrow>
      route_one_datagram dgram r' =
        Some (router_sends (forwarded dgram)
          (case re_next_hop e of Some a \<Rightarrow> a | None \<Rightarrow> ih_dst (ipd_header dgram)) (re_interface e) r')) \<and>
    ((\<forall>e \<in> set es. \<not> route_matches e (ih_dst (ipd_header dgram))) \<longrightarrow> route_one_datagram dgram r' = Some (Inr r'))"
proof -
  have "router_has {} r"
    using assms(1) by (simp add: router_has_def rt_inv_def)
  then obtain r' where r': "add_routes flog es r = Some (Inr r')" "router_has (set es) r'" "ro_interfaces r' = ro_interfaces r"
    using add_routes_has [of "{}" r es flog] assms(2,3) by auto
  then show ?thesis
    using route_one_datagram_best [OF r'(2) assms(4)] route_one_datagram_unmatched [OF r'(2) assms(4)] assms(2)
    by (intro exI [of _ r']) blast
qed

definition router_example :: Router where
  "router_example =
     \<lparr>ro_interfaces = [AsyncNetworkInterface_of (NetworkInterface_init (MAC 2 0 0 0 0 1) 0x0A000001),
                      AsyncNetworkInterface_of (NetworkInterface_init (MAC 2 0 0 0 0 2) 0xC0A80001)],
      ro_table = []\<rparr>"

definition default_route_example :: route where
  "default_route_example = \<lparr>re_prefix = 0, re_length = 0, re_next_hop = Some 0xC0A80002, re_interface = 1\<rparr>"

definition wide_route_example :: route where
  "wide_route_example = \<lparr>re_prefix = 0x0A000000, re_length = 8, re_next_hop = None, re_interface = 0\<rparr>"

definition narrow_route_example :: route where
  "narrow_route_example = \<lparr>re_prefix = 0x0A010000, re_length = 16, re_next_hop = Some 0xC0A80003, re_interface = 1\<rparr>"

definition routed_example :: IPv4Datagram where
  "routed_example = dgram_example\<lparr>ipd_header := (ipd_header dgram_example)\<lparr>ih_dst := 0x0A020001, ih_ttl := 64\<rparr>\<rparr>"

lemmas route_example_defs = default_route_example_def wide_route_example_def narrow_route_example_def

theorem router_longest_prefix_witness:
  "\<exists>r'. add_routes (\<lambda>_. 0) [default_route_example, wide_route_example, narrow_route_example] router_example = Some (Inr r') \<and>
    route_one_datagram routed_example r' = Some (router_sends (forwarded routed_example) 0x0A020001 0 r')"
proof -
  let ?es = "[default_route_example, wide_route_example, narrow_route_example]"
  have "\<forall>e \<in> set ?es. route_ok e"
    by (simp add: route_ok_def prefix_ok_def route_example_defs)
  moreover have "sorted_wrt (\<lambda>e f. \<not> route_encloses f e) ?es"
    by (simp add: route_encloses_def route_matches_def route_example_defs)
  moreover have "1 < ih_ttl (ipd_header routed_example)" "ro_table router_example = []"
    by (simp_all add: routed_example_def router_example_def)
  moreover have "route_matches wide_route_example (ih_dst (ipd_header routed_example)) \<and>
      (\<forall>f \<in> set ?es. route_matches f (ih_dst (ipd_header routed_example)) \<longrightarrow> re_length f \<le> re_length wide_route_example)"
    by (simp add: routed_example_def route_matches_def route_example_defs)
  ultimately show ?thesis
    using router_longest_prefix [of router_example ?es routed_example "\<lambda>_. 0"]
    by (auto simp: wide_route_example_def routed_example_def)
qed

section \<open>Tables that are not built from the outside in\<close>

text \<open>
  A route that encloses an earlier one is not linked from it. The longest route for the datagram is then
  passed over, here for the default route.
\<close>

definition table_after :: "Router res option \<Rightarrow> rt_table" where
  "table_after m = (case m of Some (Inr r) \<Rightarrow> ro_table r | _ \<Rightarrow> [])"

lemma router_enclosing_route_lost:
  "rt_route (table_after (add_routes (\<lambda>_. 0) [default_route_example, narrow_route_example, wide_route_example] router_example))
     0x0A020001 =
   Some (Inr \<lparr>rb_interface = 1, rb_prefix_length = 0, rb_next_hop = 0xC0A80002, rb_saved = True\<rparr>)"
  by code_simp

text \<open>Without a default route the same order leaves a link to the past-the-end iterator.\<close>

lemma router_enclosing_route_undefined:
  "rt_route (table_after (add_routes (\<lambda>_. 0) [narrow_route_example, wide_route_example] router_example)) 0x0A020001 =
   Some (Inl UndefinedBehaviour)"
  by code_simp

text \<open>Host bits of a route are kept in its key: addresses below them are not matched.\<close>

lemma router_host_bits:
  "rt_route (table_after (add_routes (\<lambda>_. 0)
     [\<lparr>re_prefix = 0x801E4CFF, re_length = 16, re_next_hop = None, re_interface = 0\<rparr>] router_example)) 0x801E0005 =
   Some (Inr rt_none)"
  by code_simp

text \<open>Two routes to hosts, the greater address first: the second call does not return.\<close>

lemma rt_forward_stays:
  assumes "rt_forward log_length k it t = Some t'" and "log_length \<le> 1" and "fst j = snd j" and "snd k < snd j"
    and "rt_lower_bound (snd j, - 1) t = Some j"
  shows "it \<noteq> Some j"
  using assms(1) assms(2-)
proof (induction rule: rt_forward.raw_induct [rotated, consumes 1])
  case (1 rt_forward log_length k it t t')
  show ?case
  proof
    assume "it = Some j"
    have relink: "rt_set_nearest j k t = rt_relink k {j} t"
      using rt_set_nearest_relink [of j k "{}" t] by simp
    have bounds: "\<not> snd j \<le> snd k" "\<not> 1 < log_length"
      using 1(3,5) by auto
    have "rt_forward log_length k (Some j) (rt_relink k {j} t) = Some t'"
      using 1(2,4,6) bounds by (simp add: \<open>it = Some j\<close> relink Let_def)
    then show False
      using 1(1) [of log_length k "Some j" "rt_relink k {j} t" t'] 1(3-6) by simp
  qed
qed

lemma add_route_host_diverges:
  assumes "ro_table r = [((q, q), v)]" and "p < q" and "flog 1 = 0"
  shows "add_route flog p 32 next_hop i r = None"
proof -
  let ?v = "\<lparr>rv_nearest_prefix = Some (q, q), rv_interface = i,
    rv_next_hop = case next_hop of Some a \<Rightarrow> a | None \<Rightarrow> 0, rv_prefix_length = 32\<rparr>"
  let ?t = "[((p, p), ?v), ((q, q), v)]"
  have e: "route_end p 32 = p"
    by (simp add: route_end_def Let_def)
  have "rt_lower_bound (q, - 1) ?t = Some (q, q)"
    using assms(2) by (auto simp: rt_lower_bound_def rt_begin_def cmp_map_def)
  then have "rt_forward 0 (p, p) (Some (q, q)) ?t = None"
    using rt_forward_stays [of 0 "(p, p)" "Some (q, q)" ?t _ "(q, q)"] assms(2)
    by (cases "rt_forward 0 (p, p) (Some (q, q)) ?t") auto
  then show ?thesis
    using assms e by (auto simp: add_route_def Let_def rt_insert_def rt_begin_def cmp_map_def rt_next_def)
qed

end
