(* ===== verification/Sponge_Socket.thy ===== *)
theory Sponge_Socket
  imports Adapters TCP_Pair Event_Loop
begin

text \<open>
  \<^verbatim>\<open>tcp_helpers/tcp_sponge_socket.hh\<close> and \<^verbatim>\<open>tcp_sponge_socket.cc\<close>: the socket that runs a connection in an
  event loop between a datagram adapter and a pipe to the application.

  The template parameter \<^verbatim>\<open>AdaptT\<close> is a record of its operations. The kernel is a record of operations on
  a state of its own: what devices and the pipe deliver, what the pipe takes, what \<^verbatim>\<open>poll\<close> and the clock
  answer, and what the owner's thread has stored in the abort flag. The thread that runs the loop is
  modelled; the owner appears through the kernel.
\<close>

section \<open>State\<close>

record ('a, 'w) AdaptT =
  ad_read :: "'w \<Rightarrow> 'a \<Rightarrow> (TCPSegment option \<times> 'a) res"
  ad_write :: "TCPSegment \<Rightarrow> 'a \<Rightarrow> 'a res"
  ad_tick :: "64 word \<Rightarrow> 'a \<Rightarrow> 'a"
  ad_set_listening :: "bool \<Rightarrow> 'a \<Rightarrow> 'a"
  ad_set_config :: "FdAdapterConfig \<Rightarrow> 'a \<Rightarrow> 'a"
  ad_written :: "'a \<Rightarrow> nat"
  ad_at_eof :: "'w \<Rightarrow> bool"

record ('x, 'w) kernel =
  k_receive :: "'x \<Rightarrow> 'w \<times> 'x"
  k_read :: "'x \<Rightarrow> bytes option \<times> 'x"
  k_writev :: "bytes \<Rightarrow> 'x \<Rightarrow> nat option \<times> 'x"
  k_shutdown :: "'x \<Rightarrow> bool \<times> 'x"
  k_poll :: "pollfd list \<Rightarrow> int \<Rightarrow> 'x \<Rightarrow> poll_answer \<times> 'x"
  k_timestamp :: "'x \<Rightarrow> 64 word \<times> 'x"
  k_abort :: "'x \<Rightarrow> bool \<times> 'x"

text \<open>
  \<open>so_pipe_in\<close> and \<open>so_pipe_out\<close> are the bytes that went through the pipe from and to the application.
\<close>

record ('a, 'x) TCPSpongeSocket =
  so_thread_data :: FDWrapper
  so_datagram_adapter :: 'a
  so_adapter_fd :: FDWrapper
  so_tcp :: "TCPConnection option"
  so_inbound_shutdown :: bool
  so_outbound_shutdown :: bool
  so_fully_acked :: bool
  so_pipe_in :: bytes
  so_pipe_out :: bytes
  so_world :: 'x

definition TCPSpongeSocket_init :: "FDWrapper \<Rightarrow> FDWrapper \<Rightarrow> 'a \<Rightarrow> 'x \<Rightarrow> ('a, 'x) TCPSpongeSocket" where
  "TCPSpongeSocket_init thread_data adapter_fd datagram_interface x =
     \<lparr>so_thread_data = thread_data, so_datagram_adapter = datagram_interface, so_adapter_fd = adapter_fd,
      so_tcp = None, so_inbound_shutdown = False, so_outbound_shutdown = False, so_fully_acked = False,
      so_pipe_in = [], so_pipe_out = [], so_world = x\<rparr>"

text \<open>Descriptor 0 is the adapter's, descriptor 1 the pipe's.\<close>

definition so_fds :: "('a, 'w) AdaptT \<Rightarrow> ('a, 'x) TCPSpongeSocket \<Rightarrow> nat \<Rightarrow> FDWrapper" where
  "so_fds A s n =
     (if n = 0 then (so_adapter_fd s)\<lparr>fd_write_count := of_nat (ad_written A (so_datagram_adapter s))\<rparr>
      else so_thread_data s)"

section \<open>The four rules\<close>

text \<open>Rule 1: read from the filtered packet stream into the connection.\<close>

definition rule1_callback ::
  "('a, 'w) AdaptT \<Rightarrow> ('x, 'w) kernel \<Rightarrow> (sr_map \<Rightarrow> size_t) \<Rightarrow> ('a, 'x) TCPSpongeSocket \<Rightarrow>
     ('a, 'x) TCPSpongeSocket res" where
  "rule1_callback A K end_key s =
     (case so_tcp s of
        None \<Rightarrow> Inl UndefinedBehaviour
      | Some tcp \<Rightarrow>
          (case k_receive K (so_world s) of
             (w, x) \<Rightarrow>
               bind_res (ad_read A w (so_datagram_adapter s)) (\<lambda>(seg, a).
                 let fd = register_read (so_adapter_fd s);
                     s1 = s\<lparr>so_datagram_adapter := a, so_world := x,
                            so_adapter_fd := (if ad_at_eof A w then fd\<lparr>fd_eof := True\<rparr> else fd)\<rparr>
                 in bind_res (case seg of
                                Some sg \<Rightarrow> TCPConnection_segment_received end_key sg tcp
                              | None \<Rightarrow> Inr tcp) (\<lambda>tcp'.
                      Inr (s1\<lparr>so_tcp := Some tcp',
                              so_fully_acked := so_fully_acked s1 \<or>
                                (fd_eof (so_thread_data s1) \<and> TCPConnection_bytes_in_flight tcp' = 0)\<rparr>)))))"

definition rule1_interest :: "('a, 'x) TCPSpongeSocket \<Rightarrow> bool" where
  "rule1_interest s = (case so_tcp s of Some tcp \<Rightarrow> TCPConnection_active tcp | None \<Rightarrow> False)"

text \<open>Rule 2: read from the pipe into the outbound buffer.\<close>

definition rule2_cancel :: "('a, 'x) TCPSpongeSocket \<Rightarrow> ('a, 'x) TCPSpongeSocket res" where
  "rule2_cancel s =
     (case so_tcp s of
        None \<Rightarrow> Inl UndefinedBehaviour
      | Some tcp \<Rightarrow>
          bind_res (TCPConnection_end_input_stream tcp) (\<lambda>tcp'.
            Inr (s\<lparr>so_tcp := Some tcp', so_outbound_shutdown := True\<rparr>)))"

definition rule2_callback :: "('x, 'w) kernel \<Rightarrow> ('a, 'x) TCPSpongeSocket \<Rightarrow> ('a, 'x) TCPSpongeSocket res" where
  "rule2_callback K s =
     (case so_tcp s of
        None \<Rightarrow> Inl UndefinedBehaviour
      | Some tcp \<Rightarrow>
          (case k_read K (so_world s) of
             (answer, x) \<Rightarrow>
               bind_res (FileDescriptor_read (TCPConnection_remaining_outbound_capacity tcp) answer (so_thread_data s))
                 (\<lambda>(data, fd).
                 bind_res (TCPConnection_write data tcp) (\<lambda>(amount_written, tcp').
                   if amount_written \<noteq> length data then Inl RuntimeError
                   else
                     let s1 = s\<lparr>so_thread_data := fd, so_world := x, so_tcp := Some tcp',
                                so_pipe_in := so_pipe_in s @ data\<rparr>
                     in if fd_eof fd then rule2_cancel s1 else Inr s1))))"

definition rule2_interest :: "('a, 'x) TCPSpongeSocket \<Rightarrow> bool" where
  "rule2_interest s =
     (case so_tcp s of
        Some tcp \<Rightarrow> TCPConnection_active tcp \<and> \<not> so_outbound_shutdown s \<and>
                    TCPConnection_remaining_outbound_capacity tcp > 0
      | None \<Rightarrow> False)"

text \<open>
  Rule 3: read from the inbound buffer into the pipe. The stream is a reference into the connection's
  receiver. The kernel's state for the write is its own state and the bytes that went through the pipe.
\<close>

definition so_writev :: "('x, 'w) kernel \<Rightarrow> bytes \<Rightarrow> bytes \<times> 'x \<Rightarrow> nat option \<times> bytes \<times> 'x" where
  "so_writev K bs p =
     (case k_writev K bs (snd p) of
        (answer, x) \<Rightarrow> (answer, (case answer of Some n \<Rightarrow> fst p @ take n bs | None \<Rightarrow> fst p), x))"

definition rule3_callback :: "('x, 'w) kernel \<Rightarrow> ('a, 'x) TCPSpongeSocket \<Rightarrow> ('a, 'x) TCPSpongeSocket res" where
  "rule3_callback K s =
     (case so_tcp s of
        None \<Rightarrow> Inl UndefinedBehaviour
      | Some tcp \<Rightarrow>
          let inbound = TCPConnection_inbound_stream tcp;
              amount_to_write = min 65536 (ByteStream_buffer_size inbound);
              buffer = ByteStream_peek_output amount_to_write inbound
          in bind_res (FileDescriptor_write (so_writev K) (BufferViewList_of_string buffer) False
                         (so_thread_data s) (so_pipe_out s, so_world s)) (\<lambda>(bytes_written, fd, out, x).
             bind_res (ByteStream_pop_output bytes_written inbound) (\<lambda>inbound'.
               let tcp' = tcp\<lparr>cn_receiver := TCPReceiver_set_stream_out inbound' (cn_receiver tcp)\<rparr>;
                   s1 = s\<lparr>so_thread_data := fd, so_pipe_out := out, so_world := x, so_tcp := Some tcp'\<rparr>
               in if ByteStream_eof inbound' \<or> ByteStream_error inbound'
                  then case k_shutdown K x of
                         (ok, x') \<Rightarrow>
                           bind_res (Socket_shutdown SHUT_WR ok fd) (\<lambda>fd'.
                             Inr (s1\<lparr>so_thread_data := fd', so_world := x', so_inbound_shutdown := True\<rparr>))
                  else Inr s1)))"

definition rule3_interest :: "('a, 'x) TCPSpongeSocket \<Rightarrow> bool" where
  "rule3_interest s =
     (case so_tcp s of
        Some tcp \<Rightarrow>
          (let inbound = TCPConnection_inbound_stream tcp
           in \<not> ByteStream_buffer_empty inbound \<or>
              (ByteStream_eof inbound \<or> ByteStream_error inbound) \<and> \<not> so_inbound_shutdown s)
      | None \<Rightarrow> False)"

text \<open>Rule 4: send the connection's segments as datagrams.\<close>

definition rule4_callback :: "('a, 'w) AdaptT \<Rightarrow> ('a, 'x) TCPSpongeSocket \<Rightarrow> ('a, 'x) TCPSpongeSocket res" where
  "rule4_callback A s =
     (case so_tcp s of
        None \<Rightarrow> Inl UndefinedBehaviour
      | Some tcp \<Rightarrow>
          bind_res (write_segments (ad_write A) (cn_segments_out tcp) (so_datagram_adapter s)) (\<lambda>a.
            Inr (s\<lparr>so_datagram_adapter := a, so_tcp := Some (tcp\<lparr>cn_segments_out := []\<rparr>)\<rparr>)))"

definition rule4_interest :: "('a, 'x) TCPSpongeSocket \<Rightarrow> bool" where
  "rule4_interest s = (case so_tcp s of Some tcp \<Rightarrow> cn_segments_out tcp \<noteq> [] | None \<Rightarrow> False)"

definition so_rules ::
  "('a, 'w) AdaptT \<Rightarrow> ('x, 'w) kernel \<Rightarrow> (sr_map \<Rightarrow> size_t) \<Rightarrow> ('a, 'x) TCPSpongeSocket Rule list" where
  "so_rules A K end_key =
     add_rule 0 Out (rule4_callback A) rule4_interest Inr
       (add_rule 1 Out (rule3_callback K) rule3_interest Inr
         (add_rule 1 In (rule2_callback K) rule2_interest rule2_cancel
           (add_rule 0 In (rule1_callback A K end_key) rule1_interest Inr [])))"

definition initialize_TCP :: "32 word \<Rightarrow> TCPConfig \<Rightarrow> ('a, 'x) TCPSpongeSocket \<Rightarrow> ('a, 'x) TCPSpongeSocket" where
  "initialize_TCP random config s = s\<lparr>so_tcp := Some (TCPConnection_init random config)\<rparr>"

section \<open>The loop and the calls of the owner\<close>

definition TCP_TICK_MS :: int where
  "TCP_TICK_MS = 10"

definition so_poll ::
  "('x, 'w) kernel \<Rightarrow> pollfd list \<Rightarrow> int \<Rightarrow> ('a, 'x) TCPSpongeSocket \<Rightarrow> poll_answer \<times> ('a, 'x) TCPSpongeSocket" where
  "so_poll K ps timeout s = (case k_poll K ps timeout (so_world s) of (ans, x) \<Rightarrow> (ans, s\<lparr>so_world := x\<rparr>))"

definition so_tick ::
  "('a, 'w) AdaptT \<Rightarrow> 64 word \<Rightarrow> ('a, 'x) TCPSpongeSocket \<Rightarrow> ('a, 'x) TCPSpongeSocket res" where
  "so_tick A ms s =
     (case so_tcp s of
        None \<Rightarrow> Inl BadOptionalAccess
      | Some tcp \<Rightarrow>
          bind_res (TCPConnection_tick ms tcp) (\<lambda>tcp'.
            Inr (s\<lparr>so_tcp := Some tcp', so_datagram_adapter := ad_tick A ms (so_datagram_adapter s)\<rparr>)))"

text \<open>The condition may throw, as the state of an empty optional does.\<close>

partial_function (option) tcp_loop ::
  "('a, 'w) AdaptT \<Rightarrow> ('x, 'w) kernel \<Rightarrow> (('a, 'x) TCPSpongeSocket \<Rightarrow> bool res) \<Rightarrow> 64 word \<Rightarrow>
     ('a, 'x) TCPSpongeSocket Rule list \<Rightarrow> ('a, 'x) TCPSpongeSocket \<Rightarrow>
     (('a, 'x) TCPSpongeSocket Rule list \<times> ('a, 'x) TCPSpongeSocket) res option" where
  "tcp_loop A K condition base_time rules s =
     (case condition s of
        Inl e \<Rightarrow> Some (Inl e)
      | Inr go \<Rightarrow>
          if \<not> go then Some (Inr (rules, s))
          else
            case wait_next_event (so_fds A) (so_poll K) TCP_TICK_MS rules s of
              Inl e \<Rightarrow> Some (Inl e)
            | Inr (ret, rules1, s1) \<Rightarrow>
                (case (if ret = Exit then (True, so_world s1) else k_abort K (so_world s1)) of
                   (stop, x) \<Rightarrow>
                     let s2 = s1\<lparr>so_world := x\<rparr>
                     in if stop then Some (Inr (rules1, s2))
                        else
                          case so_tcp s2 of
                            None \<Rightarrow> Some (Inl BadOptionalAccess)
                          | Some tcp \<Rightarrow>
                              if TCPConnection_active tcp then
                                (case k_timestamp K (so_world s2) of
                                   (next_time, x') \<Rightarrow>
                                     (case so_tick A (next_time - base_time) (s2\<lparr>so_world := x'\<rparr>) of
                                        Inl e \<Rightarrow> Some (Inl e)
                                      | Inr s3 \<Rightarrow> tcp_loop A K condition next_time rules1 s3))
                              else tcp_loop A K condition base_time rules1 s2))"

definition so_run ::
  "('a, 'w) AdaptT \<Rightarrow> ('x, 'w) kernel \<Rightarrow> (('a, 'x) TCPSpongeSocket \<Rightarrow> bool res) \<Rightarrow>
     ('a, 'x) TCPSpongeSocket Rule list \<Rightarrow> ('a, 'x) TCPSpongeSocket \<Rightarrow>
     (('a, 'x) TCPSpongeSocket Rule list \<times> ('a, 'x) TCPSpongeSocket) res option" where
  "so_run A K condition rules s =
     (case k_timestamp K (so_world s) of
        (base_time, x) \<Rightarrow> tcp_loop A K condition base_time rules (s\<lparr>so_world := x\<rparr>))"

definition so_in_state :: "State list \<Rightarrow> ('a, 'x) TCPSpongeSocket \<Rightarrow> bool res" where
  "so_in_state sts s =
     (case so_tcp s of
        None \<Rightarrow> Inl UndefinedBehaviour
      | Some tcp \<Rightarrow>
          bind_res (TCPConnection_state tcp) (\<lambda>st. Inr (list_ex (\<lambda>x. TCPState_eq st (TCPState_of_State x)) sts)))"

definition TCPSpongeSocket_connect ::
  "('a, 'w) AdaptT \<Rightarrow> ('x, 'w) kernel \<Rightarrow> (sr_map \<Rightarrow> size_t) \<Rightarrow> 32 word \<Rightarrow> TCPConfig \<Rightarrow> FdAdapterConfig \<Rightarrow>
     ('a, 'x) TCPSpongeSocket \<Rightarrow> (('a, 'x) TCPSpongeSocket Rule list \<times> ('a, 'x) TCPSpongeSocket) res option" where
  "TCPSpongeSocket_connect A K end_key random c_tcp c_ad s =
     (if so_tcp s \<noteq> None then Some (Inl RuntimeError)
      else
        let s1 = initialize_TCP random c_tcp s;
            s2 = s1\<lparr>so_datagram_adapter := ad_set_config A c_ad (so_datagram_adapter s1)\<rparr>
        in case TCPConnection_connect (TCPConnection_init random c_tcp) of
             Inl e \<Rightarrow> Some (Inl e)
           | Inr tcp \<Rightarrow>
               let s3 = s2\<lparr>so_tcp := Some tcp\<rparr>
               in case so_in_state [SYN_SENT] s3 of
                    Inl e \<Rightarrow> Some (Inl e)
                  | Inr ok \<Rightarrow>
                      if \<not> ok then Some (Inl RuntimeError)
                      else so_run A K (so_in_state [SYN_SENT]) (so_rules A K end_key) s3)"

definition listen_and_accept ::
  "('a, 'w) AdaptT \<Rightarrow> ('x, 'w) kernel \<Rightarrow> (sr_map \<Rightarrow> size_t) \<Rightarrow> 32 word \<Rightarrow> TCPConfig \<Rightarrow> FdAdapterConfig \<Rightarrow>
     ('a, 'x) TCPSpongeSocket \<Rightarrow> (('a, 'x) TCPSpongeSocket Rule list \<times> ('a, 'x) TCPSpongeSocket) res option" where
  "listen_and_accept A K end_key random c_tcp c_ad s =
     (if so_tcp s \<noteq> None then Some (Inl RuntimeError)
      else
        let s1 = initialize_TCP random c_tcp s;
            s2 = s1\<lparr>so_datagram_adapter := ad_set_listening A True (ad_set_config A c_ad (so_datagram_adapter s1))\<rparr>
        in so_run A K (so_in_state [LISTEN, SYN_RCVD, SYN_SENT]) (so_rules A K end_key) s2)"

text \<open>The thread's main function: the loop, then the connection is destroyed.\<close>

definition tcp_main ::
  "('a, 'w) AdaptT \<Rightarrow> ('x, 'w) kernel \<Rightarrow> ('a, 'x) TCPSpongeSocket Rule list \<Rightarrow> ('a, 'x) TCPSpongeSocket \<Rightarrow>
     ('a, 'x) TCPSpongeSocket res option" where
  "tcp_main A K rules s =
     (if so_tcp s = None then Some (Inl RuntimeError)
      else
        case so_run A K (\<lambda>_. Inr True) rules s of
          None \<Rightarrow> None
        | Some (Inl e) \<Rightarrow> Some (Inl e)
        | Some (Inr (rules', s')) \<Rightarrow>
            (case k_shutdown K (so_world s') of
               (ok, x) \<Rightarrow> Some (if ok then Inr (s'\<lparr>so_world := x, so_tcp := None\<rparr>) else Inl RuntimeError)))"

section \<open>The adapters and sockets of the library\<close>

definition udp_AdaptT :: "(TCPOverUDPSocketAdapter, Address \<times> bytes) AdaptT" where
  "udp_AdaptT =
     \<lparr>ad_read = TCPOverUDPSocketAdapter_read, ad_write = TCPOverUDPSocketAdapter_write, ad_tick = (\<lambda>_ a. a),
      ad_set_listening = (\<lambda>l a. a\<lparr>ua_base := set_listening l (ua_base a)\<rparr>),
      ad_set_config = (\<lambda>c a. a\<lparr>ua_base := (ua_base a)\<lparr>fa_cfg := c\<rparr>\<rparr>),
      ad_written = (\<lambda>a. length (ua_sock a)), ad_at_eof = (\<lambda>_. False)\<rparr>"

definition tun_AdaptT :: "(TCPOverIPv4OverTunFdAdapter, bytes) AdaptT" where
  "tun_AdaptT =
     \<lparr>ad_read = TCPOverIPv4OverTunFdAdapter_read, ad_write = TCPOverIPv4OverTunFdAdapter_write, ad_tick = (\<lambda>_ a. a),
      ad_set_listening = (\<lambda>l a. a\<lparr>ta_base := set_listening l (ta_base a)\<rparr>),
      ad_set_config = (\<lambda>c a. a\<lparr>ta_base := (ta_base a)\<lparr>fa_cfg := c\<rparr>\<rparr>),
      ad_written = (\<lambda>a. length (ta_tun a)), ad_at_eof = (\<lambda>bs. bs = [])\<rparr>"

definition eth_AdaptT :: "(TCPOverIPv4OverEthernetAdapter, bytes) AdaptT" where
  "eth_AdaptT =
     \<lparr>ad_read = TCPOverIPv4OverEthernetAdapter_read, ad_write = TCPOverIPv4OverEthernetAdapter_write,
      ad_tick = TCPOverIPv4OverEthernetAdapter_tick,
      ad_set_listening = (\<lambda>l a. a\<lparr>ea_base := set_listening l (ea_base a)\<rparr>),
      ad_set_config = (\<lambda>c a. a\<lparr>ea_base := (ea_base a)\<lparr>fa_cfg := c\<rparr>\<rparr>),
      ad_written = (\<lambda>a. length (ea_tap a)), ad_at_eof = (\<lambda>bs. bs = [])\<rparr>"

text \<open>The configurations of the two ready-made sockets; the random port is an argument.\<close>

definition ipv4 :: "8 word \<Rightarrow> 8 word \<Rightarrow> 8 word \<Rightarrow> 8 word \<Rightarrow> 32 word" where
  "ipv4 a b c d = push_bit 24 (ucast a) OR push_bit 16 (ucast b) OR push_bit 8 (ucast c) OR ucast d"

definition CS144TCPSocket_config :: "16 word \<Rightarrow> Address \<Rightarrow> TCPConfig \<times> FdAdapterConfig" where
  "CS144TCPSocket_config random_port address =
     (TCPConfig_default\<lparr>cfg_rt_timeout := 100\<rparr>,
      FdAdapterConfig_default\<lparr>fc_source := \<lparr>ad_ipv4_numeric = ipv4 169 254 144 9, ad_port = random_port\<rparr>,
        fc_destination := address\<rparr>)"

definition LOCAL_TAP_IP_ADDRESS :: "32 word" where
  "LOCAL_TAP_IP_ADDRESS = ipv4 169 254 10 9"

definition LOCAL_TAP_NEXT_HOP_ADDRESS :: "32 word" where
  "LOCAL_TAP_NEXT_HOP_ADDRESS = ipv4 169 254 10 1"

definition random_private_ethernet_address :: "(nat \<Rightarrow> byte) \<Rightarrow> EthernetAddress" where
  "random_private_ethernet_address random_device =
     MAC ((random_device 0 OR 0x02) AND 0xfe) (random_device 1) (random_device 2) (random_device 3)
       (random_device 4) (random_device 5)"

definition FullStackSocket_adapter :: "(nat \<Rightarrow> byte) \<Rightarrow> TCPOverIPv4OverEthernetAdapter" where
  "FullStackSocket_adapter random_device =
     TCPOverIPv4OverEthernetAdapter_init (random_private_ethernet_address random_device)
       \<lparr>ad_ipv4_numeric = LOCAL_TAP_IP_ADDRESS, ad_port = 0\<rparr> \<lparr>ad_ipv4_numeric = LOCAL_TAP_NEXT_HOP_ADDRESS, ad_port = 0\<rparr>"

definition FullStackSocket_config :: "16 word \<Rightarrow> Address \<Rightarrow> TCPConfig \<times> FdAdapterConfig" where
  "FullStackSocket_config random_port address =
     (TCPConfig_default\<lparr>cfg_rt_timeout := 100\<rparr>,
      FdAdapterConfig_default\<lparr>fc_source := \<lparr>ad_ipv4_numeric = LOCAL_TAP_IP_ADDRESS, ad_port = random_port\<rparr>,
        fc_destination := address\<rparr>)"

text \<open>
  The random address is private and not a group address, so it is never the broadcast address.
\<close>

lemma random_private_ethernet_address_unicast:
  "\<exists>a b c d e f. random_private_ethernet_address rnd = MAC a b c d e f \<and> bit a 1 \<and> \<not> bit a 0"
  by (simp add: random_private_ethernet_address_def bit_simps)

section \<open>The socket as an endpoint\<close>

text \<open>
  What the socket's state means as an endpoint: the connection is its connection, what came through the
  pipe is what was written and read, and the stream is only ended by shutting down outbound data.
\<close>

definition so_abs :: "('a, 'x) TCPSpongeSocket \<Rightarrow> endpoint \<Rightarrow> bool" where
  "so_abs s e \<longleftrightarrow>
     so_tcp s = Some (ep_conn e) \<and> ep_written e = so_pipe_in s \<and> ep_read e = so_pipe_out s \<and>
     (ep_ended e \<longrightarrow> so_outbound_shutdown s)"

text \<open>
  What a callback may find: a datagram that carries a segment the peer has sent, or nothing of ours,
  and no more data from the application than the sequence numbers can tell apart.
\<close>

definition so_env ::
  "('a, 'w) AdaptT \<Rightarrow> ('x, 'w) kernel \<Rightarrow> endpoint \<Rightarrow> ('a, 'x) TCPSpongeSocket \<Rightarrow> bool" where
  "so_env A K peer s \<longleftrightarrow>
     (\<forall>seg a. ad_read A (fst (k_receive K (so_world s))) (so_datagram_adapter s) = Inr (Some seg, a) \<longrightarrow>
        (\<exists>g \<in> set (ep_sent peer). tcp_same g seg)) \<and>
     (\<forall>data. fst (k_read K (so_world s)) = Some data \<longrightarrow> length (so_pipe_in s @ data) + 2 < 2 ^ 31)"

text \<open>
  An adapter with a history: it started as \<open>a0\<close>, and these are the segments written to it since, in this
  order. It may have read datagrams and seen time pass in between.
\<close>

inductive adapter_sent :: "('a, 'w) AdaptT \<Rightarrow> 'a \<Rightarrow> TCPSegment list \<Rightarrow> 'a \<Rightarrow> bool" for A a0 where
  new: "adapter_sent A a0 [] a0"
| get: "adapter_sent A a0 segs a \<Longrightarrow> ad_read A w a = Inr (seg, a') \<Longrightarrow> adapter_sent A a0 segs a'"
| tick: "adapter_sent A a0 segs a \<Longrightarrow> adapter_sent A a0 segs (ad_tick A ms a)"
| put: "adapter_sent A a0 segs a \<Longrightarrow> ad_write A seg a = Inr a' \<Longrightarrow> adapter_sent A a0 (segs @ [seg]) a'"

lemma adapter_sent_segments:
  "adapter_sent A a0 segs a \<Longrightarrow> write_segments (ad_write A) out a = Inr a' \<Longrightarrow> adapter_sent A a0 (segs @ out) a'"
proof (induction out arbitrary: segs a)
  case (Cons seg out)
  obtain a1 where a1: "ad_write A seg a = Inr a1" "write_segments (ad_write A) out a1 = Inr a'"
    using Cons.prems(2) by (auto simp: bind_res_eq_Inr)
  from Cons.IH [OF adapter_sent.put [OF Cons.prems(1) a1(1)] a1(2)] show ?case
    by simp
qed simp

text \<open>The socket with its adapter: the segments the endpoint has sent are those its adapter was given.\<close>

definition so_stands :: "('a, 'w) AdaptT \<Rightarrow> 'a \<Rightarrow> ('a, 'x) TCPSpongeSocket \<Rightarrow> endpoint \<Rightarrow> bool" where
  "so_stands A a0 s e \<longleftrightarrow> so_abs s e \<and> adapter_sent A a0 (ep_sent e) (so_datagram_adapter s)"

text \<open>Whenever the adapter accepts a segment from the kernel, the peer has sent it.\<close>

definition so_network :: "('a, 'w) AdaptT \<Rightarrow> ('x, 'w) kernel \<Rightarrow> 'a \<Rightarrow> endpoint \<Rightarrow> bool" where
  "so_network A K a0 peer \<longleftrightarrow>
     (\<forall>x segs a seg a'. adapter_sent A a0 segs a \<longrightarrow> ad_read A (fst (k_receive K x)) a = Inr (Some seg, a') \<longrightarrow>
        (\<exists>g \<in> set (ep_sent peer). tcp_same g seg))"

abbreviation ep_steps :: "(sr_map \<Rightarrow> size_t) \<Rightarrow> endpoint \<Rightarrow> endpoint \<Rightarrow> endpoint \<Rightarrow> bool" where
  "ep_steps end_key peer \<equiv> (ep_step end_key peer)\<^sup>*\<^sup>*"

lemma ep_steps_inv:
  assumes "ep_steps end_key f e e'" and "ep_inv e f" "ep_inv f e" and "end_key_ok end_key"
  shows "ep_inv e' f \<and> ep_inv f e'"
  using assms by (induction rule: rtranclp_induct) (auto dest: ep_inv_step)

lemma ep_steps_reachable:
  assumes "ep_steps end_key f e e'" and "pair_reachable end_key p (e, f)"
  shows "pair_reachable end_key p (e', f)"
  using assms
  by (induction rule: rtranclp_induct) (auto intro: pair_reachable.step pair_step.left)

text \<open>Only the call that ends the stream ends it.\<close>

lemma ended_kept:
  assumes inv: "ep_inv e f" "ep_inv f e" and key: "end_key_ok end_key"
  defines "c \<equiv> ep_conn e"
  shows "TCPConnection_tick ms c = Inr c' \<Longrightarrow> ep_ended (e\<lparr>ep_conn := c'\<rparr>) = ep_ended e"
    and "g \<in> set (ep_sent f) \<Longrightarrow> tcp_same g seg \<Longrightarrow> TCPConnection_segment_received end_key seg c = Inr c' \<Longrightarrow>
      ep_ended (e\<lparr>ep_conn := c'\<rparr>) = ep_ended e"
    and "\<not> ep_ended e \<Longrightarrow> length (ep_written e @ data) + 2 < 2 ^ 31 \<Longrightarrow> TCPConnection_write data c = Inr (n, c') \<Longrightarrow>
      \<not> ep_ended (e\<lparr>ep_conn := c'\<rparr>)"
proof -
  have cn: "cn_inv (ep_view e f) c" and T: "length (cv_peer (ep_view e f)) + 2 < 2 ^ 31"
    using inv by (auto simp: ep_inv_def c_def ep_view_def)
  have ended: "ep_ended (e\<lparr>ep_conn := c'\<rparr>) = ep_ended e" if "cn_inv (ep_view e f) c'" for c'
    using cn_invD(2) [OF that] by (simp add: ep_view_def)
  show "ep_ended (e\<lparr>ep_conn := c'\<rparr>) = ep_ended e" if "TCPConnection_tick ms c = Inr c'"
    using cn_inv_tick_op [OF cn, of ms] that ended by (auto simp: cn_ok_def)
  show "ep_ended (e\<lparr>ep_conn := c'\<rparr>) = ep_ended e"
    if "g \<in> set (ep_sent f)" "tcp_same g seg" "TCPConnection_segment_received end_key seg c = Inr c'"
  proof -
    have "cn_seg_ok (ep_view f e) seg"
      using inv(2) that cn_seg_ok_same by (auto simp: ep_inv_def)
    then obtain k where "tx_seg_ok (cv_peer (ep_view e f)) (cv_peer_ended (ep_view e f)) (cv_peer_isn (ep_view e f)) k seg"
      by (auto simp: cn_seg_ok_def ep_view_def)
    from cn_inv_segment_received [OF cn key T this] show ?thesis
      using that(3) ended by (auto simp: cn_ok_def)
  qed
  show "\<not> ep_ended (e\<lparr>ep_conn := c'\<rparr>)"
    if "\<not> ep_ended e" "length (ep_written e @ data) + 2 < 2 ^ 31" "TCPConnection_write data c = Inr (n, c')"
  proof -
    have "cn_inv ((ep_view e f)\<lparr>cv_written := cv_written (ep_view e f) @ take n data\<rparr>) c'"
      using cn_inv_write [OF cn, of data] that by (auto simp: ep_view_def)
    from cn_invD(2) [OF this] that(1) show ?thesis
      by (simp add: ep_view_def)
  qed
qed

lemma rule1_refines:
  assumes "so_stands A a0 s e" and inv: "ep_inv e f" "ep_inv f e" and key: "end_key_ok end_key"
    and env: "so_network A K a0 f" and step: "rule1_callback A K end_key s = Inr s'"
  shows "\<exists>e'. ep_steps end_key f e e' \<and> so_stands A a0 s' e'"
proof -
  have tcp: "so_tcp s = Some (ep_conn e)" and sent: "adapter_sent A a0 (ep_sent e) (so_datagram_adapter s)"
    using assms(1) by (simp_all add: so_stands_def so_abs_def)
  obtain w x where w: "k_receive K (so_world s) = (w, x)"
    by fastforce
  obtain seg a where a: "ad_read A w (so_datagram_adapter s) = Inr (seg, a)"
    using step tcp w by (auto simp: rule1_callback_def bind_res_eq_Inr)
  show ?thesis
  proof (cases seg)
    case None
    then have "so_stands A a0 s' e"
      using step tcp w a assms(1) adapter_sent.get [OF sent a]
      by (auto simp: rule1_callback_def so_stands_def so_abs_def Let_def)
    then show ?thesis
      by blast
  next
    case (Some sg)
    then obtain c where c: "TCPConnection_segment_received end_key sg (ep_conn e) = Inr c"
      and s': "so_tcp s' = Some c" "so_pipe_in s' = so_pipe_in s" "so_pipe_out s' = so_pipe_out s"
        "so_outbound_shutdown s' = so_outbound_shutdown s" "so_datagram_adapter s' = a"
      using step tcp w a by (auto simp: rule1_callback_def Let_def bind_res_eq_Inr)
    obtain g where g: "g \<in> set (ep_sent f)" "tcp_same g sg"
      using env sent a Some w unfolding so_network_def by (metis fst_conv)
    have "ep_step end_key f e (e\<lparr>ep_conn := c\<rparr>)"
      using g c by (rule ep_step.deliver)
    moreover have "so_stands A a0 s' (e\<lparr>ep_conn := c\<rparr>)"
      using ended_kept(2) [OF inv key g c] s' assms(1) adapter_sent.get [OF sent a] by (simp add: so_stands_def so_abs_def)
    ultimately show ?thesis
      by blast
  qed
qed

lemma rule2_cancel_refines:
  assumes "so_stands A a0 s e" and "rule2_cancel s = Inr s'"
  shows "\<exists>e'. ep_step end_key f e e' \<and> so_stands A a0 s' e'"
proof -
  obtain c where c: "TCPConnection_end_input_stream (ep_conn e) = Inr c"
    and s': "s' = s\<lparr>so_tcp := Some c, so_outbound_shutdown := True\<rparr>"
    using assms by (auto simp: rule2_cancel_def so_stands_def so_abs_def bind_res_eq_Inr)
  have "ep_step end_key f e (e\<lparr>ep_conn := c\<rparr>)"
    using c by (rule ep_step.end_input)
  moreover have "so_stands A a0 s' (e\<lparr>ep_conn := c\<rparr>)"
    using assms(1) s' by (simp add: so_stands_def so_abs_def)
  ultimately show ?thesis
    by blast
qed

lemma rule2_refines:
  assumes "so_stands A a0 s e" and inv: "ep_inv e f" "ep_inv f e" and key: "end_key_ok end_key"
    and small: "length (so_pipe_in s') + 2 < 2 ^ 31"
    and going: "\<not> so_outbound_shutdown s" and step: "rule2_callback K s = Inr s'"
  shows "\<exists>e'. ep_steps end_key f e e' \<and> so_stands A a0 s' e'"
proof -
  have tcp: "so_tcp s = Some (ep_conn e)" and open_stream: "\<not> ep_ended e"
    using assms(1) going by (auto simp: so_stands_def so_abs_def)
  obtain answer x where answer: "k_read K (so_world s) = (answer, x)"
    by fastforce
  obtain data fd c where data: "FileDescriptor_read (TCPConnection_remaining_outbound_capacity (ep_conn e)) answer
      (so_thread_data s) = Inr (data, fd)"
    and c: "TCPConnection_write data (ep_conn e) = Inr (length data, c)"
    and s': "s' = (s\<lparr>so_thread_data := fd, so_world := x, so_tcp := Some c, so_pipe_in := so_pipe_in s @ data\<rparr>) \<or>
      rule2_cancel (s\<lparr>so_thread_data := fd, so_world := x, so_tcp := Some c, so_pipe_in := so_pipe_in s @ data\<rparr>) = Inr s'"
    (is "s' = ?s \<or> _")
    using step tcp answer by (auto simp: rule2_callback_def bind_res_eq_Inr Let_def split: if_splits)
  have "so_pipe_in s' = so_pipe_in s @ data"
    using s' by (auto simp: rule2_cancel_def bind_res_eq_Inr)
  then have vol: "length (ep_written e @ data) + 2 < 2 ^ 31"
    using small assms(1) by (simp add: so_stands_def so_abs_def)
  let ?e = "e\<lparr>ep_conn := c, ep_written := ep_written e @ data\<rparr>"
  have 1: "ep_step end_key f e ?e"
    using ep_step.write_data [OF open_stream vol c] by simp
  have 2: "so_stands A a0 ?s ?e"
    using ended_kept(3) [OF inv key open_stream vol c] assms(1) by (simp add: so_stands_def so_abs_def)
  show ?thesis
    using s' 1 2 rule2_cancel_refines [OF 2, of s' end_key f] by (auto intro: rtranclp.rtrancl_into_rtrancl)
qed

text \<open>Peeking and popping what the pipe took is a read of the stream.\<close>

lemma peek_pop_read:
  assumes "ByteStream_pop_output n b = Inr b'" and "n \<le> m" and "n \<le> length (ByteStream_peek_output m b)"
  shows "ByteStream_read n b = Inr (take n (ByteStream_peek_output m b), b')"
  using assms by (simp add: ByteStream_read_def Let_def ByteStream_peek_output_def min_def)

lemma rule3_refines:
  assumes "so_stands A a0 s e" and step: "rule3_callback K s = Inr s'"
  shows "\<exists>e'. ep_step end_key f e e' \<and> so_stands A a0 s' e'"
proof -
  let ?b = "TCPConnection_inbound_stream (ep_conn e)"
  let ?m = "min 65536 (ByteStream_buffer_size ?b)"
  let ?buf = "ByteStream_peek_output ?m ?b"
  have tcp: "so_tcp s = Some (ep_conn e)"
    using assms(1) by (simp add: so_stands_def so_abs_def)
  obtain n fd out x b' where wr: "FileDescriptor_write (so_writev K) (BufferViewList_of_string ?buf) False
      (so_thread_data s) (so_pipe_out s, so_world s) = Inr (n, fd, out, x)"
    and pop: "ByteStream_pop_output n ?b = Inr b'"
    and s': "so_tcp s' = Some ((ep_conn e)\<lparr>cn_receiver := TCPReceiver_set_stream_out b' (cn_receiver (ep_conn e))\<rparr>)"
      "so_pipe_out s' = out" "so_pipe_in s' = so_pipe_in s" "so_outbound_shutdown s' = so_outbound_shutdown s"
      "so_datagram_adapter s' = so_datagram_adapter s"
    using step tcp
    by (auto simp: rule3_callback_def Let_def bind_res_eq_Inr split: if_splits prod.splits)
  have n: "n \<le> length ?buf" "so_writev K ?buf (so_pipe_out s, so_world s) = (Some n, out, x)"
    using FileDescriptor_write_once [OF wr] by (auto simp: BufferViewList_of_string_def)
  then have out: "out = so_pipe_out s @ take n ?buf"
    by (auto simp: so_writev_def split: prod.splits option.splits)
  have "n \<le> ?m"
    using n(1) by (simp add: ByteStream_peek_output_def)
  then have "TCPReceiver_read n (cn_receiver (ep_conn e)) =
      Inr (take n ?buf, TCPReceiver_set_stream_out b' (cn_receiver (ep_conn e)))"
    using peek_pop_read [OF pop _ n(1)] by (simp add: TCPReceiver_read_def TCPConnection_inbound_stream_def)
  from ep_step.read_data [OF this, of end_key f] show ?thesis
    using s' out assms(1) by (fastforce simp: so_stands_def so_abs_def)
qed

lemma rule4_refines:
  assumes "so_stands A a0 s e" and step: "rule4_callback A s = Inr s'"
  shows "\<exists>e'. ep_step end_key f e e' \<and> so_stands A a0 s' e'"
proof -
  obtain a where a: "write_segments (ad_write A) (cn_segments_out (ep_conn e)) (so_datagram_adapter s) = Inr a"
    and s': "s' = s\<lparr>so_datagram_adapter := a, so_tcp := Some ((ep_conn e)\<lparr>cn_segments_out := []\<rparr>)\<rparr>"
    using assms by (auto simp: rule4_callback_def so_stands_def so_abs_def bind_res_eq_Inr)
  have "adapter_sent A a0 (ep_sent e @ cn_segments_out (ep_conn e)) a"
    using assms(1) adapter_sent_segments [OF _ a] by (simp add: so_stands_def)
  then show ?thesis
    using assms(1) s' ep_step.send [of end_key f e] by (fastforce simp: so_stands_def so_abs_def)
qed

lemma so_tick_refines:
  assumes "so_stands A a0 s e" and inv: "ep_inv e f" "ep_inv f e" and key: "end_key_ok end_key" and step: "so_tick A ms s = Inr s'"
  shows "\<exists>e'. ep_step end_key f e e' \<and> so_stands A a0 s' e'"
proof -
  obtain c where c: "TCPConnection_tick ms (ep_conn e) = Inr c"
    and s': "s' = s\<lparr>so_tcp := Some c, so_datagram_adapter := ad_tick A ms (so_datagram_adapter s)\<rparr>"
    using assms(1) step by (auto simp: so_tick_def so_stands_def so_abs_def bind_res_eq_Inr)
  have "so_stands A a0 s' (e\<lparr>ep_conn := c\<rparr>)"
    using ended_kept(1) [OF inv key c] s' assms(1) by (auto intro: adapter_sent.tick simp: so_stands_def so_abs_def)
  then show ?thesis
    using ep_step.tick [OF c] by blast
qed

text \<open>Whatever the pipe delivers within the limit, the connection takes all of it.\<close>

lemma rule2_total:
  assumes "so_abs s e" and inv: "ep_inv e f" "ep_inv f e" and key: "end_key_ok end_key" and env: "so_env A K f s"
    and going: "\<not> so_outbound_shutdown s" and answer: "k_read K (so_world s) = (Some data, x)"
    and limit: "length data \<le> min FileDescriptor_BUFFER_SIZE (TCPConnection_remaining_outbound_capacity (ep_conn e))"
  shows "\<exists>s'. rule2_callback K s = Inr s'"
proof -
  have tcp: "so_tcp s = Some (ep_conn e)" and open_stream: "\<not> ep_ended e"
    using assms(1) going by (auto simp: so_abs_def)
  have vol: "length (ep_written e @ data) + 2 < 2 ^ 31"
    using env answer assms(1) by (simp add: so_env_def so_abs_def)
  obtain n c where c: "TCPConnection_write data (ep_conn e) = Inr (n, c)"
    using ep_inv_total(5) [OF inv key open_stream vol] by blast
  have n: "n = length data"
    using c limit
    by (auto simp: TCPConnection_write_def Let_def bind_res_eq_Inr ByteStream_write_def
        TCPConnection_remaining_outbound_capacity_def)
  let ?e = "e\<lparr>ep_conn := c, ep_written := ep_written e @ data\<rparr>"
  have "ep_step end_key f e ?e"
    using ep_step.write_data [OF open_stream vol c] n by simp
  then have "\<exists>c'. TCPConnection_end_input_stream c = Inr c'"
    using ep_inv_step [OF _ inv key] ep_inv_total(3) [of ?e f end_key] key by fastforce
  then show ?thesis
    using tcp answer limit c n
    by (auto simp: rule2_callback_def FileDescriptor_read_def Let_def rule2_cancel_def)
qed

lemma rule2_callback_data:
  assumes "rule2_callback K s = Inr s'" and "k_read K (so_world s) = (Some data, x)"
  shows "so_pipe_in s' = so_pipe_in s @ data"
  using assms
  by (auto simp: rule2_callback_def rule2_cancel_def FileDescriptor_read_def Let_def bind_res_eq_Inr
      split: option.splits if_splits)

section \<open>A round of the loop\<close>

lemma so_poll_frame [simp]:
  "so_tcp (snd (so_poll K ps t s)) = so_tcp s" "so_pipe_in (snd (so_poll K ps t s)) = so_pipe_in s"
  "so_pipe_out (snd (so_poll K ps t s)) = so_pipe_out s"
  "so_outbound_shutdown (snd (so_poll K ps t s)) = so_outbound_shutdown s"
  "so_datagram_adapter (snd (so_poll K ps t s)) = so_datagram_adapter s"
  by (simp_all add: so_poll_def split: prod.splits)

lemma so_stands_poll [simp]: "so_stands A a0 (snd (so_poll K ps t s)) e = so_stands A a0 s e"
  by (simp add: so_stands_def so_abs_def)

text \<open>
  The invariant of a round: as long as the application has not written too much, the socket stands for
  an endpoint that the one at the start can become. The second rule's callback needs that outbound data
  has not been shut down.
\<close>

definition so_simulates ::
  "(sr_map \<Rightarrow> size_t) \<Rightarrow> endpoint \<Rightarrow> ('a, 'w) AdaptT \<Rightarrow> 'a \<Rightarrow> endpoint \<Rightarrow> ('a, 'x) TCPSpongeSocket \<Rightarrow> bool" where
  "so_simulates end_key f A a0 e0 s \<longleftrightarrow>
     (length (so_pipe_in s) + 2 < 2 ^ 31 \<longrightarrow> (\<exists>e. ep_steps end_key f e0 e \<and> so_stands A a0 s e))"

definition so_guard :: "('a, 'x) TCPSpongeSocket Rule \<Rightarrow> ('a, 'x) TCPSpongeSocket \<Rightarrow> bool" where
  "so_guard r s \<longleftrightarrow> (ru_fd r = 1 \<and> ru_direction r = In \<longrightarrow> \<not> so_outbound_shutdown s)"

lemma so_rules_distinct: "distinct (so_rules A K end_key)"
  by (simp add: so_rules_def add_rule_def)

text \<open>What has come through the pipe only grows, and only the second rule shuts down outbound data.\<close>

lemma rule_frames:
  "rule1_callback A K end_key s = Inr s' \<Longrightarrow>
     so_pipe_in s' = so_pipe_in s \<and> so_outbound_shutdown s' = so_outbound_shutdown s"
  "rule2_cancel s = Inr s' \<Longrightarrow> so_pipe_in s' = so_pipe_in s"
  "rule4_callback A s = Inr s' \<Longrightarrow>
     so_pipe_in s' = so_pipe_in s \<and> so_outbound_shutdown s' = so_outbound_shutdown s"
  by (cases "so_tcp s"; auto simp: rule1_callback_def rule2_cancel_def rule4_callback_def Let_def bind_res_eq_Inr
      split: prod.splits)+

lemma rule2_callback_frame:
  assumes "rule2_callback K s = Inr s'"
  shows "length (so_pipe_in s) \<le> length (so_pipe_in s')"
  using assms
  by (cases "so_tcp s") (auto simp: rule2_callback_def Let_def bind_res_eq_Inr split: prod.splits if_splits
      dest!: rule_frames(2))

lemma rule3_callback_frame:
  assumes "rule3_callback K s = Inr s'"
  shows "so_pipe_in s' = so_pipe_in s \<and> so_outbound_shutdown s' = so_outbound_shutdown s"
proof (cases "so_tcp s")
  case (Some tcp)
  then show ?thesis
    using assms by (auto simp: rule3_callback_def Let_def bind_res_eq_Inr split: if_splits prod.splits)
qed (use assms in \<open>simp add: rule3_callback_def\<close>)

lemma so_simulates_step:
  assumes "so_simulates end_key f A a0 e0 s" and inv: "ep_inv e0 f" "ep_inv f e0" and key: "end_key_ok end_key"
    and "length (so_pipe_in s) \<le> length (so_pipe_in s')"
    and "\<And>e. so_stands A a0 s e \<Longrightarrow> ep_inv e f \<Longrightarrow> ep_inv f e \<Longrightarrow> length (so_pipe_in s') + 2 < 2 ^ 31 \<Longrightarrow>
      \<exists>e'. ep_steps end_key f e e' \<and> so_stands A a0 s' e'"
  shows "so_simulates end_key f A a0 e0 s'"
  unfolding so_simulates_def
proof
  assume small: "length (so_pipe_in s') + 2 < 2 ^ 31"
  then obtain e where e: "ep_steps end_key f e0 e" "so_stands A a0 s e"
    using assms(1,5) by (auto simp: so_simulates_def)
  obtain e' where "ep_steps end_key f e e'" "so_stands A a0 s' e'"
    using assms(6) [OF e(2) _ _ small] ep_steps_inv [OF e(1) inv key] by blast
  then show "\<exists>e. ep_steps end_key f e0 e \<and> so_stands A a0 s' e"
    using e(1) by (auto intro: rtranclp_trans)
qed

lemma so_rules_guarded:
  fixes A :: "('a, 'w) AdaptT" and K :: "('x, 'w) kernel"
  assumes inv: "ep_inv e0 f" "ep_inv f e0" and key: "end_key_ok end_key" and env: "so_network A K a0 f"
  shows "el_guarded (so_simulates end_key f A a0 e0) so_guard (so_rules A K end_key)"
  unfolding el_guarded_def
proof (intro ballI allI impI conjI)
  fix r and s s' :: "('a, 'x) TCPSpongeSocket"
  assume r: "r \<in> set (so_rules A K end_key)" and P: "so_simulates end_key f A a0 e0 s"
  note sim = so_simulates_step [OF P inv key]
  show "so_guard r s" if "ru_interest r s"
    using r that by (auto simp: so_rules_def add_rule_def so_guard_def rule2_interest_def split: option.splits)
  assume step: "ru_cancel r s = Inr s' \<or> so_guard r s \<and> ru_callback r s = Inr s'"
  consider "s' = s" | "rule1_callback A K end_key s = Inr s'" | "rule2_cancel s = Inr s'"
    | "rule2_callback K s = Inr s'" "\<not> so_outbound_shutdown s" | "rule3_callback K s = Inr s'"
    | "rule4_callback A s = Inr s'"
    using r step by (auto simp: so_rules_def add_rule_def so_guard_def)
  then show "so_simulates end_key f A a0 e0 s'"
  proof cases
    case 1
    then show ?thesis
      using P by simp
  next
    case 2
    then show ?thesis
      using rule_frames(1) [OF 2] by (intro sim rule1_refines [OF _ _ _ key env]) simp_all
  next
    case 3
    then show ?thesis
      using rule_frames(2) [OF 3] by (intro sim) (auto intro: r_into_rtranclp dest: rule2_cancel_refines [OF _ 3, of _ _ _ end_key f])
  next
    case 4
    then show ?thesis
      using rule2_callback_frame [OF 4(1)] by (intro sim rule2_refines [OF _ _ _ key]) simp_all
  next
    case 5
    then show ?thesis
      using rule3_callback_frame [OF 5] by (intro sim) (auto intro: r_into_rtranclp dest: rule3_refines [OF _ 5, of _ _ _ end_key f])
  next
    case 6
    then show ?thesis
      using rule_frames(3) [OF 6] by (intro sim) (auto intro: r_into_rtranclp dest: rule4_refines [OF _ 6, of _ _ end_key f])
  qed
  show "so_guard q s'" if "q \<in> set (so_rules A K end_key)" "q \<noteq> r" "so_guard q s" for q
    using r step that rule_frames(1) [of A K end_key s s'] rule_frames(3) [of A s s'] rule3_callback_frame [of K s s']
    by (auto simp: so_rules_def add_rule_def so_guard_def)
qed

section \<open>Properties\<close>

text \<open>
  C32. The socket's event loop drives its connection as an endpoint of the abstract network. Take any
  round of the loop, with its cancellations, its wait and the callbacks of the four rules that are still
  registered, or any tick of the clock. It leads from a state that stands for an endpoint in a reachable
  pair to a state that stands for an endpoint in a reachable pair with the same peer. What the
  application wrote and was given is exactly what that endpoint wrote and read, and the segments handed to the
  adapter, in their order, are exactly those the endpoint sent. The loop only ever drops rules.
\<close>

theorem sponge_socket_refines:
  assumes "pair_reachable end_key (pair_init ra ca rb cb) (e, f)" and "end_key_ok end_key"
    and "cfg_ok ca" and "cfg_ok cb" and "so_stands A a0 s e" and "so_network A K a0 f"
    and "subseq rules (so_rules A K end_key)"
    and "wait_next_event (so_fds A) (so_poll K) TCP_TICK_MS rules s = Inr (ret, rules', s') \<or>
      so_tick A ms s = Inr s' \<and> rules' = rules"
    and "length (so_pipe_in s') + 2 < 2 ^ 31"
  shows "\<exists>e'. pair_reachable end_key (pair_init ra ca rb cb) (e', f) \<and> so_stands A a0 s' e' \<and>
    subseq rules' (so_rules A K end_key)"
proof -
  note inv = pair_run_inv [OF assms(1-4)]
  let ?P = "so_simulates end_key f A a0 e"
  have "(\<exists>e'. ep_steps end_key f e e' \<and> so_stands A a0 s' e') \<and> subseq rules' (so_rules A K end_key)"
    using assms(8)
  proof (elim disjE conjE)
    assume tick: "so_tick A ms s = Inr s'" "rules' = rules"
    from so_tick_refines [OF assms(5) inv assms(2) this(1)] show ?thesis
      using tick(2) assms(7) by blast
  next
    assume wait: "wait_next_event (so_fds A) (so_poll K) TCP_TICK_MS rules s = Inr (ret, rules', s')"
    have "?P s' \<and> subseq rules' rules"
    proof (rule wait_next_event_guarded [OF wait _ so_rules_guarded [OF inv assms(2,6)]])
      show "set rules \<subseteq> set (so_rules A K end_key)" "distinct rules"
        using assms(7) distinct_subseq [OF _ so_rules_distinct] by (auto dest: list_emb_set)
    qed (use assms(5) in \<open>auto simp: so_simulates_def so_guard_def\<close>)
    then show ?thesis
      using assms(7,9) subseq_order.trans by (auto simp: so_simulates_def)
  qed
  then show ?thesis
    using ep_steps_reachable [OF _ assms(1)] by blast
qed

definition kernel_example :: "(unit, bytes) kernel" where
  "kernel_example =
     \<lparr>k_receive = (\<lambda>_. ([], ())), k_read = (\<lambda>_. (Some [7, 8], ())), k_writev = (\<lambda>bs _. (Some (length bs), ())),
      k_shutdown = (\<lambda>_. (True, ())), k_poll = (\<lambda>_ _ _. (Poll_Timeout, ())), k_timestamp = (\<lambda>_. (0, ())),
      k_abort = (\<lambda>_. (False, ()))\<rparr>"

definition socket_example :: "(TCPOverIPv4OverTunFdAdapter, unit) TCPSpongeSocket" where
  "socket_example =
     (let fd = \<lparr>fd_fd = 3, fd_eof = False, fd_closed = False, fd_read_count = 0, fd_write_count = 0\<rparr>
      in initialize_TCP 0 TCPConfig_default (TCPSpongeSocket_init fd fd TCPOverIPv4OverTunFdAdapter_init ()))"

lemma socket_example_abs: "so_abs socket_example (ep_init 0 TCPConfig_default)"
  by (simp add: so_abs_def socket_example_def initialize_TCP_def TCPSpongeSocket_init_def ep_init_def
      TCPConnection_init_def TCPSender_init_def ByteStream_init_def ByteStream_input_ended_def Let_def)

lemma tun_read_empty: "TCPOverIPv4OverTunFdAdapter_read [] a = Inr (None, a)"
  by (simp add: TCPOverIPv4OverTunFdAdapter_read_def IPv4Datagram_parse_def IPv4Header_parse_def NetParser_init_def
      Buffer_size_def IPv4Header_LENGTH_def IPv4Datagram_default_def BufferList_of_Buffer_def payload_length_def
      IPv4Header_default_def Let_def bufl.size_contents)

lemma socket_example_env: "so_env tun_AdaptT kernel_example f socket_example"
  by (simp add: so_env_def tun_AdaptT_def kernel_example_def socket_example_def initialize_TCP_def
      TCPSpongeSocket_init_def tun_read_empty Let_def)

lemma socket_example_start:
  "pair_reachable length (pair_init 0 TCPConfig_default 1 TCPConfig_default)
    (ep_init 0 TCPConfig_default, ep_init 1 TCPConfig_default)" "cfg_ok TCPConfig_default"
  by (simp_all add: pair_init_def pair_reachable.start cfg_ok_def TCPConfig_default_def TCPConfig_DEFAULT_CAPACITY_def)

lemma socket_example_limit:
  "length [7, 8 :: byte] \<le> min FileDescriptor_BUFFER_SIZE
    (TCPConnection_remaining_outbound_capacity (ep_conn (ep_init 0 TCPConfig_default)))"
  by (simp add: FileDescriptor_BUFFER_SIZE_def TCPConnection_remaining_outbound_capacity_def ep_init_def
      TCPConnection_init_def TCPSender_init_def TCPConfig_default_def TCPConfig_DEFAULT_CAPACITY_def
      ByteStream_remaining_capacity_def ByteStream_init_def sub64_def size_max_def bufl.size_contents)

lemma socket_example_open: "\<not> so_outbound_shutdown socket_example"
  by (simp add: socket_example_def initialize_TCP_def TCPSpongeSocket_init_def Let_def)

lemma socket_example_read: "k_read kernel_example (so_world socket_example) = (Some [7, 8], ())"
  by (simp add: kernel_example_def)

text \<open>The pipe has data, so the second rule runs.\<close>

definition kernel_ready :: "(unit, bytes) kernel" where
  "kernel_ready = kernel_example\<lparr>k_poll :=
     (\<lambda>_ _ _. (Poll_Ready (\<lambda>i. if i = 1 then revents_none\<lparr>re_in := True\<rparr> else revents_none), ()))\<rparr>"

lemma rule2_callback_count:
  "rule2_callback K s = Inr s' \<Longrightarrow> fd_read_count (so_thread_data s') = fd_read_count (so_thread_data s) + 1"
  by (cases "so_tcp s") (auto simp: rule2_callback_def rule2_cancel_def FileDescriptor_read_def register_read_def Let_def
      bind_res_eq_Inr split: prod.splits option.splits if_splits)

lemma socket_example_round:
  assumes "rule2_callback kernel_example socket_example = Inr s'"
  shows "wait_next_event (so_fds tun_AdaptT) (so_poll kernel_ready) TCP_TICK_MS
    (so_rules tun_AdaptT kernel_ready length) socket_example = Inr (Success, so_rules tun_AdaptT kernel_ready length, s')"
proof -
  have "k_read kernel_ready = k_read kernel_example"
    by (simp add: kernel_ready_def kernel_example_def)
  then have callback: "rule2_callback kernel_ready socket_example = Inr s'"
    using assms by (simp only: rule2_callback_def)
  have count: "fd_read_count (so_fds tun_AdaptT s' (Suc 0)) = fd_read_count (so_fds tun_AdaptT socket_example (Suc 0)) + 1"
    using rule2_callback_count [OF assms] by (simp add: so_fds_def)
  have fds: "\<not> fd_eof (so_fds tun_AdaptT socket_example n)" "\<not> fd_closed (so_fds tun_AdaptT socket_example n)" for n
    by (simp_all add: so_fds_def socket_example_def initialize_TCP_def TCPSpongeSocket_init_def Let_def)
  have tcp: "so_tcp socket_example = Some (ep_conn (ep_init 0 TCPConfig_default))" "TCPConnection_active (ep_conn (ep_init 0 TCPConfig_default))"
    by (simp_all add: socket_example_def initialize_TCP_def TCPSpongeSocket_init_def ep_init_def TCPConnection_init_def
        TCPConnection_active_def Let_def)
  have interest: "rule2_interest socket_example" "rule1_interest socket_example"
    using tcp socket_example_limit socket_example_open by (simp_all add: rule2_interest_def rule1_interest_def)
  have world: "so_poll kernel_ready ps t socket_example =
      (Poll_Ready (\<lambda>i. if i = 1 then revents_none\<lparr>re_in := True\<rparr> else revents_none), socket_example)" for ps t
    by (simp add: so_poll_def kernel_ready_def)
  show ?thesis
    by (simp add: wait_next_event_def so_rules_def add_rule_def fds interest world poll_ready_def revents_none_def
        callback count service_count_def Let_def)
qed

lemma tun_network_empty: "so_network tun_AdaptT kernel_ready a0 f"
  by (simp add: so_network_def tun_AdaptT_def kernel_ready_def kernel_example_def tun_read_empty)

theorem sponge_socket_refines_witness:
  "\<exists>s' e'. wait_next_event (so_fds tun_AdaptT) (so_poll kernel_ready) TCP_TICK_MS
      (so_rules tun_AdaptT kernel_ready length) socket_example = Inr (Success, so_rules tun_AdaptT kernel_ready length, s') \<and>
    so_pipe_in s' = [7, 8] \<and>
    pair_reachable length (pair_init 0 TCPConfig_default 1 TCPConfig_default) (e', ep_init 1 TCPConfig_default) \<and>
    so_stands tun_AdaptT TCPOverIPv4OverTunFdAdapter_init s' e'"
proof -
  let ?f = "ep_init 1 TCPConfig_default" and ?rules = "so_rules tun_AdaptT kernel_ready length"
  note inv = pair_run_inv [OF socket_example_start(1) end_key_ok_length socket_example_start(2,2)]
  obtain s' where s': "rule2_callback kernel_example socket_example = Inr s'"
    using rule2_total [OF socket_example_abs inv end_key_ok_length socket_example_env [where f = ?f] socket_example_open
        socket_example_read socket_example_limit] by blast
  have pipe: "so_pipe_in s' = [7, 8]"
    using rule2_callback_data [OF s' socket_example_read]
    by (simp add: socket_example_def initialize_TCP_def TCPSpongeSocket_init_def Let_def)
  have stands: "so_stands tun_AdaptT TCPOverIPv4OverTunFdAdapter_init socket_example (ep_init 0 TCPConfig_default)"
    using socket_example_abs adapter_sent.new
    by (simp add: so_stands_def socket_example_def initialize_TCP_def TCPSpongeSocket_init_def ep_init_def Let_def)
  have round: "wait_next_event (so_fds tun_AdaptT) (so_poll kernel_ready) TCP_TICK_MS ?rules socket_example =
      Inr (Success, ?rules, s')"
    by (rule socket_example_round [OF s'])
  then have "wait_next_event (so_fds tun_AdaptT) (so_poll kernel_ready) TCP_TICK_MS ?rules socket_example = Inr (Success, ?rules, s') \<or>
      so_tick tun_AdaptT 0 socket_example = Inr s' \<and> ?rules = ?rules"
    by blast
  moreover have "length (so_pipe_in s') + 2 < 2 ^ 31"
    by (simp add: pipe)
  ultimately show ?thesis
    using sponge_socket_refines [OF socket_example_start(1) end_key_ok_length socket_example_start(2,2) stands
        tun_network_empty subseq_order.refl, of Success ?rules s' 0] round pipe
    by blast
qed

text \<open>
  C33. The socket never drops data of the application: whatever the pipe delivers within the limit the
  socket asked for, the connection takes all of it, and the check that would throw otherwise never does.
\<close>

theorem sponge_socket_takes_all:
  assumes "pair_reachable end_key (pair_init ra ca rb cb) (e, f)" and "end_key_ok end_key"
    and "cfg_ok ca" and "cfg_ok cb" and "so_abs s e" and "so_env A K f s" and "\<not> so_outbound_shutdown s"
    and "k_read K (so_world s) = (Some data, x)"
    and "length data \<le> min FileDescriptor_BUFFER_SIZE (TCPConnection_remaining_outbound_capacity (ep_conn e))"
  shows "\<exists>s'. rule2_callback K s = Inr s' \<and> so_pipe_in s' = so_pipe_in s @ data"
proof -
  obtain s' where s': "rule2_callback K s = Inr s'"
    using rule2_total [OF assms(5) pair_run_inv [OF assms(1-4)] assms(2,6-9)] by blast
  then show ?thesis
    using rule2_callback_data [OF s' assms(8)] by blast
qed

theorem sponge_socket_takes_all_witness:
  "\<exists>s'. rule2_callback kernel_example socket_example = Inr s' \<and> so_pipe_in s' = so_pipe_in socket_example @ [7, 8]"
  using sponge_socket_takes_all [OF socket_example_start(1) end_key_ok_length socket_example_start(2,2) socket_example_abs
      socket_example_env socket_example_open socket_example_read socket_example_limit] .

end
