(* ===== verification/Network_Simulator.thy ===== *)
theory Network_Simulator
  imports Router_Table Sponge_Socket
begin

text \<open>
  \<^verbatim>\<open>apps/network_simulator.cc\<close>: hosts around one router, the cables between them, and the checks that each
  host receives what it expects. Addresses are their numeric form. Random values, among them the
  contents of the payloads, are arguments; what is printed is left out. The table of hosts is a list in
  the order of insertion: the order in which hosts are checked does not matter for the outcome.
\<close>

section \<open>Results that may not come\<close>

definition bind_ro :: "'a res option \<Rightarrow> ('a \<Rightarrow> 'b res option) \<Rightarrow> 'b res option" where
  "bind_ro m f = (case m of None \<Rightarrow> None | Some (Inl e) \<Rightarrow> Some (Inl e) | Some (Inr x) \<Rightarrow> f x)"

lemma bind_ro_simps [simp]:
  "bind_ro None f = None" "bind_ro (Some (Inl e)) f = Some (Inl e)" "bind_ro (Some (Inr x)) f = f x"
  by (simp_all add: bind_ro_def)

section \<open>Addresses and queues\<close>

definition random_host_ethernet_address :: "(nat \<Rightarrow> byte) \<Rightarrow> EthernetAddress" where
  "random_host_ethernet_address rd = MAC ((rd 0 OR 0x02) AND 0xfe) (rd 1) (rd 2) (rd 3) (rd 4) (rd 5)"

definition random_router_ethernet_address :: "(nat \<Rightarrow> byte) \<Rightarrow> EthernetAddress" where
  "random_router_ethernet_address rd = MAC 0x02 0 0 (rd 3) (rd 4) (rd 5)"

text \<open>Popping from an empty queue is undefined behaviour.\<close>

fun clear_queues :: "'a list \<Rightarrow> 'a list \<Rightarrow> 'a list res" where
  "clear_queues [] queue2 = Inr queue2"
| "clear_queues (x # queue1) [] = Inl UndefinedBehaviour"
| "clear_queues (x # queue1) (y # queue2) = clear_queues queue1 queue2"

section \<open>Host\<close>

record Host =
  ho_name :: string
  ho_my_address :: "32 word"
  ho_interface :: AsyncNetworkInterface
  ho_next_hop :: "32 word"
  ho_expecting_to_receive :: "IPv4Datagram list"

definition Host_init :: "(nat \<Rightarrow> byte) \<Rightarrow> string \<Rightarrow> 32 word \<Rightarrow> 32 word \<Rightarrow> Host" where
  "Host_init rd name my_address next_hop =
     \<lparr>ho_name = name, ho_my_address = my_address,
      ho_interface = AsyncNetworkInterface_of (NetworkInterface_init (random_host_ethernet_address rd) my_address),
      ho_next_hop = next_hop, ho_expecting_to_receive = []\<rparr>"

definition dgram_bytes :: "IPv4Datagram \<Rightarrow> bytes res" where
  "dgram_bytes d = bind_res (IPv4Datagram_serialize d) (\<lambda>bl. Inr (BufferList_concatenate bl))"

fun expecting :: "IPv4Datagram \<Rightarrow> IPv4Datagram list \<Rightarrow> bool res" where
  "expecting expected [] = Inr False"
| "expecting expected (x # xs) =
     bind_res (dgram_bytes x) (\<lambda>a. bind_res (dgram_bytes expected) (\<lambda>b.
       if a = b then Inr True else expecting expected xs))"

fun remove_expectation :: "IPv4Datagram \<Rightarrow> IPv4Datagram list \<Rightarrow> IPv4Datagram list res" where
  "remove_expectation expected [] = Inr []"
| "remove_expectation expected (x # xs) =
     bind_res (dgram_bytes x) (\<lambda>a. bind_res (dgram_bytes expected) (\<lambda>b.
       if a = b then Inr xs else bind_res (remove_expectation expected xs) (\<lambda>ys. Inr (x # ys))))"

definition Host_dgram :: "32 word \<Rightarrow> 8 word \<Rightarrow> bytes \<Rightarrow> Host \<Rightarrow> IPv4Datagram" where
  "Host_dgram destination ttl payload h =
     (let hd = IPv4Header_default\<lparr>ih_src := ho_my_address h, ih_dst := destination\<rparr>;
          pl = BufferList_of_string payload
      in IPv4Datagram_default\<lparr>ipd_header := hd\<lparr>ih_len := of_nat (unat (ih_hlen hd) * 4 + BufferList_size pl), ih_ttl := ttl\<rparr>,
           ipd_payload := pl\<rparr>)"

definition Host_send_to :: "32 word \<Rightarrow> 8 word \<Rightarrow> bytes \<Rightarrow> Host \<Rightarrow> (IPv4Datagram \<times> Host) res" where
  "Host_send_to destination ttl payload h =
     (let dgram = Host_dgram destination ttl payload h
      in bind_res (send_datagram dgram (ho_next_hop h) (ani_interface (ho_interface h))) (\<lambda>s.
           Inr (dgram, h\<lparr>ho_interface := (ho_interface h)\<lparr>ani_interface := s\<rparr>\<rparr>)))"

definition Host_expect :: "IPv4Datagram \<Rightarrow> Host \<Rightarrow> Host" where
  "Host_expect expected h = h\<lparr>ho_expecting_to_receive := ho_expecting_to_receive h @ [expected]\<rparr>"

fun check_received :: "IPv4Datagram list \<Rightarrow> IPv4Datagram list \<Rightarrow> IPv4Datagram list res" where
  "check_received [] expectations = Inr expectations"
| "check_received (dgram_received # queue) expectations =
     bind_res (expecting dgram_received expectations) (\<lambda>ok.
       if \<not> ok then Inl RuntimeError
       else bind_res (remove_expectation dgram_received expectations) (check_received queue))"

definition Host_check :: "Host \<Rightarrow> Host res" where
  "Host_check h =
     bind_res (check_received (ani_datagrams_out (ho_interface h)) (ho_expecting_to_receive h)) (\<lambda>expectations.
       if expectations \<noteq> [] then Inl RuntimeError
       else Inr (h\<lparr>ho_interface := (ho_interface h)\<lparr>ani_datagrams_out := []\<rparr>, ho_expecting_to_receive := expectations\<rparr>))"

section \<open>Network\<close>

record Network =
  ne_router :: Router
  ne_hosts :: "(string \<times> Host) list"

text \<open>The frames of a queue, copied, one after the other into an interface.\<close>

definition copied_frame :: "EthernetFrame \<Rightarrow> EthernetFrame" where
  "copied_frame f = f\<lparr>ef_payload := BufferList_of_string (BufferList_concatenate (ef_payload f))\<rparr>"

fun deliver :: "EthernetFrame list \<Rightarrow> AsyncNetworkInterface \<Rightarrow> AsyncNetworkInterface res" where
  "deliver [] dst = Inr dst"
| "deliver (f # to_send) dst = bind_res (AsyncNetworkInterface_recv_frame (copied_frame f) dst) (deliver to_send)"

definition clear_frames :: "EthernetFrame list \<Rightarrow> AsyncNetworkInterface \<Rightarrow> AsyncNetworkInterface res" where
  "clear_frames frames x =
     bind_res (clear_queues frames (ni_frames_out (ani_interface x))) (\<lambda>q.
       Inr (x\<lparr>ani_interface := (ani_interface x)\<lparr>ni_frames_out := q\<rparr>\<rparr>))"

definition exchange_frames ::
  "AsyncNetworkInterface \<Rightarrow> AsyncNetworkInterface \<Rightarrow> (AsyncNetworkInterface \<times> AsyncNetworkInterface) res" where
  "exchange_frames x y =
     (let x_frames = ni_frames_out (ani_interface x); y_frames = ni_frames_out (ani_interface y)
      in bind_res (deliver x_frames y) (\<lambda>y.
         bind_res (deliver y_frames x) (\<lambda>x.
         bind_res (clear_frames x_frames x) (\<lambda>x.
         bind_res (clear_frames y_frames y) (\<lambda>y. Inr (x, y))))))"

definition exchange_frames3 ::
  "AsyncNetworkInterface \<Rightarrow> AsyncNetworkInterface \<Rightarrow> AsyncNetworkInterface \<Rightarrow>
     (AsyncNetworkInterface \<times> AsyncNetworkInterface \<times> AsyncNetworkInterface) res" where
  "exchange_frames3 x y z =
     (let x_frames = ni_frames_out (ani_interface x); y_frames = ni_frames_out (ani_interface y);
          z_frames = ni_frames_out (ani_interface z)
      in bind_res (deliver x_frames y) (\<lambda>y. bind_res (deliver x_frames z) (\<lambda>z.
         bind_res (deliver y_frames x) (\<lambda>x. bind_res (deliver y_frames z) (\<lambda>z.
         bind_res (deliver z_frames x) (\<lambda>x. bind_res (deliver z_frames y) (\<lambda>y.
         bind_res (clear_frames x_frames x) (\<lambda>x. bind_res (clear_frames y_frames y) (\<lambda>y.
         bind_res (clear_frames z_frames z) (\<lambda>z. Inr (x, y, z)))))))))))"

definition Network_host :: "string \<Rightarrow> Network \<Rightarrow> Host res" where
  "Network_host name n =
     (case map_of (ne_hosts n) name of
        None \<Rightarrow> Inl RuntimeError
      | Some h \<Rightarrow> if ho_name h \<noteq> name then Inl RuntimeError else Inr h)"

definition set_host :: "string \<Rightarrow> Host \<Rightarrow> Network \<Rightarrow> Network" where
  "set_host name h n = n\<lparr>ne_hosts := map (\<lambda>(k, v). (k, if k = name then h else v)) (ne_hosts n)\<rparr>"

definition set_router_interface :: "size_t \<Rightarrow> AsyncNetworkInterface \<Rightarrow> Network \<Rightarrow> Network" where
  "set_router_interface i a n = n\<lparr>ne_router := (ne_router n)\<lparr>ro_interfaces := (ro_interfaces (ne_router n))[i := a]\<rparr>\<rparr>"

text \<open>A cable between an interface of the router and a host.\<close>

definition connect_host :: "size_t \<Rightarrow> string \<Rightarrow> Network \<Rightarrow> Network res" where
  "connect_host i name n =
     bind_res (Router_interface i (ne_router n)) (\<lambda>x.
     bind_res (Network_host name n) (\<lambda>h.
     bind_res (exchange_frames x (ho_interface h)) (\<lambda>(x, y).
       Inr (set_host name (h\<lparr>ho_interface := y\<rparr>) (set_router_interface i x n)))))"

definition connect_hosts :: "size_t \<Rightarrow> string \<Rightarrow> string \<Rightarrow> Network \<Rightarrow> Network res" where
  "connect_hosts i name1 name2 n =
     bind_res (Router_interface i (ne_router n)) (\<lambda>x.
     bind_res (Network_host name1 n) (\<lambda>h1.
     bind_res (Network_host name2 n) (\<lambda>h2.
     bind_res (exchange_frames3 x (ho_interface h1) (ho_interface h2)) (\<lambda>(x, y, z).
       Inr (set_host name2 (h2\<lparr>ho_interface := z\<rparr>) (set_host name1 (h1\<lparr>ho_interface := y\<rparr>) (set_router_interface i x n)))))))"

definition default_id :: size_t where "default_id = 0"
definition eth0_id :: size_t where "eth0_id = 1"
definition eth1_id :: size_t where "eth1_id = 2"
definition eth2_id :: size_t where "eth2_id = 3"
definition uun3_id :: size_t where "uun3_id = 4"
definition hs4_id :: size_t where "hs4_id = 5"
definition mit5_id :: size_t where "mit5_id = 6"

definition simulate_physical_connections :: "Network \<Rightarrow> Network res" where
  "simulate_physical_connections n =
     bind_res (connect_host default_id ''default_router'' n) (\<lambda>n.
     bind_res (connect_host eth0_id ''applesauce'' n) (\<lambda>n.
     bind_res (connect_host eth2_id ''cherrypie'' n) (\<lambda>n.
     bind_res (connect_host hs4_id ''hs_router'' n) (\<lambda>n.
       connect_hosts uun3_id ''dm42'' ''dm43'' n))))"

fun simulate_rounds :: "nat \<Rightarrow> Network \<Rightarrow> Network res option" where
  "simulate_rounds 0 n = Some (Inr n)"
| "simulate_rounds (Suc i) n =
     bind_ro (Router_route (ne_router n)) (\<lambda>r.
     bind_ro (Some (simulate_physical_connections (n\<lparr>ne_router := r\<rparr>))) (simulate_rounds i))"

fun check_hosts :: "(string \<times> Host) list \<Rightarrow> (string \<times> Host) list res" where
  "check_hosts [] = Inr []"
| "check_hosts ((name, h) # hosts) =
     bind_res (Host_check h) (\<lambda>h. bind_res (check_hosts hosts) (\<lambda>hosts. Inr ((name, h) # hosts)))"

definition simulate :: "Network \<Rightarrow> Network res option" where
  "simulate n =
     bind_ro (simulate_rounds 256 n) (\<lambda>n. Some (bind_res (check_hosts (ne_hosts n)) (\<lambda>hosts. Inr (n\<lparr>ne_hosts := hosts\<rparr>))))"

text \<open>The constructor: interfaces, hosts and routes; \<open>rd\<close> holds random bytes for each Ethernet address.\<close>

definition router_interface :: "(nat \<Rightarrow> byte) \<Rightarrow> 32 word \<Rightarrow> AsyncNetworkInterface" where
  "router_interface rd ip = AsyncNetworkInterface_of (NetworkInterface_init (random_router_ethernet_address rd) ip)"

definition network_router :: "(nat \<Rightarrow> nat \<Rightarrow> byte) \<Rightarrow> Router" where
  "network_router rd =
     fold (\<lambda>(k, ip) r. snd (Router_add_interface (router_interface (rd k) ip) r))
       [(0, ipv4 171 67 76 46), (1, ipv4 10 0 0 1), (2, ipv4 172 16 0 1), (3, ipv4 192 168 0 1),
        (4, ipv4 198 178 229 1), (5, ipv4 143 195 0 2), (6, ipv4 128 30 76 255)] Router_init"

definition network_hosts :: "(nat \<Rightarrow> nat \<Rightarrow> byte) \<Rightarrow> (string \<times> Host) list" where
  "network_hosts rd =
     map (\<lambda>(k, name, my_address, next_hop). (name, Host_init (rd k) name my_address next_hop))
       [(7, ''applesauce'', ipv4 10 0 0 2, ipv4 10 0 0 1), (8, ''default_router'', ipv4 171 67 76 1, 0),
        (9, ''cherrypie'', ipv4 192 168 0 2, ipv4 192 168 0 1), (10, ''hs_router'', ipv4 143 195 0 1, 0),
        (11, ''dm42'', ipv4 198 178 229 42, ipv4 198 178 229 1), (12, ''dm43'', ipv4 198 178 229 43, ipv4 198 178 229 1)]"

definition Network_init :: "(32 word \<Rightarrow> 32 word) \<Rightarrow> (nat \<Rightarrow> nat \<Rightarrow> byte) \<Rightarrow> Network res option" where
  "Network_init flog rd =
     (let n = \<lparr>ne_router = network_router rd, ne_hosts = network_hosts rd\<rparr>
      in bind_ro (Some (Network_host ''default_router'' n)) (\<lambda>d.
         bind_ro (Some (Network_host ''hs_router'' n)) (\<lambda>hs.
         bind_ro (add_route flog (ipv4 0 0 0 0) 0 (Some (ho_my_address d)) default_id (ne_router n)) (\<lambda>r.
         bind_ro (add_route flog (ipv4 10 0 0 0) 8 None eth0_id r) (\<lambda>r.
         bind_ro (add_route flog (ipv4 172 16 0 0) 16 None eth1_id r) (\<lambda>r.
         bind_ro (add_route flog (ipv4 192 168 0 0) 24 None eth2_id r) (\<lambda>r.
         bind_ro (add_route flog (ipv4 198 178 229 0) 24 None uun3_id r) (\<lambda>r.
         bind_ro (add_route flog (ipv4 143 195 0 0) 17 (Some (ho_my_address hs)) hs4_id r) (\<lambda>r.
         bind_ro (add_route flog (ipv4 143 195 128 0) 18 (Some (ho_my_address hs)) hs4_id r) (\<lambda>r.
         bind_ro (add_route flog (ipv4 143 195 192 0) 19 (Some (ho_my_address hs)) hs4_id r) (\<lambda>r.
         bind_ro (add_route flog (ipv4 128 30 76 255) 16 (Some (ipv4 128 30 0 1)) mit5_id r) (\<lambda>r.
           Some (Inr (n\<lparr>ne_router := r\<rparr>))))))))))))))"

section \<open>The tests\<close>

text \<open>One test: a host sends, another one, if any, expects the datagram with its time to live decremented.\<close>

definition simulator_test ::
  "string \<Rightarrow> 32 word \<Rightarrow> 8 word \<Rightarrow> bytes \<Rightarrow> string option \<Rightarrow> Network \<Rightarrow> Network res option" where
  "simulator_test sender destination ttl payload receiver n =
     bind_ro (Some (Network_host sender n)) (\<lambda>h.
     bind_ro (Some (Host_send_to destination ttl payload h)) (\<lambda>(dgram_sent, h).
       let n = set_host sender h n
       in case receiver of
            None \<Rightarrow> simulate n
          | Some name \<Rightarrow>
              bind_ro (Some (Network_host name n)) (\<lambda>g.
                simulate (set_host name (Host_expect (forwarded dgram_sent) g) n))))"

definition host_address :: "string \<Rightarrow> Network \<Rightarrow> 32 word res" where
  "host_address name n = bind_res (Network_host name n) (\<lambda>h. Inr (ho_my_address h))"

text \<open>The payload of test \<open>k\<close> is random.\<close>

definition network_simulator :: "(32 word \<Rightarrow> 32 word) \<Rightarrow> (nat \<Rightarrow> nat \<Rightarrow> byte) \<Rightarrow> (nat \<Rightarrow> bytes) \<Rightarrow> Network res option" where
  "network_simulator flog rd payload =
     bind_ro (Network_init flog rd) (\<lambda>n.
     bind_ro (Some (host_address ''cherrypie'' n)) (\<lambda>a. bind_ro (simulator_test ''applesauce'' a 64 (payload 0) (Some ''cherrypie'') n) (\<lambda>n.
     bind_ro (Some (host_address ''applesauce'' n)) (\<lambda>a. bind_ro (simulator_test ''cherrypie'' a 64 (payload 1) (Some ''applesauce'') n) (\<lambda>n.
     bind_ro (simulator_test ''applesauce'' (ipv4 1 2 3 4) 64 (payload 2) (Some ''default_router'') n) (\<lambda>n.
     bind_ro (simulator_test ''applesauce'' (ipv4 143 195 131 17) 64 (payload 3) (Some ''hs_router'') n) (\<lambda>n.
     bind_ro (simulator_test ''cherrypie'' (ipv4 143 195 193 52) 64 (payload 4) (Some ''hs_router'') n) (\<lambda>n.
     bind_ro (simulator_test ''cherrypie'' (ipv4 143 195 223 255) 64 (payload 5) (Some ''hs_router'') n) (\<lambda>n.
     bind_ro (simulator_test ''cherrypie'' (ipv4 143 195 224 0) 64 (payload 6) (Some ''default_router'') n) (\<lambda>n.
     bind_ro (Some (host_address ''dm43'' n)) (\<lambda>a. bind_ro (simulator_test ''dm42'' a 64 (payload 7) (Some ''dm43'') n) (\<lambda>n.
     bind_ro (simulator_test ''applesauce'' (ipv4 1 2 3 4) 1 (payload 8) None n) (\<lambda>n.
       simulator_test ''applesauce'' (ipv4 1 2 3 4) 0 (payload 9) None n)))))))))))))"

section \<open>What a host checks\<close>

lemma expecting_iff:
  assumes "\<forall>x \<in> set (d # xs). \<exists>b. dgram_bytes x = Inr b"
  shows "expecting d xs = Inr (dgram_bytes d \<in> dgram_bytes ` set xs)"
  using assms by (induction xs) fastforce+

lemma remove_expectation_image:
  assumes "\<forall>x \<in> set (d # xs). \<exists>b. dgram_bytes x = Inr b" and "dgram_bytes d \<in> dgram_bytes ` set xs"
  shows "\<exists>ys. remove_expectation d xs = Inr ys \<and> set ys \<subseteq> set xs \<and>
    image_mset dgram_bytes (mset xs) = add_mset (dgram_bytes d) (image_mset dgram_bytes (mset ys))"
  using assms
proof (induction xs)
  case (Cons x xs)
  obtain a b where ab: "dgram_bytes x = Inr a" "dgram_bytes d = Inr b"
    using Cons.prems(1) by fastforce
  show ?case
  proof (cases "a = b")
    case True
    then show ?thesis
      using ab by auto
  next
    case False
    then have "dgram_bytes d \<in> dgram_bytes ` set xs"
      using Cons.prems(2) ab by auto
    then obtain ys where "remove_expectation d xs = Inr ys" "set ys \<subseteq> set xs"
      "image_mset dgram_bytes (mset xs) = add_mset (dgram_bytes d) (image_mset dgram_bytes (mset ys))"
      using Cons.IH Cons.prems(1) by auto
    then show ?thesis
      using False ab by (intro exI [of _ "x # ys"]) auto
  qed
qed simp

lemma check_received_iff:
  assumes "\<forall>x \<in> set (received @ expected). \<exists>b. dgram_bytes x = Inr b"
  shows "check_received received expected = Inr [] \<longleftrightarrow>
    image_mset dgram_bytes (mset received) = image_mset dgram_bytes (mset expected)"
  using assms
proof (induction received arbitrary: expected)
  case Nil
  then show ?case
    by auto
next
  case (Cons d received)
  show ?case
  proof (cases "dgram_bytes d \<in> dgram_bytes ` set expected")
    case True
    then obtain ys where ys: "remove_expectation d expected = Inr ys" "set ys \<subseteq> set expected"
      "image_mset dgram_bytes (mset expected) = add_mset (dgram_bytes d) (image_mset dgram_bytes (mset ys))"
      using remove_expectation_image [of d expected] Cons.prems by auto
    have "check_received received ys = Inr [] \<longleftrightarrow>
        image_mset dgram_bytes (mset received) = image_mset dgram_bytes (mset ys)"
      using Cons.IH [of ys] Cons.prems ys(2) by auto
    then show ?thesis
      using True ys expecting_iff [of d expected] Cons.prems by simp
  next
    case False
    then have "dgram_bytes d \<notin># image_mset dgram_bytes (mset expected)"
      by auto
    then have "image_mset dgram_bytes (mset (d # received)) \<noteq> image_mset dgram_bytes (mset expected)"
      by (metis image_mset_add_mset mset.simps(2) union_single_eq_member add_mset_add_single)
    then show ?thesis
      using False expecting_iff [of d expected] Cons.prems by simp
  qed
qed

text \<open>
  A host is content exactly when what it received is, as bytes and counted with multiplicity, what it
  expected. All datagrams involved can be serialized.
\<close>

lemma Host_check_iff:
  assumes "\<forall>x \<in> set (ani_datagrams_out (ho_interface h) @ ho_expecting_to_receive h). \<exists>b. dgram_bytes x = Inr b"
  shows "(\<exists>h'. Host_check h = Inr h') \<longleftrightarrow>
    image_mset dgram_bytes (mset (ani_datagrams_out (ho_interface h))) =
      image_mset dgram_bytes (mset (ho_expecting_to_receive h))"
  unfolding check_received_iff [OF assms, symmetric] by (auto simp: Host_check_def bind_res_eq_Inr)

section \<open>A datagram on its way through the router\<close>

definition dgram_wf :: "IPv4Datagram \<Rightarrow> bool" where
  "dgram_wf d \<longleftrightarrow> IPv4Header_wf (ipd_header d) \<and>
     unat (ih_len (ipd_header d)) = 4 * unat (ih_hlen (ipd_header d)) + length (BufferList_concatenate (ipd_payload d))"

text \<open>An interface knows the Ethernet address of an IP address.\<close>

definition ni_knows :: "NetworkInterface \<Rightarrow> 32 word \<Rightarrow> EthernetAddress \<Rightarrow> bool" where
  "ni_knows s ip address \<longleftrightarrow>
     (\<exists>n. ni_arp_table s ip = Some n \<and> en_exist n \<and> ni_timer s - en_updated_time n \<le> 30000 \<and> en_eAddr n = address)"

text \<open>The datagram that arrives: the same payload, and the same header up to the checksum.\<close>

definition dgram_same :: "IPv4Datagram \<Rightarrow> IPv4Datagram \<Rightarrow> bool" where
  "dgram_same d d' \<longleftrightarrow>
     (\<exists>ck. ipd_header d' = (ipd_header d)\<lparr>ih_cksum := ck\<rparr>) \<and>
     BufferList_concatenate (ipd_payload d') = BufferList_concatenate (ipd_payload d)"

lemma dgram_same_wf: "dgram_same d d' \<Longrightarrow> dgram_wf d \<Longrightarrow> dgram_wf d'"
  by (auto simp: dgram_same_def dgram_wf_def IPv4Header_wf_def)

lemma send_and_copy:
  assumes "dgram_wf d" and "ni_knows s ip (ni_ethernet_address r)"
  shows "\<exists>f d'. send_datagram d ip s = Inr (s\<lparr>ni_frames_out := ni_frames_out s @ [f]\<rparr>) \<and>
    recv_frame (copied_frame f) r = Inr (Some d', r) \<and> dgram_same d d'"
proof -
  have wf: "IPv4Header_wf (ipd_header d)"
    "unat (ih_len (ipd_header d)) = 4 * unat (ih_hlen (ipd_header d)) + length (BufferList_concatenate (ipd_payload d))"
    using assms(1) by (simp_all add: dgram_wf_def)
  let ?ck = "inet_cksum 0 (ip_header_bytes (ipd_header d) 0)"
  let ?payload = "Buffer_of_string (ip_header_bytes (ipd_header d) ?ck) # ipd_payload d"
  let ?f = "\<lparr>ef_header = \<lparr>eh_dst = ni_ethernet_address r, eh_src = ni_ethernet_address s, eh_type = EthernetHeader_TYPE_IPv4\<rparr>,
    ef_payload = ?payload\<rparr>"
  let ?b = "Buffer_of_string (BufferList_concatenate ?payload)"
  have "send_datagram d ip s = Inr (s\<lparr>ni_frames_out := ni_frames_out s @ [?f]\<rparr>)"
    using assms(2) send_datagram_known [of s ip _ d] IPv4Datagram_serialize_eq [OF wf]
    by (auto simp: ni_knows_def send_dgram_def EthernetHeader_default_def)
  moreover obtain buf where "IPv4Datagram_parse ?b IPv4Datagram_default =
      Inr (NoError, \<lparr>ipd_header = (ipd_header d)\<lparr>ih_cksum := ?ck\<rparr>, ipd_payload = [buf]\<rparr>)"
    "Buffer_str buf = BufferList_concatenate (ipd_payload d)"
    using IPv4Datagram_parse_buffer [OF wf, of ?b ?ck IPv4Datagram_default] that
    by (auto simp: IPv4Datagram_default_def)
  then have "recv_frame (copied_frame ?f) r =
      Inr (Some \<lparr>ipd_header = (ipd_header d)\<lparr>ih_cksum := ?ck\<rparr>, ipd_payload = [buf]\<rparr>, r)"
    "dgram_same d \<lparr>ipd_header = (ipd_header d)\<lparr>ih_cksum := ?ck\<rparr>, ipd_payload = [buf]\<rparr>"
    by (auto simp: recv_frame_def ni_pkg_type_def BufferList_to_Buffer_def copied_frame_def BufferList_of_string_def
        BufferList_append_def BufferList_of_Buffer_def dgram_same_def)
  ultimately show ?thesis
    by blast
qed

abbreviation ani_frames :: "AsyncNetworkInterface \<Rightarrow> EthernetFrame list" where
  "ani_frames a \<equiv> ni_frames_out (ani_interface a)"

lemma deliver_datagram:
  assumes "recv_frame (copied_frame f) (ani_interface x) = Inr (Some d, ani_interface x)"
  shows "deliver [f] x = Inr (x\<lparr>ani_datagrams_out := ani_datagrams_out x @ [d]\<rparr>)"
  using assms by (simp add: AsyncNetworkInterface_recv_frame_def Let_def)

lemma exchange_frames_one:
  assumes "ani_frames x = []" and "ani_frames y = [f]"
    and "recv_frame (copied_frame f) (ani_interface x) = Inr (Some d, ani_interface x)"
  shows "exchange_frames x y = Inr (x\<lparr>ani_datagrams_out := ani_datagrams_out x @ [d]\<rparr>,
      y\<lparr>ani_interface := (ani_interface y)\<lparr>ni_frames_out := []\<rparr>\<rparr>)"
    and "exchange_frames y x = Inr (y\<lparr>ani_interface := (ani_interface y)\<lparr>ni_frames_out := []\<rparr>\<rparr>,
      x\<lparr>ani_datagrams_out := ani_datagrams_out x @ [d]\<rparr>)"
  using assms deliver_datagram [OF assms(3)]
  by (simp_all add: exchange_frames_def Let_def clear_frames_def del: deliver.simps(2))

lemma route_all_append:
  "route_all (is @ js) r = bind_ro (route_all is r) (route_all js)"
  by (induction "is" arbitrary: r) (auto simp: bind_ro_def split: option.splits sum.splits)

lemma route_all_idle:
  assumes "\<forall>i \<in> set is. ani_datagrams_out (ro_interfaces r ! i) = []"
  shows "route_all is r = Some (Inr r)"
  using assms by (induction "is") simp_all

lemma Router_route_one:
  assumes i: "i < length (ro_interfaces r)" "ani_datagrams_out (ro_interfaces r ! i) = [d]"
    and idle: "\<forall>k < length (ro_interfaces r). k \<noteq> i \<longrightarrow> ani_datagrams_out (ro_interfaces r ! k) = []"
    and route: "route_one_datagram d r = Some (Inr r')" "length (ro_interfaces r') = length (ro_interfaces r)"
      "\<forall>k < length (ro_interfaces r). ani_datagrams_out (ro_interfaces r' ! k) = ani_datagrams_out (ro_interfaces r ! k)"
  shows "Router_route r = Some (Inr (ro_pop i r'))"
proof -
  let ?n = "length (ro_interfaces r)"
  have "[0..<?n] = [0..<i] @ i # [Suc i..<?n]"
    using i(1) by (metis less_imp_le_nat upt_add_eq_append upt_conv_Cons le0 le_add_diff_inverse)
  moreover have "route_all [0..<i] r = Some (Inr r)"
    using idle i(1) by (intro route_all_idle) auto
  moreover have "route_all [Suc i..<?n] (ro_pop i r') = Some (Inr (ro_pop i r'))"
    using idle route(2,3) by (intro route_all_idle) (auto simp: ro_pop_def nth_list_update)
  ultimately show ?thesis
    using i route(1) by (simp add: Router_route_def route_all_append)
qed

text \<open>
  C35. A datagram from one host to another through a router. The first host sends a well-formed datagram
  to its gateway, whose Ethernet address it knows; the cable brings the frame to the router; the router
  forwards the datagram by the longest matching route; and the second cable brings it to the host whose
  address the router knows for the next hop. Nothing throws and every step returns; the second host
  receives exactly one more datagram, with the payload that was sent, and the header that was sent but
  for the checksum and a time to live less by one. Both cables are idle before.
\<close>

theorem datagram_through_router:
  assumes d: "dgram_wf d" "1 < ih_ttl (ipd_header d)" and has: "router_has E r" and e: "e \<in> E" "route_ok e"
    and match: "route_matches e (ih_dst (ipd_header d))"
    and best: "\<forall>f \<in> E. route_matches f (ih_dst (ipd_header d)) \<longrightarrow> re_length f \<le> re_length e"
    and i: "i < length (ro_interfaces r)" "i \<noteq> re_interface e" "re_interface e < length (ro_interfaces r)"
    and idle: "\<forall>x \<in> set (ro_interfaces r). ani_datagrams_out x = [] \<and> ani_frames x = []" "ani_frames a = []" "ani_frames b = []"
    and gateway: "ni_knows (ani_interface a) gw (ni_ethernet_address (ani_interface (ro_interfaces r ! i)))"
    and hop: "ni_knows (ani_interface (ro_interfaces r ! re_interface e))
      (case re_next_hop e of Some n \<Rightarrow> n | None \<Rightarrow> ih_dst (ipd_header d)) (ni_ethernet_address (ani_interface b))"
  shows "\<exists>s x1 a1 r2 x2 b2 d'. send_datagram d gw (ani_interface a) = Inr s \<and>
    exchange_frames (ro_interfaces r ! i) (a\<lparr>ani_interface := s\<rparr>) = Inr (x1, a1) \<and>
    Router_route (r\<lparr>ro_interfaces := (ro_interfaces r)[i := x1]\<rparr>) = Some (Inr r2) \<and>
    exchange_frames (ro_interfaces r2 ! re_interface e) b = Inr (x2, b2) \<and>
    ani_datagrams_out b2 = ani_datagrams_out b @ [d'] \<and> dgram_same (forwarded d) d'"
proof -
  let ?j = "re_interface e" and ?xi = "ro_interfaces r ! i" and ?xj = "ro_interfaces r ! re_interface e"
  have idle_i: "ani_datagrams_out ?xi = []" "ani_frames ?xi = []" and idle_j: "ani_frames ?xj = []"
    using idle(1) i by simp_all
  obtain f d1 where f: "send_datagram d gw (ani_interface a) = Inr ((ani_interface a)\<lparr>ni_frames_out := [f]\<rparr>)"
    "recv_frame (copied_frame f) (ani_interface ?xi) = Inr (Some d1, ani_interface ?xi)" "dgram_same d d1"
    using send_and_copy [OF d(1) gateway] idle(2) by auto
  let ?x1 = "?xi\<lparr>ani_datagrams_out := [d1]\<rparr>"
  let ?r1 = "r\<lparr>ro_interfaces := (ro_interfaces r)[i := ?x1]\<rparr>"
  have x1: "exchange_frames ?xi (a\<lparr>ani_interface := (ani_interface a)\<lparr>ni_frames_out := [f]\<rparr>\<rparr>) =
      Inr (?x1, a\<lparr>ani_interface := (ani_interface a)\<lparr>ni_frames_out := []\<rparr>\<rparr>)"
    using exchange_frames_one(1) [of ?xi "a\<lparr>ani_interface := (ani_interface a)\<lparr>ni_frames_out := [f]\<rparr>\<rparr>" f d1]
      idle_i f(2) by simp
  have d1: "ih_dst (ipd_header d1) = ih_dst (ipd_header d)" "1 < ih_ttl (ipd_header d1)" "dgram_wf d1"
    using f(3) d dgram_same_wf [OF f(3) d(1)] by (auto simp: dgram_same_def)
  let ?hop = "case re_next_hop e of Some n \<Rightarrow> n | None \<Rightarrow> ih_dst (ipd_header d)"
  have "router_has E ?r1"
    using has by (simp add: router_has_def)
  then have routed: "route_one_datagram d1 ?r1 = Some (router_sends (forwarded d1) ?hop ?j ?r1)"
    using route_one_datagram_best [of E ?r1 d1 e] d1(2) e match best unfolding d1(1) by blast
  have fwd: "dgram_wf (forwarded d1)"
    using d1(3) by (simp add: dgram_wf_def forwarded_def IPv4Header_wf_def)
  obtain g d2 where g: "send_datagram (forwarded d1) ?hop (ani_interface ?xj) =
      Inr ((ani_interface ?xj)\<lparr>ni_frames_out := [g]\<rparr>)"
    "recv_frame (copied_frame g) (ani_interface b) = Inr (Some d2, ani_interface b)" "dgram_same (forwarded d1) d2"
    using send_and_copy [OF fwd hop] idle_j by auto
  let ?xj' = "?xj\<lparr>ani_interface := (ani_interface ?xj)\<lparr>ni_frames_out := [g]\<rparr>\<rparr>"
  let ?r2 = "?r1\<lparr>ro_interfaces := (ro_interfaces ?r1)[?j := ?xj']\<rparr>"
  have "router_sends (forwarded d1) ?hop ?j ?r1 = Inr ?r2"
    using g(1) i by (simp add: router_sends_def Router_interface_def)
  then have "Router_route ?r1 = Some (Inr (ro_pop i ?r2))"
    using routed i idle(1)
    by (intro Router_route_one [of i _ d1]) (auto simp: nth_list_update)
  moreover have "ro_interfaces (ro_pop i ?r2) ! ?j = ?xj'"
    using i by (simp add: ro_pop_def)
  moreover have "exchange_frames ?xj' b = Inr (?xj'\<lparr>ani_interface := (ani_interface ?xj')\<lparr>ni_frames_out := []\<rparr>\<rparr>,
      b\<lparr>ani_datagrams_out := ani_datagrams_out b @ [d2]\<rparr>)"
    using exchange_frames_one(2) [of b ?xj' g d2] idle(3) g(2) by simp
  moreover have "dgram_same (forwarded d) d2"
    using f(3) g(3) by (auto simp: dgram_same_def forwarded_def)
  ultimately show ?thesis
    using f(1) x1 by (intro exI conjI) auto
qed

definition wired_example :: "byte \<Rightarrow> 32 word \<Rightarrow> byte \<Rightarrow> AsyncNetworkInterface" where
  "wired_example mac neighbour neighbour_mac =
     AsyncNetworkInterface_of ((NetworkInterface_init (MAC 2 0 0 0 0 mac) 0)\<lparr>ni_arp_table :=
       [neighbour \<mapsto> \<lparr>en_eAddr = MAC 2 0 0 0 0 neighbour_mac, en_updated_time = 0, en_ask_time = 0, en_exist = True\<rparr>]\<rparr>)"

definition wired_router_example :: Router where
  "wired_router_example =
     \<lparr>ro_interfaces = [wired_example 1 0x0A000002 5, wired_example 2 0xC0A80002 6], ro_table = []\<rparr>"

definition lan_route_example :: route where
  "lan_route_example = \<lparr>re_prefix = 0xC0A80000, re_length = 16, re_next_hop = None, re_interface = 1\<rparr>"

definition lan_dgram_example :: IPv4Datagram where
  "lan_dgram_example = dgram_example\<lparr>ipd_header := (ipd_header dgram_example)\<lparr>ih_dst := 0xC0A80002, ih_ttl := 64\<rparr>\<rparr>"

theorem datagram_through_router_witness:
  "\<exists>r. add_routes (\<lambda>_. 0) [wide_route_example, lan_route_example] wired_router_example = Some (Inr r) \<and>
    (\<exists>s x1 a1 r2 x2 b2 d'. send_datagram lan_dgram_example 0x0A000001 (ani_interface (wired_example 5 0x0A000001 1)) = Inr s \<and>
      exchange_frames (ro_interfaces r ! 0) ((wired_example 5 0x0A000001 1)\<lparr>ani_interface := s\<rparr>) = Inr (x1, a1) \<and>
      Router_route (r\<lparr>ro_interfaces := (ro_interfaces r)[0 := x1]\<rparr>) = Some (Inr r2) \<and>
      exchange_frames (ro_interfaces r2 ! 1) (wired_example 6 0 0) = Inr (x2, b2) \<and>
      ani_datagrams_out b2 = [d'] \<and> dgram_same (forwarded lan_dgram_example) d')"
proof -
  let ?es = "[wide_route_example, lan_route_example]"
  have routes: "\<forall>e \<in> set ?es. route_ok e" "sorted_wrt (\<lambda>e f. \<not> route_encloses f e) ?es"
    by (simp_all add: route_ok_def prefix_ok_def route_encloses_def route_matches_def wide_route_example_def
        lan_route_example_def)
  have "router_has {} wired_router_example"
    by (simp add: router_has_def rt_inv_def wired_router_example_def)
  then obtain r where r: "add_routes (\<lambda>_. 0) ?es wired_router_example = Some (Inr r)" "router_has (set ?es) r"
    "ro_interfaces r = ro_interfaces wired_router_example"
    using add_routes_has [of "{}" wired_router_example ?es "\<lambda>_. 0"] routes by auto
  have d: "dgram_wf lan_dgram_example" "1 < ih_ttl (ipd_header lan_dgram_example)"
    using dgram_example_wf by (simp_all add: dgram_wf_def lan_dgram_example_def IPv4Header_wf_def)
  have e: "lan_route_example \<in> set ?es" "route_ok lan_route_example"
    "route_matches lan_route_example (ih_dst (ipd_header lan_dgram_example))"
    "\<forall>f \<in> set ?es. route_matches f (ih_dst (ipd_header lan_dgram_example)) \<longrightarrow> re_length f \<le> re_length lan_route_example"
    using routes(1) by (simp_all add: route_matches_def wide_route_example_def lan_route_example_def lan_dgram_example_def)
  have i: "0 < length (ro_interfaces r)" "0 \<noteq> re_interface lan_route_example"
    "re_interface lan_route_example < length (ro_interfaces r)"
    "\<forall>x \<in> set (ro_interfaces r). ani_datagrams_out x = [] \<and> ani_frames x = []"
    by (simp_all add: r(3) wired_router_example_def lan_route_example_def wired_example_def AsyncNetworkInterface_of_def
        NetworkInterface_init_def)
  have a: "ani_frames (wired_example m n k) = []" "ani_datagrams_out (wired_example m n k) = []" for m n k
    by (simp_all add: wired_example_def AsyncNetworkInterface_of_def NetworkInterface_init_def)
  have knows: "ni_knows (ani_interface (wired_example 5 0x0A000001 1)) 0x0A000001
      (ni_ethernet_address (ani_interface (ro_interfaces r ! 0)))"
    "ni_knows (ani_interface (ro_interfaces r ! re_interface lan_route_example))
      (case re_next_hop lan_route_example of Some n \<Rightarrow> n | None \<Rightarrow> ih_dst (ipd_header lan_dgram_example))
      (ni_ethernet_address (ani_interface (wired_example 6 0 0)))"
    by (simp_all add: r(3) wired_router_example_def lan_route_example_def wired_example_def AsyncNetworkInterface_of_def
        NetworkInterface_init_def ni_knows_def lan_dgram_example_def)
  show ?thesis
    using r(1) datagram_through_router [OF d r(2) e i a(1) a(1) knows] by (auto simp: a(2) lan_route_example_def)
qed

end
