(* ===== verification/Command_Line.thy ===== *)
theory Command_Line
  imports Adapters TCP_Sender
begin

text \<open>
  The command lines of the client programs under \<^verbatim>\<open>apps\<close>: \<^verbatim>\<open>tcp_udp.cc\<close>, \<^verbatim>\<open>tcp_ipv4.cc\<close>,
  \<^verbatim>\<open>tcp_ip_ethernet.cc\<close>, \<^verbatim>\<open>tcp_native.cc\<close> and \<^verbatim>\<open>udp_tcpdump.cc\<close>. A program exits with a code, aborts,
  throws, or goes on with a configuration. The C library's conversions and the resolution of addresses are
  arguments. The text of the usage messages is left out, but not the program name they start with, which
  an empty command line does not have.
\<close>

section \<open>Arguments\<close>

datatype 'a outcome = Exited nat | Aborted | Threw exn | Value 'a

fun bind_outcome :: "'a outcome \<Rightarrow> ('a \<Rightarrow> 'b outcome) \<Rightarrow> 'b outcome" where
  "bind_outcome (Exited n) f = Exited n"
| "bind_outcome Aborted f = Aborted"
| "bind_outcome (Threw e) f = Threw e"
| "bind_outcome (Value x) f = f x"

definition outcome_of_res :: "'a res \<Rightarrow> 'a outcome" where
  "outcome_of_res m = (case m of Inl e \<Rightarrow> Threw e | Inr x \<Rightarrow> Value x)"

text \<open>
  \<open>lc_lossrate\<close> is \<^verbatim>\<open>strtof\<close> followed by the scaling to 16 bits; \<open>lc_resolve\<close> is the constructor of an
  address from a host and a service.
\<close>

record libc =
  lc_strtol :: "string \<Rightarrow> int"
  lc_lossrate :: "string \<Rightarrow> 16 word"
  lc_resolve :: "string \<Rightarrow> string \<Rightarrow> Address res"

text \<open>Equality of the first \<open>n\<close> characters, the terminating zero included.\<close>

definition strncmp_eq :: "string \<Rightarrow> string \<Rightarrow> nat \<Rightarrow> bool" where
  "strncmp_eq s t n \<longleftrightarrow> take n (s @ [CHR 0x00]) = take n (t @ [CHR 0x00])"

definition arg :: "string list \<Rightarrow> nat \<Rightarrow> string outcome" where
  "arg argv i = (if i < length argv then Value (argv ! i) else Threw UndefinedBehaviour)"

text \<open>\<^verbatim>\<open>show_usage(argv[0], ...)\<close> and the exit after it.\<close>

definition show_usage :: "string list \<Rightarrow> nat \<Rightarrow> 'a outcome" where
  "show_usage argv code = bind_outcome (arg argv 0) (\<lambda>_. Exited code)"

definition check_argc :: "string list \<Rightarrow> nat \<Rightarrow> unit outcome" where
  "check_argc argv cur = (if cur + 3 \<ge> length argv then show_usage argv 1 else Value ())"

text \<open>An option with an argument.\<close>

definition option_arg :: "string list \<Rightarrow> nat \<Rightarrow> (string \<Rightarrow> 'o) \<Rightarrow> ('o \<times> nat) outcome" where
  "option_arg argv cur f =
     bind_outcome (check_argc argv cur) (\<lambda>_.
     bind_outcome (arg argv (cur + 1)) (\<lambda>v. Value (f v, cur + 2)))"

definition strtol_size :: "libc \<Rightarrow> string \<Rightarrow> size_t" where
  "strtol_size lc v = nat (lc_strtol lc v mod 2 ^ 64)"

text \<open>
  The loop over the options. One round looks at the argument at \<open>cur\<close> and returns the options and the
  next position, which is further on.
\<close>

function (sequential) get_options ::
  "(string \<Rightarrow> nat \<Rightarrow> 'o \<Rightarrow> ('o \<times> nat) outcome) \<Rightarrow> string list \<Rightarrow> nat \<Rightarrow> 'o \<Rightarrow> ('o \<times> nat) outcome" where
  "get_options option argv cur opts =
     (if length argv - cur > 2 then
        case bind_outcome (arg argv cur) (\<lambda>a. option a cur opts) of
          Exited n \<Rightarrow> Exited n
        | Aborted \<Rightarrow> Aborted
        | Threw e \<Rightarrow> Threw e
        | Value (opts', cur') \<Rightarrow>
            if cur' > cur then get_options option argv cur' opts' else Threw UndefinedBehaviour
      else Value (opts, cur))"
  by pat_completeness auto
termination
  by (relation "measure (\<lambda>(_, argv, cur, _). length argv - cur)") auto

declare get_options.simps [simp del]

section \<open>tcp\_ipv4\<close>

record ipv4_options =
  io_fsm :: TCPConfig
  io_filt :: FdAdapterConfig
  io_tundev :: "string option"
  io_listen :: bool
  io_source_address :: string
  io_source_port :: string

definition LOCAL_ADDRESS_DFLT :: string where
  "LOCAL_ADDRESS_DFLT = ''169.254.144.9''"

definition ipv4_option :: "libc \<Rightarrow> string list \<Rightarrow> string \<Rightarrow> nat \<Rightarrow> ipv4_options \<Rightarrow> (ipv4_options \<times> nat) outcome" where
  "ipv4_option lc argv a cur opts =
     (if strncmp_eq ''-l'' a 3 then Value (opts\<lparr>io_listen := True\<rparr>, cur + 1)
      else if strncmp_eq ''-a'' a 3 then option_arg argv cur (\<lambda>v. opts\<lparr>io_source_address := v\<rparr>)
      else if strncmp_eq ''-s'' a 3 then option_arg argv cur (\<lambda>v. opts\<lparr>io_source_port := v\<rparr>)
      else if strncmp_eq ''-w'' a 3 then
        option_arg argv cur (\<lambda>v. opts\<lparr>io_fsm := (io_fsm opts)\<lparr>cfg_recv_capacity := strtol_size lc v\<rparr>\<rparr>)
      else if strncmp_eq ''-t'' a 3 then
        option_arg argv cur (\<lambda>v. opts\<lparr>io_fsm := (io_fsm opts)\<lparr>cfg_rt_timeout := of_int (lc_strtol lc v)\<rparr>\<rparr>)
      else if strncmp_eq ''-d'' a 3 then option_arg argv cur (\<lambda>v. opts\<lparr>io_tundev := Some v\<rparr>)
      else if strncmp_eq ''-Lu'' a 3 then
        option_arg argv cur (\<lambda>v. opts\<lparr>io_filt := (io_filt opts)\<lparr>fc_loss_rate_up := lc_lossrate lc v\<rparr>\<rparr>)
      else if strncmp_eq ''-Ld'' a 3 then
        option_arg argv cur (\<lambda>v. opts\<lparr>io_filt := (io_filt opts)\<lparr>fc_loss_rate_dn := lc_lossrate lc v\<rparr>\<rparr>)
      else if strncmp_eq ''-h'' a 3 then show_usage argv 0
      else show_usage argv 1)"

definition ipv4_get_config :: "libc \<Rightarrow> string \<Rightarrow> string list \<Rightarrow> (TCPConfig \<times> FdAdapterConfig \<times> bool \<times> string option) outcome" where
  "ipv4_get_config lc random_port argv =
     bind_outcome
       (get_options (ipv4_option lc argv) argv 1
          \<lparr>io_fsm = TCPConfig_default, io_filt = FdAdapterConfig_default, io_tundev = None, io_listen = False,
           io_source_address = LOCAL_ADDRESS_DFLT, io_source_port = random_port\<rparr>)
       (\<lambda>(opts, cur).
          if io_listen opts then
            bind_outcome (arg argv (cur + 1)) (\<lambda>port.
            bind_outcome (outcome_of_res (lc_resolve lc ''0'' port)) (\<lambda>source.
              if ad_port source = 0 then show_usage argv 1
              else Value (io_fsm opts, (io_filt opts)\<lparr>fc_source := source\<rparr>, True, io_tundev opts)))
          else
            bind_outcome (arg argv cur) (\<lambda>host.
            bind_outcome (arg argv (cur + 1)) (\<lambda>port.
            bind_outcome (outcome_of_res (lc_resolve lc host port)) (\<lambda>destination.
            bind_outcome (outcome_of_res (lc_resolve lc (io_source_address opts) (io_source_port opts))) (\<lambda>source.
              Value (io_fsm opts, (io_filt opts)\<lparr>fc_destination := destination, fc_source := source\<rparr>, False,
                     io_tundev opts))))))"

definition ipv4_main_config :: "libc \<Rightarrow> string \<Rightarrow> string list \<Rightarrow> (TCPConfig \<times> FdAdapterConfig \<times> bool \<times> string) outcome" where
  "ipv4_main_config lc random_port argv =
     (if length argv < 3 then show_usage argv 1
      else bind_outcome (ipv4_get_config lc random_port argv) (\<lambda>(c_fsm, c_filt, listen, tun_dev_name).
             Value (c_fsm, c_filt, listen, case tun_dev_name of None \<Rightarrow> ''tun144'' | Some d \<Rightarrow> d)))"

section \<open>tcp\_udp\<close>

record udp_options =
  uo_fsm :: TCPConfig
  uo_filt :: FdAdapterConfig
  uo_listen :: bool

definition udp_option :: "libc \<Rightarrow> string list \<Rightarrow> string \<Rightarrow> nat \<Rightarrow> udp_options \<Rightarrow> (udp_options \<times> nat) outcome" where
  "udp_option lc argv a cur opts =
     (if strncmp_eq ''-l'' a 3 then Value (opts\<lparr>uo_listen := True\<rparr>, cur + 1)
      else if strncmp_eq ''-w'' a 3 then
        option_arg argv cur (\<lambda>v. opts\<lparr>uo_fsm := (uo_fsm opts)\<lparr>cfg_recv_capacity := strtol_size lc v\<rparr>\<rparr>)
      else if strncmp_eq ''-t'' a 3 then
        option_arg argv cur (\<lambda>v. opts\<lparr>uo_fsm := (uo_fsm opts)\<lparr>cfg_rt_timeout := of_int (lc_strtol lc v)\<rparr>\<rparr>)
      else if strncmp_eq ''-Lu'' a 3 then
        option_arg argv cur (\<lambda>v. opts\<lparr>uo_filt := (uo_filt opts)\<lparr>fc_loss_rate_up := lc_lossrate lc v\<rparr>\<rparr>)
      else if strncmp_eq ''-Ld'' a 3 then
        option_arg argv cur (\<lambda>v. opts\<lparr>uo_filt := (uo_filt opts)\<lparr>fc_loss_rate_dn := lc_lossrate lc v\<rparr>\<rparr>)
      else if strncmp_eq ''-h'' a 3 then show_usage argv 0
      else show_usage argv 1)"

text \<open>The positions are computed from the number of arguments, which is at least three.\<close>

definition udp_get_config :: "libc \<Rightarrow> string list \<Rightarrow> (TCPConfig \<times> FdAdapterConfig \<times> bool) outcome" where
  "udp_get_config lc argv =
     bind_outcome
       (get_options (udp_option lc argv) argv 1
          \<lparr>uo_fsm = TCPConfig_default, uo_filt = FdAdapterConfig_default, uo_listen = False\<rparr>)
       (\<lambda>(opts, cur).
          if uo_listen opts then
            bind_outcome (arg argv (length argv - 1)) (\<lambda>port.
            bind_outcome (outcome_of_res (lc_resolve lc ''0'' port)) (\<lambda>source.
              Value (uo_fsm opts, (uo_filt opts)\<lparr>fc_source := source\<rparr>, True)))
          else
            bind_outcome (arg argv (length argv - 2)) (\<lambda>host.
            bind_outcome (arg argv (length argv - 1)) (\<lambda>port.
            bind_outcome (outcome_of_res (lc_resolve lc host port)) (\<lambda>destination.
              Value (uo_fsm opts, (uo_filt opts)\<lparr>fc_destination := destination\<rparr>, False)))))"

definition udp_main_config :: "libc \<Rightarrow> string list \<Rightarrow> (TCPConfig \<times> FdAdapterConfig \<times> bool) outcome" where
  "udp_main_config lc argv = (if length argv < 3 then show_usage argv 1 else udp_get_config lc argv)"

section \<open>tcp\_ip\_ethernet\<close>

record ethernet_options =
  eo_fsm :: TCPConfig
  eo_filt :: FdAdapterConfig
  eo_tapdev :: string
  eo_source_address :: string
  eo_source_port :: string
  eo_next_hop_address :: string

definition ethernet_option ::
  "libc \<Rightarrow> string list \<Rightarrow> string \<Rightarrow> nat \<Rightarrow> ethernet_options \<Rightarrow> (ethernet_options \<times> nat) outcome" where
  "ethernet_option lc argv a cur opts =
     (if strncmp_eq ''-a'' a 3 then option_arg argv cur (\<lambda>v. opts\<lparr>eo_source_address := v\<rparr>)
      else if strncmp_eq ''-s'' a 3 then option_arg argv cur (\<lambda>v. opts\<lparr>eo_source_port := v\<rparr>)
      else if strncmp_eq ''-n'' a 3 then option_arg argv cur (\<lambda>v. opts\<lparr>eo_next_hop_address := v\<rparr>)
      else if strncmp_eq ''-w'' a 3 then
        option_arg argv cur (\<lambda>v. opts\<lparr>eo_fsm := (eo_fsm opts)\<lparr>cfg_recv_capacity := strtol_size lc v\<rparr>\<rparr>)
      else if strncmp_eq ''-t'' a 3 then
        option_arg argv cur (\<lambda>v. opts\<lparr>eo_fsm := (eo_fsm opts)\<lparr>cfg_rt_timeout := of_int (lc_strtol lc v)\<rparr>\<rparr>)
      else if strncmp_eq ''-d'' a 3 then option_arg argv cur (\<lambda>v. opts\<lparr>eo_tapdev := v\<rparr>)
      else if strncmp_eq ''-h'' a 3 then show_usage argv 0
      else show_usage argv 1)"

definition ethernet_get_config ::
  "libc \<Rightarrow> string \<Rightarrow> string list \<Rightarrow> (TCPConfig \<times> FdAdapterConfig \<times> Address \<times> string) outcome" where
  "ethernet_get_config lc random_port argv =
     bind_outcome
       (get_options (ethernet_option lc argv) argv 1
          \<lparr>eo_fsm = TCPConfig_default, eo_filt = FdAdapterConfig_default, eo_tapdev = ''tap10'',
           eo_source_address = ''169.254.10.9'', eo_source_port = random_port, eo_next_hop_address = ''169.254.10.1''\<rparr>)
       (\<lambda>(opts, cur).
          bind_outcome (arg argv cur) (\<lambda>host.
          bind_outcome (arg argv (cur + 1)) (\<lambda>port.
          bind_outcome (outcome_of_res (lc_resolve lc host port)) (\<lambda>destination.
          bind_outcome (outcome_of_res (lc_resolve lc (eo_source_address opts) (eo_source_port opts))) (\<lambda>source.
          bind_outcome (outcome_of_res (lc_resolve lc (eo_next_hop_address opts) ''0'')) (\<lambda>next_hop.
            Value (eo_fsm opts, (eo_filt opts)\<lparr>fc_destination := destination, fc_source := source\<rparr>, next_hop,
                   eo_tapdev opts)))))))"

definition ethernet_main_config ::
  "libc \<Rightarrow> string \<Rightarrow> string list \<Rightarrow> (TCPConfig \<times> FdAdapterConfig \<times> Address \<times> string) outcome" where
  "ethernet_main_config lc random_port argv = (if length argv < 3 then show_usage argv 1 else ethernet_get_config lc random_port argv)"

section \<open>tcp\_native and udp\_tcpdump\<close>

text \<open>Server mode, and the address to bind or to connect to.\<close>

definition native_main_config :: "string list \<Rightarrow> (bool \<times> string \<times> string) outcome" where
  "native_main_config argv =
     (if length argv < 3 then show_usage argv 1
      else
        let server_mode = strncmp_eq ''-l'' (argv ! 1) 3
        in if server_mode \<and> length argv < 4 then show_usage argv 1
           else if server_mode
             then bind_outcome (arg argv 2) (\<lambda>h. bind_outcome (arg argv 3) (\<lambda>p. Value (True, h, p)))
             else bind_outcome (arg argv 1) (\<lambda>h. bind_outcome (arg argv 2) (\<lambda>p. Value (False, h, p))))"

definition check_arg :: "string list \<Rightarrow> nat \<Rightarrow> unit outcome" where
  "check_arg argv cur = (if cur + 1 \<ge> length argv then show_usage argv 1 else Value ())"

function (sequential) parse_arguments :: "string list \<Rightarrow> nat \<Rightarrow> string option \<Rightarrow> (nat \<times> string option) outcome" where
  "parse_arguments argv cur dev =
     (if cur < length argv then
        if strncmp_eq ''-i'' (argv ! cur) 3 then
          (case check_arg argv cur of
             Value _ \<Rightarrow>
               (case arg argv (cur + 1) of
                  Value d \<Rightarrow> parse_arguments argv (cur + 2) (Some d)
                | Exited n \<Rightarrow> Exited n
                | Aborted \<Rightarrow> Aborted
                | Threw e \<Rightarrow> Threw e)
           | Exited n \<Rightarrow> Exited n
           | Aborted \<Rightarrow> Aborted
           | Threw e \<Rightarrow> Threw e)
        else if strncmp_eq ''-h'' (argv ! cur) 3 \<or> strncmp_eq ''--help'' (argv ! cur) 7 then show_usage argv 0
        else Value (cur, dev)
      else Value (cur, dev))"
  by pat_completeness auto
termination
  by (relation "measure (\<lambda>(argv, cur, _). length argv - cur)") auto

declare parse_arguments.simps [simp del]

definition filter_expression :: "string list \<Rightarrow> nat \<Rightarrow> string" where
  "filter_expression argv exp_start = concat (map (\<lambda>a. a @ '' '') (drop exp_start argv))"

section \<open>Every argument read is there\<close>

lemma show_usage_exits [simp]: "argv \<noteq> [] \<Longrightarrow> show_usage argv n = Exited n"
  by (simp add: show_usage_def arg_def)

text \<open>Without a program name the usage message cannot be printed.\<close>

lemma empty_command_line:
  "ipv4_main_config lc rp [] = Threw UndefinedBehaviour" "udp_main_config lc [] = Threw UndefinedBehaviour"
  "ethernet_main_config lc rp [] = Threw UndefinedBehaviour" "native_main_config [] = Threw UndefinedBehaviour"
  by (simp_all add: ipv4_main_config_def udp_main_config_def ethernet_main_config_def native_main_config_def
      show_usage_def arg_def)

lemma native_main_config_safe: "argv \<noteq> [] \<Longrightarrow> native_main_config argv \<noteq> Threw e"
  by (simp add: native_main_config_def arg_def Let_def)

lemma parse_arguments_safe:
  assumes "cur \<le> length argv"
  shows "parse_arguments argv cur dev \<noteq> Threw e \<and>
    (\<forall>n d. parse_arguments argv cur dev = Value (n, d) \<longrightarrow> n \<le> length argv)"
  using assms
proof (induction argv cur dev rule: parse_arguments.induct)
  case (1 argv cur dev)
  show ?case
  proof (cases "cur + 1 < length argv \<and> strncmp_eq ''-i'' (argv ! cur) 3")
    case True
    then have "parse_arguments argv cur dev = parse_arguments argv (cur + 2) (Some (argv ! (cur + 1)))"
      by (subst parse_arguments.simps) (simp add: check_arg_def arg_def)
    moreover have "check_arg argv cur = Value ()" "arg argv (cur + 1) = Value (argv ! (cur + 1))"
      using True by (simp_all add: check_arg_def arg_def)
    ultimately show ?thesis
      using 1(1) [of "()" "argv ! (cur + 1)"] True by simp
  next
    case False
    then show ?thesis
      using 1(2) by (subst (1 2) parse_arguments.simps) (cases "argv = []"; auto simp: check_arg_def)
  qed
qed

text \<open>
  What the loop relies on: a round moves on by one or two arguments, leaves the two positional ones, and
  throws nothing.
\<close>

definition option_ok :: "string list \<Rightarrow> (string \<Rightarrow> nat \<Rightarrow> 'o \<Rightarrow> ('o \<times> nat) outcome) \<Rightarrow> bool" where
  "option_ok argv option \<longleftrightarrow>
     (\<forall>a cur opts. cur + 2 < length argv \<longrightarrow>
        (\<forall>e. option a cur opts \<noteq> Threw e) \<and> option a cur opts \<noteq> Aborted \<and>
        (\<forall>opts' cur'. option a cur opts = Value (opts', cur') \<longrightarrow> cur < cur' \<and> cur' + 2 \<le> length argv))"

lemma option_okD:
  assumes "option_ok argv option" and "cur + 2 < length argv"
  shows "option a cur opts \<noteq> Threw e" and "option a cur opts \<noteq> Aborted"
    and "option a cur opts = Value (opts', cur') \<Longrightarrow> cur < cur' \<and> cur' + 2 \<le> length argv"
  using assms by (auto simp: option_ok_def)

lemma option_arg_cases:
  "argv \<noteq> [] \<Longrightarrow> option_arg argv cur f =
     (if cur + 3 \<ge> length argv then Exited 1 else Value (f (argv ! (cur + 1)), cur + 2))"
  by (simp add: option_arg_def check_argc_def arg_def)

lemma ipv4_option_ok: "option_ok argv (ipv4_option lc argv)"
  by (cases "argv = []") (auto simp: option_ok_def ipv4_option_def option_arg_cases)

lemma udp_option_ok: "option_ok argv (udp_option lc argv)"
  by (cases "argv = []") (auto simp: option_ok_def udp_option_def option_arg_cases)

lemma ethernet_option_ok: "option_ok argv (ethernet_option lc argv)"
  by (cases "argv = []") (auto simp: option_ok_def ethernet_option_def option_arg_cases)

text \<open>The loop ends in front of the last two arguments.\<close>

lemma get_options_ends:
  assumes "option_ok argv option" and "cur + 2 \<le> length argv"
  shows "(\<exists>n. get_options option argv cur opts = Exited n) \<or>
    (\<exists>opts' cur'. get_options option argv cur opts = Value (opts', cur') \<and> cur' + 2 = length argv)"
  using assms
proof (induction "length argv - cur" arbitrary: cur opts rule: less_induct)
  case less
  show ?case
  proof (cases "length argv - cur > 2")
    case True
    then have cur: "cur + 2 < length argv" "arg argv cur = Value (argv ! cur)"
      by (auto simp: arg_def)
    show ?thesis
    proof (cases "option (argv ! cur) cur opts")
      case (Exited n)
      then show ?thesis
        using True cur(2) by (subst get_options.simps) (simp add: get_options.simps)
    next
      case Aborted
      then show ?thesis
        using option_okD(2) [OF less.prems(1) cur(1)] by blast
    next
      case (Threw e)
      then show ?thesis
        using option_okD(1) [OF less.prems(1) cur(1)] by blast
    next
      case (Value p)
      obtain opts' cur' where p: "p = (opts', cur')"
        by fastforce
      then have next_cur: "cur < cur'" "cur' + 2 \<le> length argv"
        using option_okD(3) [OF less.prems(1) cur(1)] Value by auto
      have "get_options option argv cur opts = get_options option argv cur' opts'"
        using True cur(2) Value p next_cur(1) by (subst get_options.simps) simp
      then show ?thesis
        using less.hyps [OF _ less.prems(1) next_cur(2), of opts'] next_cur cur(1) by simp
    qed
  next
    case False
    then show ?thesis
      using less.prems(2) by (simp add: get_options.simps)
  qed
qed

lemma get_options_cases:
  assumes "option_ok argv option" and "3 \<le> length argv"
  obtains n where "get_options option argv 1 opts = Exited n"
  | opts' where "get_options option argv 1 opts = Value (opts', length argv - 2)"
  using get_options_ends [OF assms(1), of 1 opts] assms(2) by fastforce

lemma arg_last:
  assumes "3 \<le> length argv"
  shows "arg argv (length argv - 2) = Value (argv ! (length argv - 2))"
    and "arg argv (length argv - Suc 0) = Value (argv ! (length argv - 1))"
    and "arg argv (Suc (length argv - 2)) = Value (argv ! (length argv - 1))"
proof -
  have "Suc (length argv - 2) = length argv - 1"
    using assms by linarith
  then show "arg argv (Suc (length argv - 2)) = Value (argv ! (length argv - 1))"
    using assms by (simp add: arg_def)
qed (use assms in \<open>simp_all add: arg_def\<close>)

text \<open>
  What the programs do with the two positional arguments. In listening mode the host is not looked at:
  the socket is bound to the address \<^verbatim>\<open>0\<close>.
\<close>

lemma ipv4_main_config_safe:
  assumes resolve: "\<And>h p. lc_resolve lc h p \<noteq> Inl UndefinedBehaviour" and "argv \<noteq> []"
  shows "ipv4_main_config lc rp argv \<noteq> Threw UndefinedBehaviour \<and>
    (\<forall>fsm filt listen dev. ipv4_main_config lc rp argv = Value (fsm, filt, listen, dev) \<longrightarrow>
       3 \<le> length argv \<and>
       (if listen
        then lc_resolve lc ''0'' (argv ! (length argv - 1)) = Inr (fc_source filt) \<and> ad_port (fc_source filt) \<noteq> 0
        else lc_resolve lc (argv ! (length argv - 2)) (argv ! (length argv - 1)) = Inr (fc_destination filt)))"
proof (cases "length argv < 3")
  case False
  then have len: "3 \<le> length argv"
    by simp
  show ?thesis
  proof (cases rule: get_options_cases [OF ipv4_option_ok len, of lc "\<lparr>io_fsm = TCPConfig_default, io_filt = FdAdapterConfig_default, io_tundev = None, io_listen = False,
      io_source_address = LOCAL_ADDRESS_DFLT, io_source_port = rp\<rparr>"])
    case 1
    then show ?thesis
      using False by (simp add: ipv4_main_config_def ipv4_get_config_def)
  next
    case (2 opts')
    then show ?thesis
      using False resolve assms(2)
      by (auto simp: ipv4_main_config_def ipv4_get_config_def arg_last [OF len] outcome_of_res_def split: sum.splits if_splits)
  qed
qed (use assms(2) in \<open>simp add: ipv4_main_config_def\<close>)

lemma udp_main_config_safe:
  assumes resolve: "\<And>h p. lc_resolve lc h p \<noteq> Inl UndefinedBehaviour" and "argv \<noteq> []"
  shows "udp_main_config lc argv \<noteq> Threw UndefinedBehaviour \<and>
    (\<forall>fsm filt listen. udp_main_config lc argv = Value (fsm, filt, listen) \<longrightarrow>
       3 \<le> length argv \<and>
       (if listen then lc_resolve lc ''0'' (argv ! (length argv - 1)) = Inr (fc_source filt)
        else lc_resolve lc (argv ! (length argv - 2)) (argv ! (length argv - 1)) = Inr (fc_destination filt)))"
proof (cases "length argv < 3")
  case False
  then have len: "3 \<le> length argv"
    by simp
  show ?thesis
  proof (cases rule: get_options_cases [OF udp_option_ok len, of lc "\<lparr>uo_fsm = TCPConfig_default, uo_filt = FdAdapterConfig_default, uo_listen = False\<rparr>"])
    case 1
    then show ?thesis
      using False by (simp add: udp_main_config_def udp_get_config_def)
  next
    case (2 opts')
    then show ?thesis
      using False resolve
      by (auto simp: udp_main_config_def udp_get_config_def arg_last [OF len] outcome_of_res_def split: sum.splits if_splits)
  qed
qed (use assms(2) in \<open>simp add: udp_main_config_def\<close>)

lemma ethernet_main_config_safe:
  assumes resolve: "\<And>h p. lc_resolve lc h p \<noteq> Inl UndefinedBehaviour" and "argv \<noteq> []"
  shows "ethernet_main_config lc rp argv \<noteq> Threw UndefinedBehaviour \<and>
    (\<forall>fsm filt hop dev. ethernet_main_config lc rp argv = Value (fsm, filt, hop, dev) \<longrightarrow>
       3 \<le> length argv \<and>
       lc_resolve lc (argv ! (length argv - 2)) (argv ! (length argv - 1)) = Inr (fc_destination filt))"
proof (cases "length argv < 3")
  case False
  then have len: "3 \<le> length argv"
    by simp
  show ?thesis
  proof (cases rule: get_options_cases [OF ethernet_option_ok len, of lc "\<lparr>eo_fsm = TCPConfig_default, eo_filt = FdAdapterConfig_default, eo_tapdev = ''tap10'',
      eo_source_address = ''169.254.10.9'', eo_source_port = rp, eo_next_hop_address = ''169.254.10.1''\<rparr>"])
    case 1
    then show ?thesis
      using False by (simp add: ethernet_main_config_def ethernet_get_config_def)
  next
    case (2 opts')
    then show ?thesis
      using False resolve
      by (auto simp: ethernet_main_config_def ethernet_get_config_def arg_last [OF len] outcome_of_res_def split: sum.splits if_splits)
  qed
qed (use assms(2) in \<open>simp add: ethernet_main_config_def\<close>)

text \<open>The host given in listening mode has no influence.\<close>

lemma listening_host_ignored:
  assumes "\<And>h p. lc_resolve lc h p \<noteq> Inl UndefinedBehaviour" and "argv \<noteq> []"
  shows "ipv4_main_config lc rp argv = Value (fsm, filt, True, dev) \<Longrightarrow>
      lc_resolve lc ''0'' (argv ! (length argv - 1)) = Inr (fc_source filt)"
    and "udp_main_config lc argv = Value (fsm, filt, True) \<Longrightarrow>
      lc_resolve lc ''0'' (argv ! (length argv - 1)) = Inr (fc_source filt)"
  using ipv4_main_config_safe [OF assms] udp_main_config_safe [OF assms] by fastforce+

text \<open>
  C40. The command lines of the three clients, whatever the arguments after the program name are. No
  argument that is not there is read, the options and the usage message included, so a configuration is
  only refused by an exit code or by the resolution of an address. There is a configuration only when
  both positional arguments are given; in client mode the destination is what the last two arguments
  resolve to, in listening mode \<^verbatim>\<open>tcp_ipv4\<close> only accepts a port different from zero.
\<close>

theorem command_lines_safe:
  assumes resolve: "\<And>h p. lc_resolve lc h p \<noteq> Inl UndefinedBehaviour" and "argv \<noteq> []"
  shows "ipv4_main_config lc rp argv \<noteq> Threw UndefinedBehaviour \<and> udp_main_config lc argv \<noteq> Threw UndefinedBehaviour \<and>
    ethernet_main_config lc rp argv \<noteq> Threw UndefinedBehaviour \<and>
    (\<forall>fsm filt listen dev. ipv4_main_config lc rp argv = Value (fsm, filt, listen, dev) \<longrightarrow>
       3 \<le> length argv \<and>
       (if listen then ad_port (fc_source filt) \<noteq> 0
        else lc_resolve lc (argv ! (length argv - 2)) (argv ! (length argv - 1)) = Inr (fc_destination filt))) \<and>
    (\<forall>fsm filt listen. udp_main_config lc argv = Value (fsm, filt, listen) \<longrightarrow>
       3 \<le> length argv \<and>
       (\<not> listen \<longrightarrow>
          lc_resolve lc (argv ! (length argv - 2)) (argv ! (length argv - 1)) = Inr (fc_destination filt))) \<and>
    (\<forall>fsm filt hop dev. ethernet_main_config lc rp argv = Value (fsm, filt, hop, dev) \<longrightarrow>
       3 \<le> length argv \<and>
       lc_resolve lc (argv ! (length argv - 2)) (argv ! (length argv - 1)) = Inr (fc_destination filt))"
proof -
  note safe = ipv4_main_config_safe [OF assms, of rp] udp_main_config_safe [OF assms]
    ethernet_main_config_safe [OF assms, of rp]
  have "\<forall>fsm filt listen dev. ipv4_main_config lc rp argv = Value (fsm, filt, listen, dev) \<longrightarrow>
       3 \<le> length argv \<and>
       (if listen then ad_port (fc_source filt) \<noteq> 0
        else lc_resolve lc (argv ! (length argv - 2)) (argv ! (length argv - 1)) = Inr (fc_destination filt))"
    using safe(1) by (meson)
  moreover have "\<forall>fsm filt listen. udp_main_config lc argv = Value (fsm, filt, listen) \<longrightarrow>
       3 \<le> length argv \<and>
       (\<not> listen \<longrightarrow>
          lc_resolve lc (argv ! (length argv - 2)) (argv ! (length argv - 1)) = Inr (fc_destination filt))"
    using safe(2) by meson
  ultimately show ?thesis
    using safe by blast
qed

definition libc_example :: libc where
  "libc_example =
     \<lparr>lc_strtol = (\<lambda>_. 500), lc_lossrate = (\<lambda>_. 0),
      lc_resolve = (\<lambda>h p. Inr \<lparr>ad_ipv4_numeric = of_nat (length h), ad_port = of_nat (length p)\<rparr>)\<rparr>"

theorem command_lines_safe_witness:
  "(\<exists>fsm filt dev. ipv4_main_config libc_example ''9'' [''tcp_ipv4'', ''-w'', ''500'', ''cs144'', ''1080''] =
      Value (fsm, filt, False, dev) \<and> cfg_recv_capacity fsm = 500 \<and>
    lc_resolve libc_example ''cs144'' ''1080'' = Inr (fc_destination filt)) \<and>
   udp_main_config libc_example [''tcp_udp'', ''-w'', ''cs144'', ''1080''] \<noteq> Threw UndefinedBehaviour"
proof -
  have resolve: "lc_resolve libc_example h p \<noteq> Inl UndefinedBehaviour" for h p
    by (simp add: libc_example_def)
  let ?argv = "[''tcp_ipv4'', ''-w'', ''500'', ''cs144'', ''1080'']"
  obtain fsm filt dev where c: "ipv4_main_config libc_example ''9'' ?argv = Value (fsm, filt, False, dev)"
    "cfg_recv_capacity fsm = 500"
    by (simp add: ipv4_main_config_def ipv4_get_config_def get_options.simps ipv4_option_def arg_def strncmp_eq_def
        option_arg_cases outcome_of_res_def libc_example_def strtol_size_def)
  have "lc_resolve libc_example (?argv ! (length ?argv - 2)) (?argv ! (length ?argv - 1)) = Inr (fc_destination filt)"
    using command_lines_safe [OF resolve, of ?argv "''9''"] c(1) by (metis list.discI)
  moreover have "udp_main_config libc_example [''tcp_udp'', ''-w'', ''cs144'', ''1080''] \<noteq> Threw UndefinedBehaviour"
    using command_lines_safe [OF resolve, of "[''tcp_udp'', ''-w'', ''cs144'', ''1080'']"] by (metis list.discI)
  ultimately show ?thesis
    using c by simp
qed

end
