(* ===== verification/Lab7.thy ===== *)
theory Lab7
  imports Network_Simulator Command_Line
begin

text \<open>
  \<^verbatim>\<open>apps/lab7.cc\<close>: two hosts, each behind its own router, talk over the Internet. A host is a socket over
  a \<^verbatim>\<open>NetworkInterfaceAdapter\<close>, whose frames go to the router in another thread through a pair of
  connected sockets. The rules of that thread are functions of the router and of what a descriptor
  delivers; what is written is kept in lists.
\<close>

section \<open>NetworkInterfaceAdapter\<close>

record NetworkInterfaceAdapter =
  na_base :: FdAdapterBase
  na_interface :: NetworkInterface
  na_next_hop :: Address
  na_data_socket :: "bytes list"

definition NetworkInterfaceAdapter_init :: "(nat \<Rightarrow> byte) \<Rightarrow> Address \<Rightarrow> Address \<Rightarrow> NetworkInterfaceAdapter" where
  "NetworkInterfaceAdapter_init rd ip_address next_hop =
     \<lparr>na_base = FdAdapterBase_init,
      na_interface = NetworkInterface_init (random_host_ethernet_address rd) (ad_ipv4_numeric ip_address),
      na_next_hop = next_hop, na_data_socket = []\<rparr>"

definition NetworkInterfaceAdapter_send_pending :: "NetworkInterfaceAdapter \<Rightarrow> NetworkInterfaceAdapter" where
  "NetworkInterfaceAdapter_send_pending a =
     a\<lparr>na_data_socket := send_pending_loop (ni_frames_out (na_interface a)) (na_data_socket a),
       na_interface := (na_interface a)\<lparr>ni_frames_out := []\<rparr>\<rparr>"

definition NetworkInterfaceAdapter_read ::
  "bytes \<Rightarrow> NetworkInterfaceAdapter \<Rightarrow> (TCPSegment option \<times> NetworkInterfaceAdapter) res" where
  "NetworkInterfaceAdapter_read bs a =
     bind_res (EthernetFrame_parse (Buffer_of_string bs) EthernetFrame_default) (\<lambda>(r, frame).
       if r \<noteq> NoError then Inr (None, a)
       else
         bind_res (recv_frame frame (na_interface a)) (\<lambda>(ip_dgram, s).
           let a1 = NetworkInterfaceAdapter_send_pending (a\<lparr>na_interface := s\<rparr>)
           in case ip_dgram of
                Some d \<Rightarrow> bind_res (unwrap_tcp_in_ip d (na_base a1)) (\<lambda>(seg, b). Inr (seg, a1\<lparr>na_base := b\<rparr>))
              | None \<Rightarrow> Inr (None, a1)))"

definition NetworkInterfaceAdapter_write :: "TCPSegment \<Rightarrow> NetworkInterfaceAdapter \<Rightarrow> NetworkInterfaceAdapter res" where
  "NetworkInterfaceAdapter_write seg a =
     bind_res (wrap_tcp_in_ip seg (na_base a)) (\<lambda>ip_dgram.
     bind_res (send_datagram ip_dgram (ad_ipv4_numeric (na_next_hop a)) (na_interface a)) (\<lambda>s.
       Inr (NetworkInterfaceAdapter_send_pending (a\<lparr>na_interface := s\<rparr>))))"

definition NetworkInterfaceAdapter_tick :: "64 word \<Rightarrow> NetworkInterfaceAdapter \<Rightarrow> NetworkInterfaceAdapter" where
  "NetworkInterfaceAdapter_tick ms a =
     NetworkInterfaceAdapter_send_pending (a\<lparr>na_interface := NetworkInterface_tick ms (na_interface a)\<rparr>)"

section \<open>TCPSocketLab7\<close>

definition lab7_AdaptT :: "(NetworkInterfaceAdapter, bytes) AdaptT" where
  "lab7_AdaptT =
     \<lparr>ad_read = NetworkInterfaceAdapter_read, ad_write = NetworkInterfaceAdapter_write,
      ad_tick = NetworkInterfaceAdapter_tick,
      ad_set_listening = (\<lambda>l a. a\<lparr>na_base := set_listening l (na_base a)\<rparr>),
      ad_set_config = (\<lambda>c a. a\<lparr>na_base := (na_base a)\<lparr>fa_cfg := c\<rparr>\<rparr>),
      ad_written = (\<lambda>a. length (na_data_socket a)), ad_at_eof = (\<lambda>bs. bs = [])\<rparr>"

text \<open>The random port of a client is an argument, as is the random number of the connection.\<close>

record 'x TCPSocketLab7 =
  l7_socket :: "(NetworkInterfaceAdapter, 'x) TCPSpongeSocket"
  l7_local_address :: Address

definition lab7_result ::
  "Address \<Rightarrow> ((NetworkInterfaceAdapter, 'x) TCPSpongeSocket Rule list \<times> (NetworkInterfaceAdapter, 'x) TCPSpongeSocket) res option \<Rightarrow>
     ((NetworkInterfaceAdapter, 'x) TCPSpongeSocket Rule list \<times> 'x TCPSocketLab7) res option" where
  "lab7_result local_address m =
     bind_ro m (\<lambda>(rules, sock). Some (Inr (rules, \<lparr>l7_socket = sock, l7_local_address = local_address\<rparr>)))"

definition TCPSocketLab7_connect ::
  "('x, bytes) kernel \<Rightarrow> (sr_map \<Rightarrow> size_t) \<Rightarrow> 32 word \<Rightarrow> 16 word \<Rightarrow> Address \<Rightarrow> 'x TCPSocketLab7 \<Rightarrow>
     ((NetworkInterfaceAdapter, 'x) TCPSpongeSocket Rule list \<times> 'x TCPSocketLab7) res option" where
  "TCPSocketLab7_connect K end_key random random_port address s =
     (let local_address = (l7_local_address s)\<lparr>ad_port := random_port\<rparr>
      in lab7_result local_address
           (TCPSpongeSocket_connect lab7_AdaptT K end_key random TCPConfig_default
              (FdAdapterConfig_default\<lparr>fc_source := local_address, fc_destination := address\<rparr>) (l7_socket s)))"

definition TCPSocketLab7_bind :: "Address \<Rightarrow> 'x TCPSocketLab7 \<Rightarrow> 'x TCPSocketLab7 res" where
  "TCPSocketLab7_bind address s =
     (if ad_ipv4_numeric address \<noteq> ad_ipv4_numeric (l7_local_address s) then Inl RuntimeError
      else Inr (s\<lparr>l7_local_address := (l7_local_address s)\<lparr>ad_port := ad_port address\<rparr>\<rparr>))"

definition TCPSocketLab7_listen_and_accept ::
  "('x, bytes) kernel \<Rightarrow> (sr_map \<Rightarrow> size_t) \<Rightarrow> 32 word \<Rightarrow> 'x TCPSocketLab7 \<Rightarrow>
     ((NetworkInterfaceAdapter, 'x) TCPSpongeSocket Rule list \<times> 'x TCPSocketLab7) res option" where
  "TCPSocketLab7_listen_and_accept K end_key random s =
     lab7_result (l7_local_address s)
       (listen_and_accept lab7_AdaptT K end_key random TCPConfig_default
          (FdAdapterConfig_default\<lparr>fc_source := l7_local_address s\<rparr>) (l7_socket s))"

section \<open>The routers\<close>

text \<open>The state of the network thread: the router, its two sides, and what was written on them.\<close>

record lab7_net =
  ln_router :: Router
  ln_host_side :: size_t
  ln_internet_side :: size_t
  ln_to_host :: "bytes list"
  ln_to_internet :: "bytes list"

definition lab7_net_init :: "(32 word \<Rightarrow> 32 word) \<Rightarrow> (nat \<Rightarrow> nat \<Rightarrow> byte) \<Rightarrow> bool \<Rightarrow> lab7_net res option" where
  "lab7_net_init flog rd is_client =
     (if is_client then
        let (host_side, r) = Router_add_interface (router_interface (rd 0) (ipv4 192 168 0 1)) Router_init;
            (internet_side, r) = Router_add_interface (router_interface (rd 1) (ipv4 10 0 0 192)) r
        in bind_ro (add_route flog (ipv4 192 168 0 0) 16 None host_side r) (\<lambda>r.
           bind_ro (add_route flog (ipv4 10 0 0 0) 8 None internet_side r) (\<lambda>r.
           bind_ro (add_route flog (ipv4 172 16 0 0) 12 (Some (ipv4 10 0 0 172)) internet_side r) (\<lambda>r.
             Some (Inr \<lparr>ln_router = r, ln_host_side = host_side, ln_internet_side = internet_side,
                        ln_to_host = [], ln_to_internet = []\<rparr>))))
      else
        let (host_side, r) = Router_add_interface (router_interface (rd 0) (ipv4 172 16 0 1)) Router_init;
            (internet_side, r) = Router_add_interface (router_interface (rd 1) (ipv4 10 0 0 172)) r
        in bind_ro (add_route flog (ipv4 172 16 0 0) 12 None host_side r) (\<lambda>r.
           bind_ro (add_route flog (ipv4 10 0 0 0) 8 None internet_side r) (\<lambda>r.
           bind_ro (add_route flog (ipv4 192 168 0 0) 16 (Some (ipv4 10 0 0 192)) internet_side r) (\<lambda>r.
             Some (Inr \<lparr>ln_router = r, ln_host_side = host_side, ln_internet_side = internet_side,
                        ln_to_host = [], ln_to_internet = []\<rparr>)))))"

definition lab7_sock :: "(nat \<Rightarrow> byte) \<Rightarrow> bool \<Rightarrow> NetworkInterfaceAdapter \<times> Address" where
  "lab7_sock rd is_client =
     (let addr = (\<lambda>ip. \<lparr>ad_ipv4_numeric = ip, ad_port = 0\<rparr>);
          (ip, hop) = (if is_client then (ipv4 192 168 0 50, ipv4 192 168 0 1) else (ipv4 172 16 0 100, ipv4 172 16 0 1))
      in (NetworkInterfaceAdapter_init rd (addr ip) (addr hop), addr ip))"

section \<open>The network thread\<close>

text \<open>How a socket is opened: the client connects to the server's address, the server binds it and listens.\<close>

definition lab7_start ::
  "('x, bytes) kernel \<Rightarrow> (sr_map \<Rightarrow> size_t) \<Rightarrow> 32 word \<Rightarrow> 16 word \<Rightarrow> bool \<Rightarrow> 'x TCPSocketLab7 \<Rightarrow>
     ((NetworkInterfaceAdapter, 'x) TCPSpongeSocket Rule list \<times> 'x TCPSocketLab7) res option" where
  "lab7_start K end_key random random_port is_client s =
     (let address = \<lparr>ad_ipv4_numeric = ipv4 172 16 0 100, ad_port = 1234\<rparr>
      in if is_client then TCPSocketLab7_connect K end_key random random_port address s
         else bind_ro (Some (TCPSocketLab7_bind address s)) (TCPSocketLab7_listen_and_accept K end_key random))"

text \<open>A frame that arrives on one side is given to the interface and the router routes.\<close>

definition lab7_receive :: "size_t \<Rightarrow> bytes \<Rightarrow> Router \<Rightarrow> Router res option" where
  "lab7_receive side bs r =
     bind_ro (Some (EthernetFrame_parse (Buffer_of_string bs) EthernetFrame_default)) (\<lambda>(res, frame).
       if res \<noteq> NoError then Some (Inr r)
       else
         bind_ro (Some (Router_interface side r)) (\<lambda>x.
         bind_ro (Some (AsyncNetworkInterface_recv_frame frame x)) (\<lambda>x.
           Router_route (r\<lparr>ro_interfaces := (ro_interfaces r)[side := x]\<rparr>))))"

definition lab7_host_to_router :: "bytes \<Rightarrow> lab7_net \<Rightarrow> lab7_net res option" where
  "lab7_host_to_router bs s =
     bind_ro (lab7_receive (ln_host_side s) bs (ln_router s)) (\<lambda>r. Some (Inr (s\<lparr>ln_router := r\<rparr>)))"

definition lab7_internet_to_router :: "bytes \<Rightarrow> lab7_net \<Rightarrow> lab7_net res option" where
  "lab7_internet_to_router bs s =
     bind_ro (lab7_receive (ln_internet_side s) bs (ln_router s)) (\<lambda>r. Some (Inr (s\<lparr>ln_router := r\<rparr>)))"

text \<open>The oldest frame of one side leaves; the rule is of interest when there is one.\<close>

definition lab7_transmit :: "size_t \<Rightarrow> Router \<Rightarrow> (bytes \<times> Router) res" where
  "lab7_transmit side r =
     bind_res (Router_interface side r) (\<lambda>x.
       case ni_frames_out (ani_interface x) of
         [] \<Rightarrow> Inl UndefinedBehaviour
       | f # frames \<Rightarrow>
           Inr (BufferList_concatenate (EthernetFrame_serialize f),
                r\<lparr>ro_interfaces := (ro_interfaces r)[side := x\<lparr>ani_interface := (ani_interface x)\<lparr>ni_frames_out := frames\<rparr>\<rparr>]\<rparr>))"

definition lab7_router_to_host :: "lab7_net \<Rightarrow> lab7_net res" where
  "lab7_router_to_host s =
     bind_res (lab7_transmit (ln_host_side s) (ln_router s)) (\<lambda>(bs, r).
       Inr (s\<lparr>ln_router := r, ln_to_host := ln_to_host s @ [bs]\<rparr>))"

definition lab7_router_to_internet :: "lab7_net \<Rightarrow> lab7_net res" where
  "lab7_router_to_internet s =
     bind_res (lab7_transmit (ln_internet_side s) (ln_router s)) (\<lambda>(bs, r).
       Inr (s\<lparr>ln_router := r, ln_to_internet := ln_to_internet s @ [bs]\<rparr>))"

definition lab7_interest :: "size_t \<Rightarrow> Router \<Rightarrow> bool res" where
  "lab7_interest side r = bind_res (Router_interface side r) (\<lambda>x. Inr (ni_frames_out (ani_interface x) \<noteq> []))"

definition lab7_tick_interface :: "size_t \<Rightarrow> Router \<Rightarrow> Router res" where
  "lab7_tick_interface side r =
     bind_res (Router_interface side r) (\<lambda>x.
       Inr (r\<lparr>ro_interfaces := (ro_interfaces r)[side := x\<lparr>ani_interface := NetworkInterface_tick 50 (ani_interface x)\<rparr>]\<rparr>))"

definition lab7_tick :: "lab7_net \<Rightarrow> lab7_net res" where
  "lab7_tick s =
     bind_res (lab7_tick_interface (ln_host_side s) (ln_router s)) (\<lambda>r.
     bind_res (lab7_tick_interface (ln_internet_side s) r) (\<lambda>r. Inr (s\<lparr>ln_router := r\<rparr>)))"

text \<open>A rule that is of interest has a frame to send, and sends exactly one.\<close>

lemma lab7_transmit_interest:
  assumes "lab7_interest side r = Inr True"
  shows "\<exists>f frames r'. lab7_transmit side r = Inr (BufferList_concatenate (EthernetFrame_serialize f), r') \<and>
    ni_frames_out (ani_interface (ro_interfaces r ! side)) = f # frames \<and>
    ni_frames_out (ani_interface (ro_interfaces r' ! side)) = frames \<and> ro_table r' = ro_table r"
  using assms
  by (auto simp: lab7_interest_def lab7_transmit_def Router_interface_def bind_res_def split: if_splits list.splits)

section \<open>The command line\<close>

text \<open>Client or server, the host and the port of the bouncer, and whether frames are reported.\<close>

definition lab7_main_config :: "string list \<Rightarrow> (bool \<times> string \<times> string \<times> bool) outcome" where
  "lab7_main_config argv =
     (if argv = [] then Aborted
      else if length argv \<noteq> 4 \<and> length argv \<noteq> 5 then show_usage argv 1
      else if argv ! 1 \<noteq> ''client'' \<and> argv ! 1 \<noteq> ''server'' then show_usage argv 1
      else Value (argv ! 1 = ''client'', argv ! 2, argv ! 3, length argv = 5))"

section \<open>The adapter carries segments\<close>

text \<open>The adapter is the Ethernet adapter of the library with another device underneath.\<close>

definition na_eth :: "NetworkInterfaceAdapter \<Rightarrow> TCPOverIPv4OverEthernetAdapter" where
  "na_eth a = \<lparr>ea_base = na_base a, ea_tap = na_data_socket a, ea_interface = na_interface a, ea_next_hop = na_next_hop a\<rparr>"

lemma na_eth_inj: "na_eth a = na_eth b \<Longrightarrow> a = b"
  by (simp add: na_eth_def)

lemma na_eth_simps [simp]:
  "ea_base (na_eth a) = na_base a" "ea_tap (na_eth a) = na_data_socket a" "ea_interface (na_eth a) = na_interface a"
  "ea_next_hop (na_eth a) = na_next_hop a" "(na_eth a)\<lparr>ea_interface := s\<rparr> = na_eth (a\<lparr>na_interface := s\<rparr>)"
  "(na_eth a)\<lparr>ea_base := b\<rparr> = na_eth (a\<lparr>na_base := b\<rparr>)" "send_pending (na_eth a) = na_eth (NetworkInterfaceAdapter_send_pending a)"
  by (simp_all add: na_eth_def send_pending_def NetworkInterfaceAdapter_send_pending_def)

lemma na_eth_write:
  "TCPOverIPv4OverEthernetAdapter_write seg (na_eth a) =
     bind_res (NetworkInterfaceAdapter_write seg a) (\<lambda>a'. Inr (na_eth a'))"
  by (simp add: TCPOverIPv4OverEthernetAdapter_write_def NetworkInterfaceAdapter_write_def bind_res_assoc)

lemma na_eth_read:
  "TCPOverIPv4OverEthernetAdapter_read bs (na_eth a) =
     bind_res (NetworkInterfaceAdapter_read bs a) (\<lambda>(seg, a'). Inr (seg, na_eth a'))"
  by (auto simp: TCPOverIPv4OverEthernetAdapter_read_def NetworkInterfaceAdapter_read_def bind_res_def Let_def
      split: sum.splits option.splits)

definition na_peers :: "NetworkInterfaceAdapter \<Rightarrow> NetworkInterfaceAdapter \<Rightarrow> bool" where
  "na_peers a b \<longleftrightarrow> eth_peers (na_eth a) (na_eth b)"

interpretation lab7_carrier: segment_carrier NetworkInterfaceAdapter_write NetworkInterfaceAdapter_read na_data_socket na_peers
proof
  fix a b :: NetworkInterfaceAdapter and seg :: TCPSegment
  assume "na_peers a b" and fits: "seg_fits seg"
  then obtain w e seg' where w: "TCPOverIPv4OverEthernetAdapter_write seg (na_eth a) = Inr e"
    "ea_tap e = na_data_socket a @ [w]" "eth_peers e (na_eth b)"
    "TCPOverIPv4OverEthernetAdapter_read w (na_eth b) = Inr (Some seg', na_eth b)" "tcp_same seg seg'"
    using eth.transfer [of "na_eth a" "na_eth b" seg] by (auto simp: na_peers_def)
  obtain a' where a': "NetworkInterfaceAdapter_write seg a = Inr a'" "e = na_eth a'"
    using w(1) by (auto simp: na_eth_write bind_res_eq_Inr)
  have "NetworkInterfaceAdapter_read w b = Inr (Some seg', b)"
    using w(4) na_eth_inj by (fastforce simp: na_eth_read bind_res_eq_Inr)
  then show "\<exists>w a' seg'. NetworkInterfaceAdapter_write seg a = Inr a' \<and> na_data_socket a' = na_data_socket a @ [w] \<and>
      na_peers a' b \<and> NetworkInterfaceAdapter_read w b = Inr (Some seg', b) \<and> tcp_same seg seg'"
    using a' w by (auto simp: na_peers_def)
qed

section \<open>Where the routers send\<close>

definition lab7_routes_of :: "bool \<Rightarrow> route list" where
  "lab7_routes_of is_client =
     (if is_client then
        [\<lparr>re_prefix = ipv4 192 168 0 0, re_length = 16, re_next_hop = None, re_interface = 0\<rparr>,
         \<lparr>re_prefix = ipv4 10 0 0 0, re_length = 8, re_next_hop = None, re_interface = 1\<rparr>,
         \<lparr>re_prefix = ipv4 172 16 0 0, re_length = 12, re_next_hop = Some (ipv4 10 0 0 172), re_interface = 1\<rparr>]
      else
        [\<lparr>re_prefix = ipv4 172 16 0 0, re_length = 12, re_next_hop = None, re_interface = 0\<rparr>,
         \<lparr>re_prefix = ipv4 10 0 0 0, re_length = 8, re_next_hop = None, re_interface = 1\<rparr>,
         \<lparr>re_prefix = ipv4 192 168 0 0, re_length = 16, re_next_hop = Some (ipv4 10 0 0 192), re_interface = 1\<rparr>])"

definition lab7_interfaces :: "(nat \<Rightarrow> nat \<Rightarrow> byte) \<Rightarrow> bool \<Rightarrow> AsyncNetworkInterface list" where
  "lab7_interfaces rd is_client =
     (if is_client then [router_interface (rd 0) (ipv4 192 168 0 1), router_interface (rd 1) (ipv4 10 0 0 192)]
      else [router_interface (rd 0) (ipv4 172 16 0 1), router_interface (rd 1) (ipv4 10 0 0 172)])"

lemma lab7_net_init_routes:
  assumes "add_routes flog (lab7_routes_of is_client) (Router_init\<lparr>ro_interfaces := lab7_interfaces rd is_client\<rparr>) = Some (Inr r)"
  shows "lab7_net_init flog rd is_client =
    Some (Inr \<lparr>ln_router = r, ln_host_side = 0, ln_internet_side = 1, ln_to_host = [], ln_to_internet = []\<rparr>)"
  using assms
  by (cases is_client)
    (auto simp: lab7_net_init_def lab7_routes_of_def lab7_interfaces_def Router_add_interface_def Router_init_def
      bind_ro_def bind_res_def split: option.splits sum.splits)

lemma lab7_routes_ok:
  "\<forall>e \<in> set (lab7_routes_of c). route_ok e" "sorted_wrt (\<lambda>e f. \<not> route_encloses f e) (lab7_routes_of c)"
  by (cases c; simp add: lab7_routes_of_def route_ok_def route_encloses_def route_matches_def prefix_ok_def ipv4_def)+

lemma lab7_add_routes:
  "\<exists>r. add_routes flog (lab7_routes_of c) (Router_init\<lparr>ro_interfaces := lab7_interfaces rd c\<rparr>) = Some (Inr r) \<and>
    router_has (set (lab7_routes_of c)) r \<and> ro_interfaces r = lab7_interfaces rd c"
proof -
  have "router_has {} (Router_init\<lparr>ro_interfaces := lab7_interfaces rd c\<rparr>)"
    by (simp add: router_has_def rt_inv_def Router_init_def)
  then show ?thesis
    using add_routes_has [of "{}" _ "lab7_routes_of c" flog] lab7_routes_ok [of c] by fastforce
qed

text \<open>The three networks.\<close>

definition in_192_168 :: "32 word \<Rightarrow> bool" where
  "in_192_168 a \<longleftrightarrow> drop_bit 16 a = 0xC0A8"

definition in_172_16 :: "32 word \<Rightarrow> bool" where
  "in_172_16 a \<longleftrightarrow> drop_bit 20 a = 0xAC1"

definition in_10 :: "32 word \<Rightarrow> bool" where
  "in_10 a \<longleftrightarrow> drop_bit 24 a = 10"

lemma lab7_matches:
  "re_prefix e = ipv4 192 168 0 0 \<Longrightarrow> re_length e = 16 \<Longrightarrow> route_matches e a \<longleftrightarrow> in_192_168 a"
  "re_prefix e = ipv4 172 16 0 0 \<Longrightarrow> re_length e = 12 \<Longrightarrow> route_matches e a \<longleftrightarrow> in_172_16 a"
  "re_prefix e = ipv4 10 0 0 0 \<Longrightarrow> re_length e = 8 \<Longrightarrow> route_matches e a \<longleftrightarrow> in_10 a"
  by (simp_all add: route_matches_def in_192_168_def in_172_16_def in_10_def ipv4_def)

lemma lab7_disjoint:
  "in_192_168 a \<Longrightarrow> \<not> in_172_16 a" "in_192_168 a \<Longrightarrow> \<not> in_10 a" "in_172_16 a \<Longrightarrow> \<not> in_10 a"
proof -
  have 24: "drop_bit 24 a = drop_bit 8 (drop_bit 16 a)" "drop_bit 24 a = drop_bit 4 (drop_bit 20 a)"
    "drop_bit 20 a = drop_bit 4 (drop_bit 16 a)"
    by simp_all
  show "in_192_168 a \<Longrightarrow> \<not> in_172_16 a"
    unfolding in_192_168_def in_172_16_def 24(3) by simp
  show "in_192_168 a \<Longrightarrow> \<not> in_10 a"
    unfolding in_192_168_def in_10_def 24(1) by simp
  show "in_172_16 a \<Longrightarrow> \<not> in_10 a"
    unfolding in_172_16_def in_10_def 24(2) by simp
qed

lemma lab7_route_matched:
  assumes "router_has (set (lab7_routes_of c)) r" and "1 < ih_ttl (ipd_header d)" and "e \<in> set (lab7_routes_of c)"
    and "route_matches e (ih_dst (ipd_header d))"
  shows "route_one_datagram d r =
    Some (router_sends (forwarded d) (case re_next_hop e of Some a \<Rightarrow> a | None \<Rightarrow> ih_dst (ipd_header d)) (re_interface e) r)"
proof (rule route_one_datagram_best [OF assms(1-3) _ assms(4)])
  show "route_ok e"
    using assms(3) lab7_routes_ok(1) by blast
  show "\<forall>f \<in> set (lab7_routes_of c). route_matches f (ih_dst (ipd_header d)) \<longrightarrow> re_length f \<le> re_length e"
    using assms(3,4) lab7_disjoint [of "ih_dst (ipd_header d)"]
    by (cases c) (auto simp: lab7_routes_of_def lab7_matches)
qed

text \<open>
  C38. Both routers of \<^verbatim>\<open>lab7\<close> come up whatever the random addresses: every \<^verbatim>\<open>add_route\<close> returns. A datagram
  for the router's own network leaves directly on the side of the host, one for \<^verbatim>\<open>10.0.0.0/8\<close> directly on the
  side of the Internet, one for the network of the peer goes through the router of the peer, and any other
  is dropped.
\<close>

theorem lab7_routes:
  assumes "1 < ih_ttl (ipd_header d)"
  shows "\<exists>s. lab7_net_init flog rd is_client = Some (Inr s) \<and> ln_host_side s = 0 \<and> ln_internet_side s = 1 \<and>
    length (ro_interfaces (ln_router s)) = 2 \<and>
    route_one_datagram d (ln_router s) = Some
      (let dst = ih_dst (ipd_header d); r = ln_router s; own = (if is_client then in_192_168 else in_172_16);
           peer = (if is_client then in_172_16 else in_192_168);
           peer_router = (if is_client then ipv4 10 0 0 172 else ipv4 10 0 0 192)
       in if own dst then router_sends (forwarded d) dst (ln_host_side s) r
          else if in_10 dst then router_sends (forwarded d) dst (ln_internet_side s) r
          else if peer dst then router_sends (forwarded d) peer_router (ln_internet_side s) r
          else Inr r)"
proof -
  let ?dst = "ih_dst (ipd_header d)"
  let ?r0 = "Router_init\<lparr>ro_interfaces := lab7_interfaces rd is_client\<rparr>"
  obtain r where r: "add_routes flog (lab7_routes_of is_client) ?r0 = Some (Inr r)"
    "router_has (set (lab7_routes_of is_client)) r" "ro_interfaces r = lab7_interfaces rd is_client"
    using lab7_add_routes by blast
  note matched = lab7_route_matched [OF r(2) assms]
  have unmatched: "route_one_datagram d r = Some (Inr r)"
    if "\<not> in_192_168 ?dst" "\<not> in_10 ?dst" "\<not> in_172_16 ?dst"
    using that by (intro route_one_datagram_unmatched [OF r(2) assms]) (auto simp: lab7_routes_of_def lab7_matches split: if_splits)
  have "length (ro_interfaces r) = 2"
    using r(3) by (simp add: lab7_interfaces_def)
  moreover have "route_one_datagram d r = Some
      (if (if is_client then in_192_168 else in_172_16) ?dst then router_sends (forwarded d) ?dst 0 r
       else if in_10 ?dst then router_sends (forwarded d) ?dst 1 r
       else if (if is_client then in_172_16 else in_192_168) ?dst
         then router_sends (forwarded d) (if is_client then ipv4 10 0 0 172 else ipv4 10 0 0 192) 1 r
       else Inr r)"
  proof (cases is_client)
    case True
    then show ?thesis
      using matched [of "lab7_routes_of is_client ! 0"] matched [of "lab7_routes_of is_client ! 1"]
        matched [of "lab7_routes_of is_client ! 2"] unmatched
      by (auto simp: lab7_routes_of_def lab7_matches)
  next
    case False
    then show ?thesis
      using matched [of "lab7_routes_of is_client ! 0"] matched [of "lab7_routes_of is_client ! 1"]
        matched [of "lab7_routes_of is_client ! 2"] unmatched
      by (auto simp: lab7_routes_of_def lab7_matches)
  qed
  ultimately show ?thesis
    using lab7_net_init_routes [OF r(1)] by (simp add: Let_def)
qed

theorem lab7_routes_witness:
  "\<exists>s. lab7_net_init (\<lambda>x. x) (\<lambda>i j. 0) True = Some (Inr s) \<and>
    route_one_datagram (IPv4Datagram_default\<lparr>ipd_header := IPv4Header_default\<lparr>ih_ttl := 64, ih_dst := ipv4 172 16 0 100\<rparr>\<rparr>) (ln_router s) =
      Some (router_sends (IPv4Datagram_default\<lparr>ipd_header := IPv4Header_default\<lparr>ih_dst := ipv4 172 16 0 100, ih_ttl := 63\<rparr>\<rparr>)
        (ipv4 10 0 0 172) 1 (ln_router s))"
  using lab7_routes [of "IPv4Datagram_default\<lparr>ipd_header := IPv4Header_default\<lparr>ih_ttl := 64, ih_dst := ipv4 172 16 0 100\<rparr>\<rparr>"
      "\<lambda>x. x" "\<lambda>i j. 0" True]
  by (auto simp: forwarded_def in_192_168_def in_172_16_def in_10_def ipv4_def)

end
