(* ===== verification/Network_Thread.thy ===== *)
theory Network_Thread
  imports Lab7
begin

text \<open>
  The network thread of \<^verbatim>\<open>apps/lab7.cc\<close> as a step relation: frames with any bytes arrive from the host and
  from the Internet, frames leave when a rule is of interest, and the clock ticks, in any order. The
  parsers never throw, so the thread goes on as long as no datagram is accepted that cannot be
  serialized again; one that is ends it.
\<close>

section \<open>Interfaces that hold only datagrams that can be sent\<close>

definition sendable :: "IPv4Datagram \<Rightarrow> bool" where
  "sendable d \<longleftrightarrow> BufferList_size (ipd_payload d) = unat (payload_length (ipd_header d)) \<and>
     ih_ver (ipd_header d) = 4 \<and> 5 \<le> unat (ih_hlen (ipd_header d))"

lemma sendable_serialize: "sendable d \<longleftrightarrow> (\<exists>bl. IPv4Datagram_serialize d = Inr bl)"
  by (auto simp: sendable_def IPv4Datagram_serialize_def IPv4Header_serialize_eq payload_length_def Let_def)

lemma sendable_forwarded [simp]: "sendable (forwarded d) \<longleftrightarrow> sendable d"
  by (simp add: sendable_def forwarded_def payload_length_def)

definition ni_safe :: "NetworkInterface \<Rightarrow> bool" where
  "ni_safe s \<longleftrightarrow> (\<forall>x \<in> set (ni_sent_dgram s). sendable (snd x))"

lemma send_arp_safe: "ni_safe s \<Longrightarrow> \<exists>s'. send_arp ip a s = Inr s' \<and> ni_safe s'"
  using send_arp_effect [of s a ip] by (auto simp: ni_safe_def)

lemma send_dgram_safe: "sendable d \<Longrightarrow> ni_safe s \<Longrightarrow> \<exists>s'. send_dgram d a s = Inr s' \<and> ni_safe s'"
  by (auto simp: send_dgram_def ni_safe_def sendable_serialize)

lemma send_datagram_safe:
  assumes "sendable d" and "ni_safe s"
  shows "\<exists>s'. send_datagram d ip s = Inr s' \<and> ni_safe s'"
proof -
  have set: "set (multimap_insert x m) = insert x (set m)" for x :: "32 word \<times> IPv4Datagram" and m
    by (metis mset_multimap_insert set_mset_add_mset_insert set_mset_mset)
  obtain s1 where s1: "send_arp ip None s = Inr s1" "ni_safe s1"
    using send_arp_safe [OF assms(2)] by blast
  then have "ni_safe (s1\<lparr>ni_sent_dgram := multimap_insert (ip, d) (ni_sent_dgram s1)\<rparr>)"
    using assms(1) by (simp add: ni_safe_def set)
  then show ?thesis
    using s1(1) send_dgram_safe [OF assms] by (auto simp: send_datagram_def split: option.split)
qed

lemma resend_loop_safe:
  assumes "\<forall>x \<in> set m. sendable (snd x)" and "\<forall>x \<in> set passed. sendable (snd x)" and "ni_safe s"
  shows "\<exists>s'. resend_loop ip a passed m s = Inr s' \<and> ni_safe s'"
  using assms
proof (induction m arbitrary: s)
  case Nil
  then show ?case
    by (simp add: ni_safe_def)
next
  case (Cons x m)
  obtain k d where x: "x = (k, d)"
    by fastforce
  then obtain s1 where "send_dgram d a s = Inr s1" "ni_safe s1"
    using Cons.prems send_dgram_safe [of d s a] by auto
  then show ?case
    using Cons x by (auto simp: ni_safe_def)
qed

lemma ni_resend_safe:
  assumes "ni_safe s"
  shows "\<exists>s'. ni_resend ip a s = Inr s' \<and> ni_safe s'"
  unfolding ni_resend_def using assms
  by (intro resend_loop_safe) (auto simp: ni_safe_def dest: set_takeWhileD set_dropWhileD)

lemma ni_recv_arp_safe:
  assumes "ni_safe s"
  shows "\<exists>s'. ni_recv_arp m s = Inr s' \<and> ni_safe s'"
proof -
  let ?answer = "if arp_opcode m = ARPMessage_OPCODE_REQUEST
    then send_arp (arp_sender_ip_address m) (Some (arp_sender_ethernet_address m)) s
    else if arp_opcode m = ARPMessage_OPCODE_REPLY
    then ni_resend (arp_sender_ip_address m) (arp_sender_ethernet_address m) s else Inr s"
  obtain s1 where "?answer = Inr s1" "ni_safe s1"
    using assms send_arp_safe [OF assms] ni_resend_safe [OF assms] by (metis (full_types))
  then have "ni_recv_arp m s = Inr s \<or> ni_recv_arp m s = Inr (ni_learn m s1)" "ni_safe (ni_learn m s1)"
    by (auto simp: ni_recv_arp_def ni_safe_def simp del: if_split_asm)
  then show ?thesis
    using assms by blast
qed

text \<open>A frame whose datagram, if one is accepted, has version 4 and a header of at least five words.\<close>

definition datagram_fine :: "EthernetFrame \<Rightarrow> bool" where
  "datagram_fine f \<longleftrightarrow>
     (case BufferList_to_Buffer (ef_payload f) of
        Inl _ \<Rightarrow> True
      | Inr b \<Rightarrow>
          (case IPv4Datagram_parse b IPv4Datagram_default of
             Inr (NoError, d) \<Rightarrow> ih_ver (ipd_header d) = 4 \<and> 5 \<le> unat (ih_hlen (ipd_header d))
           | _ \<Rightarrow> True))"

lemma recv_frame_safe:
  assumes "ef_payload f = [b]" and "Buffer_wf b" and "ni_safe s"
    and fine: "eh_type (ef_header f) = EthernetHeader_TYPE_IPv4 \<Longrightarrow> datagram_fine f"
  shows "\<exists>od s'. recv_frame f s = Inr (od, s') \<and> ni_safe s' \<and> (\<forall>d. od = Some d \<longrightarrow> sendable d)"
proof -
  have b: "BufferList_to_Buffer (ef_payload f) = Inr b"
    using assms(1) by (simp add: BufferList_to_Buffer_def)
  obtain r d where d: "IPv4Datagram_parse b IPv4Datagram_default = Inr (r, d)"
    "r = NoError \<Longrightarrow> BufferList_size (ipd_payload d) = unat (payload_length (ipd_header d))"
    using IPv4Datagram_parse_total [OF assms(2)] by blast
  obtain r' m where m: "ARPMessage_parse b ARPMessage_default = Inr (r', m)"
    using ARPMessage_parse_total [OF assms(2)] by blast
  have "sendable d" if "r = NoError" "eh_type (ef_header f) = EthernetHeader_TYPE_IPv4"
    using fine [OF that(2)] that(1) d by (simp add: datagram_fine_def sendable_def b)
  then show ?thesis
    using b d(1) m assms(3) ni_recv_arp_safe [OF assms(3), of m]
    by (auto simp: recv_frame_def Let_def ni_pkg_type_def)
qed

section \<open>Routing goes on\<close>

definition ani_safe :: "AsyncNetworkInterface \<Rightarrow> bool" where
  "ani_safe x \<longleftrightarrow> ni_safe (ani_interface x) \<and> (\<forall>d \<in> set (ani_datagrams_out x). sendable d)"

definition router_safe :: "bool \<Rightarrow> Router \<Rightarrow> bool" where
  "router_safe c r \<longleftrightarrow> router_has (set (lab7_routes_of c)) r \<and> length (ro_interfaces r) = 2 \<and>
     (\<forall>x \<in> set (ro_interfaces r). ani_safe x)"

lemma router_safe_update:
  assumes "router_safe c r" and "ani_safe x"
  shows "router_safe c (r\<lparr>ro_interfaces := (ro_interfaces r)[i := x]\<rparr>)"
  using assms by (auto simp: router_safe_def router_has_def dest: set_update_subset_insert [THEN subsetD])

lemma router_safe_interface:
  assumes "router_safe c r" and "i < 2"
  shows "Router_interface i r = Inr (ro_interfaces r ! i)" and "ani_safe (ro_interfaces r ! i)"
  using assms by (simp_all add: router_safe_def Router_interface_def)

lemma router_sends_safe:
  assumes "router_safe c r" and "sendable d" and "i < 2"
  shows "\<exists>r'. router_sends d next_hop i r = Inr r' \<and> router_safe c r'"
proof -
  let ?x = "ro_interfaces r ! i"
  note x = router_safe_interface [OF assms(1,3)]
  then obtain s where "send_datagram d next_hop (ani_interface ?x) = Inr s" "ni_safe s"
    using send_datagram_safe [OF assms(2), of "ani_interface ?x" next_hop] by (auto simp: ani_safe_def)
  moreover from this have "ani_safe (?x\<lparr>ani_interface := s\<rparr>)"
    using x(2) by (simp add: ani_safe_def)
  ultimately show ?thesis
    using x(1) router_safe_update [OF assms(1)] by (simp add: router_sends_def)
qed

lemma lab7_routes_interface: "e \<in> set (lab7_routes_of c) \<Longrightarrow> re_interface e < 2"
  by (auto simp: lab7_routes_of_def split: if_splits)

lemma route_one_datagram_safe:
  assumes r: "router_safe c r" and d: "sendable d"
  shows "\<exists>r'. route_one_datagram d r = Some (Inr r') \<and> router_safe c r'"
proof (cases "1 < ih_ttl (ipd_header d)")
  case True
  have has: "router_has (set (lab7_routes_of c)) r"
    using r by (simp add: router_safe_def)
  show ?thesis
  proof (cases "\<exists>e \<in> set (lab7_routes_of c). route_matches e (ih_dst (ipd_header d))")
    case matched: True
    then obtain e where e: "e \<in> set (lab7_routes_of c)" "route_matches e (ih_dst (ipd_header d))"
      by blast
    then show ?thesis
      using lab7_route_matched [OF has True e] router_sends_safe [OF r, of "forwarded d"] d lab7_routes_interface by simp
  next
    case False
    then show ?thesis
      using route_one_datagram_unmatched [OF has True] r by blast
  qed
next
  case False
  then have "ih_ttl (ipd_header d) = 0 \<or> ih_ttl (ipd_header d) = 1"
    by (auto simp: word_less_nat_alt word_unat_eq_iff)
  then show ?thesis
    using r by (auto simp: route_one_datagram_def Let_def)
qed

lemma ro_pop_safe:
  assumes "router_safe c r" and "i < 2"
  shows "router_safe c (ro_pop i r)"
proof -
  have "ani_safe ((ro_interfaces r ! i)\<lparr>ani_datagrams_out := tl (ani_datagrams_out (ro_interfaces r ! i))\<rparr>)"
    using router_safe_interface(2) [OF assms]
    by (cases "ani_datagrams_out (ro_interfaces r ! i)") (auto simp: ani_safe_def)
  then show ?thesis
    using router_safe_update [OF assms(1)] by (simp add: ro_pop_def)
qed

lemma route_queue_safe:
  assumes "router_safe c r" and "\<forall>d \<in> set ds. sendable d" and "i < 2"
  shows "\<exists>r'. route_queue i ds r = Some (Inr r') \<and> router_safe c r'"
  using assms
proof (induction ds arbitrary: r)
  case (Cons d ds)
  obtain r1 where "route_one_datagram d r = Some (Inr r1)" "router_safe c r1"
    using route_one_datagram_safe [OF Cons.prems(1), of d] Cons.prems(2) by auto
  then show ?case
    using Cons ro_pop_safe by simp
qed simp

lemma route_all_safe:
  assumes "router_safe c r" and "\<forall>i \<in> set is'. i < 2"
  shows "\<exists>r'. route_all is' r = Some (Inr r') \<and> router_safe c r'"
  using assms
proof (induction is' arbitrary: r)
  case (Cons i is')
  then obtain r1 where "route_queue i (ani_datagrams_out (ro_interfaces r ! i)) r = Some (Inr r1)" "router_safe c r1"
    using route_queue_safe [OF Cons.prems(1), of "ani_datagrams_out (ro_interfaces r ! i)" i] router_safe_interface(2) [OF Cons.prems(1), of i]
    by (auto simp: ani_safe_def)
  then show ?case
    using Cons by simp
qed simp

lemma Router_route_safe: "router_safe c r \<Longrightarrow> \<exists>r'. Router_route r = Some (Inr r') \<and> router_safe c r'"
  unfolding Router_route_def by (rule route_all_safe) (auto simp: router_safe_def)

definition frame_fine :: "bytes \<Rightarrow> bool" where
  "frame_fine bs \<longleftrightarrow>
     (case EthernetFrame_parse (Buffer_of_string bs) EthernetFrame_default of
        Inr (NoError, f) \<Rightarrow> eh_type (ef_header f) = EthernetHeader_TYPE_IPv4 \<longrightarrow> datagram_fine f
      | _ \<Rightarrow> True)"

lemma lab7_receive_safe:
  assumes r: "router_safe c r" and side: "side < 2" and fine: "frame_fine bs"
  shows "\<exists>r'. lab7_receive side bs r = Some (Inr r') \<and> router_safe c r'"
proof -
  obtain res f b where f: "EthernetFrame_parse (Buffer_of_string bs) EthernetFrame_default = Inr (res, f)"
    "ef_payload f = [b]" "Buffer_wf b"
    using EthernetFrame_parse_total by blast
  show ?thesis
  proof (cases "res = NoError")
    case True
    let ?x = "ro_interfaces r ! side"
    note x = router_safe_interface [OF r side]
    have "eh_type (ef_header f) = EthernetHeader_TYPE_IPv4 \<Longrightarrow> datagram_fine f"
      using fine f(1) True by (simp add: frame_fine_def)
    then obtain od s where s: "recv_frame f (ani_interface ?x) = Inr (od, s)" "ni_safe s" "\<forall>d. od = Some d \<longrightarrow> sendable d"
      using recv_frame_safe [OF f(2,3), of "ani_interface ?x"] x(2) by (auto simp: ani_safe_def)
    then obtain x' where x': "AsyncNetworkInterface_recv_frame f ?x = Inr x'" "ani_safe x'"
      using x(2) by (cases od) (auto simp: AsyncNetworkInterface_recv_frame_def ani_safe_def)
    then show ?thesis
      using f(1) True x(1) Router_route_safe [OF router_safe_update [OF r x'(2), of side]]
      by (simp add: lab7_receive_def)
  next
    case False
    then show ?thesis
      using f(1) r by (simp add: lab7_receive_def)
  qed
qed

section \<open>The thread\<close>

datatype lab7_event = From_Host bytes | From_Internet bytes | To_Host | To_Internet | Tick

fun lab7_step :: "lab7_event \<Rightarrow> lab7_net \<Rightarrow> lab7_net res option" where
  "lab7_step (From_Host bs) s = lab7_host_to_router bs s"
| "lab7_step (From_Internet bs) s = lab7_internet_to_router bs s"
| "lab7_step To_Host s = Some (lab7_router_to_host s)"
| "lab7_step To_Internet s = Some (lab7_router_to_internet s)"
| "lab7_step Tick s = Some (lab7_tick s)"

fun lab7_enabled :: "lab7_event \<Rightarrow> lab7_net \<Rightarrow> bool" where
  "lab7_enabled (From_Host bs) s = frame_fine bs"
| "lab7_enabled (From_Internet bs) s = frame_fine bs"
| "lab7_enabled To_Host s = (lab7_interest (ln_host_side s) (ln_router s) = Inr True)"
| "lab7_enabled To_Internet s = (lab7_interest (ln_internet_side s) (ln_router s) = Inr True)"
| "lab7_enabled Tick s = True"

inductive lab7_reachable :: "bool \<Rightarrow> lab7_net \<Rightarrow> bool" for is_client where
  start: "lab7_net_init flog rd is_client = Some (Inr s) \<Longrightarrow> lab7_reachable is_client s"
| step: "lab7_reachable is_client s \<Longrightarrow> lab7_enabled e s \<Longrightarrow> lab7_step e s = Some (Inr s') \<Longrightarrow> lab7_reachable is_client s'"

definition lab7_safe :: "bool \<Rightarrow> lab7_net \<Rightarrow> bool" where
  "lab7_safe c s \<longleftrightarrow> router_safe c (ln_router s) \<and> ln_host_side s = 0 \<and> ln_internet_side s = 1"

lemma lab7_transmit_safe:
  assumes r: "router_safe c r" and side: "side < 2" and interest: "lab7_interest side r = Inr True"
  shows "\<exists>bs r'. lab7_transmit side r = Inr (bs, r') \<and> router_safe c r'"
proof -
  let ?x = "ro_interfaces r ! side"
  note x = router_safe_interface [OF r side]
  obtain f fs where "ni_frames_out (ani_interface ?x) = f # fs"
    using interest x(1) by (cases "ni_frames_out (ani_interface ?x)") (simp_all add: lab7_interest_def)
  moreover have "ani_safe (?x\<lparr>ani_interface := (ani_interface ?x)\<lparr>ni_frames_out := fs\<rparr>\<rparr>)"
    using x(2) by (simp add: ani_safe_def ni_safe_def)
  ultimately show ?thesis
    using x(1) router_safe_update [OF r] by (simp add: lab7_transmit_def)
qed

lemma lab7_tick_interface_safe:
  assumes "router_safe c r" and "side < 2"
  shows "\<exists>r'. lab7_tick_interface side r = Inr r' \<and> router_safe c r'"
proof -
  let ?x = "ro_interfaces r ! side"
  note x = router_safe_interface [OF assms]
  have "ani_safe (?x\<lparr>ani_interface := NetworkInterface_tick 50 (ani_interface ?x)\<rparr>)"
    using x(2) by (simp add: ani_safe_def ni_safe_def NetworkInterface_tick_def)
  then show ?thesis
    using x(1) router_safe_update [OF assms(1)] by (simp add: lab7_tick_interface_def)
qed

lemma lab7_step_safe:
  assumes "lab7_safe c s" and "lab7_enabled e s"
  shows "\<exists>s'. lab7_step e s = Some (Inr s') \<and> lab7_safe c s'"
proof -
  have r: "router_safe c (ln_router s)" and sides: "ln_host_side s = 0" "ln_internet_side s = 1"
    using assms(1) by (simp_all add: lab7_safe_def)
  show ?thesis
  proof (cases e)
    case (From_Host bs)
    then show ?thesis
      using lab7_receive_safe [OF r, of 0 bs] assms(2) sides by (auto simp: lab7_host_to_router_def lab7_safe_def)
  next
    case (From_Internet bs)
    then show ?thesis
      using lab7_receive_safe [OF r, of 1 bs] assms(2) sides by (auto simp: lab7_internet_to_router_def lab7_safe_def)
  next
    case To_Host
    then show ?thesis
      using lab7_transmit_safe [OF r, of 0] assms(2) sides by (auto simp: lab7_router_to_host_def lab7_safe_def)
  next
    case To_Internet
    then show ?thesis
      using lab7_transmit_safe [OF r, of 1] assms(2) sides by (auto simp: lab7_router_to_internet_def lab7_safe_def)
  next
    case Tick
    obtain r1 where r1: "lab7_tick_interface 0 (ln_router s) = Inr r1" "router_safe c r1"
      using lab7_tick_interface_safe [OF r, of 0] by auto
    then show ?thesis
      using lab7_tick_interface_safe [OF r1(2), of 1] Tick sides by (auto simp: lab7_tick_def lab7_safe_def)
  qed
qed

lemma lab7_init_safe:
  assumes "lab7_net_init flog rd c = Some (Inr s)"
  shows "lab7_safe c s"
proof -
  obtain r where r: "add_routes flog (lab7_routes_of c) (Router_init\<lparr>ro_interfaces := lab7_interfaces rd c\<rparr>) = Some (Inr r)"
    "router_has (set (lab7_routes_of c)) r" "ro_interfaces r = lab7_interfaces rd c"
    using lab7_add_routes by blast
  then have "s = \<lparr>ln_router = r, ln_host_side = 0, ln_internet_side = 1, ln_to_host = [], ln_to_internet = []\<rparr>"
    using assms lab7_net_init_routes by fastforce
  moreover have "\<forall>x \<in> set (lab7_interfaces rd c). ani_safe x"
    by (auto simp: lab7_interfaces_def router_interface_def AsyncNetworkInterface_of_def NetworkInterface_init_def
        ani_safe_def ni_safe_def)
  ultimately show ?thesis
    using r(2,3) by (simp add: lab7_safe_def router_safe_def lab7_interfaces_def)
qed

lemma lab7_reachable_safe: "lab7_reachable c s \<Longrightarrow> lab7_safe c s"
proof (induction rule: lab7_reachable.induct)
  case (step s e s')
  then show ?case
    using lab7_step_safe [OF step.IH step.hyps(2)] by auto
qed (rule lab7_init_safe)

text \<open>
  C37. The network thread goes on. In every state that it reaches, whatever frames arrived and in
  whatever order frames left and time passed, the next callback of the loop or tick of the clock returns
  and throws nothing: a frame of any bytes arrives, an oldest frame leaves, or time passes. The one
  condition is on datagrams: one that the parser accepts has version 4 and a header of at least five
  words. Failures of the devices and the end of their streams are left out.
\<close>

theorem lab7_thread_survives:
  assumes "lab7_reachable is_client s" and "lab7_enabled e s"
  shows "\<exists>s'. lab7_step e s = Some (Inr s') \<and> lab7_reachable is_client s'"
  using lab7_step_safe [OF lab7_reachable_safe [OF assms(1)] assms(2)] lab7_reachable.step [OF assms] by blast

text \<open>An ARP request of the host for the address of its router, and a datagram to the host with version 6.\<close>

definition arp_request_example :: bytes where
  "arp_request_example =
     [255, 255, 255, 255, 255, 255, 2, 0, 0, 0, 0, 50, 8, 6,
      0, 1, 8, 0, 6, 4, 0, 1, 2, 0, 0, 0, 0, 50, 192, 168, 0, 50, 0, 0, 0, 0, 0, 0, 192, 168, 0, 1]"

definition wrong_version_example :: bytes where
  "wrong_version_example =
     [2, 0, 0, 0, 0, 0, 2, 0, 0, 0, 0, 9, 8, 0,
      0x65, 0, 0, 20, 0, 0, 0, 0, 64, 6, 0, 0, 10, 0, 0, 172, 192, 168, 0, 50]"

theorem lab7_thread_survives_witness:
  "\<exists>s s'. lab7_net_init (\<lambda>x. x) (\<lambda>i j. 0) True = Some (Inr s) \<and>
    lab7_step (From_Host arp_request_example) s = Some (Inr s') \<and> lab7_reachable True s'"
proof -
  obtain s where s: "lab7_net_init (\<lambda>x. x) (\<lambda>i j. 0) True = Some (Inr s)"
    using lab7_add_routes lab7_net_init_routes by meson
  have "frame_fine arp_request_example"
    by code_simp
  then show ?thesis
    using lab7_thread_survives [OF lab7_reachable.start [OF s], of "From_Host arp_request_example"] s by auto
qed

text \<open>
  The condition on datagrams is needed: the parser drops the verdict on the version, so the router
  accepts the datagram, finds its route, and the serializer throws, which ends the thread.
\<close>

lemma lab7_wrong_version:
  "\<not> frame_fine wrong_version_example"
  "bind_ro (lab7_net_init (\<lambda>x. x) (\<lambda>i j. 0) True) (\<lambda>s.
   bind_ro (lab7_step (From_Host arp_request_example) s)
     (lab7_step (From_Internet wrong_version_example))) = Some (Inl RuntimeError)"
  by code_simp+

end
