(* ===== verification/Formatting.thy ===== *)
theory Formatting
  imports TCP_Segment IPv4_Datagram Ethernet_Frame
begin

text \<open>
  The text that the library prints: \<^verbatim>\<open>hexdump\<close> of \<^verbatim>\<open>util/util.cc\<close>, the descriptions of headers and messages,
  and the summary of a frame that \<^verbatim>\<open>apps/lab7.cc\<close> and \<^verbatim>\<open>apps/network_simulator.cc\<close> print. Streams have their
  default flags. The dump is shown to have the layout of lines of sixteen bytes.
\<close>

section \<open>Numbers\<close>

text \<open>The digits of a number in a base up to sixteen, lower case.\<close>

definition digit_char :: "nat \<Rightarrow> char" where
  "digit_char n = ''0123456789abcdef'' ! n"

fun digits :: "nat \<Rightarrow> nat \<Rightarrow> string" where
  "digits base n =
     (if base < 2 \<or> n < base then [digit_char n] else digits base (n div base) @ [digit_char (n mod base)])"

declare digits.simps [simp del]

definition setw :: "nat \<Rightarrow> char \<Rightarrow> string \<Rightarrow> string" where
  "setw w fill s = replicate (w - length s) fill @ s"

abbreviation dec :: "nat \<Rightarrow> string" where
  "dec \<equiv> digits 10"

abbreviation hex :: "nat \<Rightarrow> string" where
  "hex \<equiv> digits 16"

definition boolalpha :: "bool \<Rightarrow> string" where
  "boolalpha b = (if b then ''true'' else ''false'')"

section \<open>hexdump\<close>

text \<open>
  A string stream built from a string starts to write at the beginning of that string, and so it does
  after its contents are replaced.
\<close>

record stringstream =
  ss_str :: string
  ss_pos :: nat

definition stringstream_of :: "string \<Rightarrow> stringstream" where
  "stringstream_of s = \<lparr>ss_str = s, ss_pos = 0\<rparr>"

definition stringstream_put :: "char \<Rightarrow> stringstream \<Rightarrow> stringstream" where
  "stringstream_put c s =
     \<lparr>ss_str = (if ss_pos s < length (ss_str s) then (ss_str s)[ss_pos s := c] else ss_str s @ [c]), ss_pos = ss_pos s + 1\<rparr>"

definition printable :: "byte \<Rightarrow> char" where
  "printable b = (if 0x20 \<le> b \<and> b < 0x7f then char_of (unat b) else CHR ''.'')"

text \<open>The loop over the bytes; what is printed is collected in \<open>out\<close>.\<close>

fun hexdump_loop :: "string \<Rightarrow> bytes \<Rightarrow> nat \<Rightarrow> stringstream \<Rightarrow> string \<Rightarrow> nat \<times> stringstream \<times> string" where
  "hexdump_loop indent_string [] printed pchars out = (printed, pchars, out)"
| "hexdump_loop indent_string (b # data) printed pchars out =
     (let (pchars, out) =
        (if printed mod 16 = 0 then
           let (pchars, out) =
             (if printed \<noteq> 0 then (stringstream_of '' '', out @ ''    '' @ ss_str pchars @ [CHR 0x0a]) else (pchars, out))
           in (pchars, out @ indent_string @ setw 8 (CHR ''0'') (hex printed) @ '':    '')
         else if printed mod 2 = 0 then (pchars, out @ '' '')
         else (pchars, out))
      in hexdump_loop indent_string data (printed + 1) (stringstream_put (printable b) pchars)
           (out @ setw 2 (CHR ''0'') (hex (unat b))))"

text \<open>The count is an \<^verbatim>\<open>int\<close>: it overflows on \<open>2 ^ 31\<close> bytes.\<close>

definition hexdump :: "bytes \<Rightarrow> nat \<Rightarrow> string res" where
  "hexdump data indent =
     (if length data \<ge> 2 ^ 31 then Inl UndefinedBehaviour
      else
        let (printed, pchars, out) = hexdump_loop (replicate indent (CHR '' '')) data 0 (stringstream_of '' '') [];
            print_rem = (16 - printed mod 16) mod 16
        in Inr (out @ replicate (2 * print_rem + print_rem div 2 + 4) (CHR '' '') @ ss_str pchars @ [CHR 0x0a, CHR 0x0a]))"

section \<open>Headers and messages\<close>

definition TCPHeader_to_string :: "TCPHeader \<Rightarrow> string" where
  "TCPHeader_to_string h =
     ''TCP source port: '' @ hex (unat (th_sport h)) @ [CHR 0x0a] @
     ''TCP dest port: '' @ hex (unat (th_dport h)) @ [CHR 0x0a] @
     ''TCP seqno: '' @ hex (unat (raw_value (th_seqno h))) @ [CHR 0x0a] @
     ''TCP ackno: '' @ hex (unat (raw_value (th_ackno h))) @ [CHR 0x0a] @
     ''TCP doff: '' @ hex (unat (th_doff h)) @ [CHR 0x0a] @
     ''Flags: urg: '' @ boolalpha (th_urg h) @ '' ack: '' @ boolalpha (th_ack h) @ '' psh: '' @ boolalpha (th_psh h) @
     '' rst: '' @ boolalpha (th_rst h) @ '' syn: '' @ boolalpha (th_syn h) @ '' fin: '' @ boolalpha (th_fin h) @ [CHR 0x0a] @
     ''TCP winsize: '' @ hex (unat (th_win h)) @ [CHR 0x0a] @
     ''TCP cksum: '' @ hex (unat (th_cksum h)) @ [CHR 0x0a] @
     ''TCP uptr: '' @ hex (unat (th_uptr h)) @ [CHR 0x0a]"

definition TCPHeader_summary :: "TCPHeader \<Rightarrow> string" where
  "TCPHeader_summary h =
     ''Header(flags='' @ (if th_syn h then ''S'' else '''') @ (if th_ack h then ''A'' else '''') @
     (if th_rst h then ''R'' else '''') @ (if th_fin h then ''F'' else '''') @
     '',seqno='' @ dec (unat (raw_value (th_seqno h))) @ '',ack='' @ dec (unat (raw_value (th_ackno h))) @
     '',win='' @ dec (unat (th_win h)) @ '')''"

definition IPv4Header_to_string :: "IPv4Header \<Rightarrow> string" where
  "IPv4Header_to_string h =
     ''IP version: '' @ hex (unat (ih_ver h)) @ [CHR 0x0a] @
     ''IP hdr len: '' @ hex (unat (ih_hlen h)) @ [CHR 0x0a] @
     ''IP tos: '' @ hex (unat (ih_tos h)) @ [CHR 0x0a] @
     ''IP dgram len: '' @ hex (unat (ih_len h)) @ [CHR 0x0a] @
     ''IP id: '' @ hex (unat (ih_id h)) @ [CHR 0x0a] @
     ''Flags: df: '' @ boolalpha (ih_df h) @ '' mf: '' @ boolalpha (ih_mf h) @ [CHR 0x0a] @
     ''Offset: '' @ hex (unat (ih_offset h)) @ [CHR 0x0a] @
     ''TTL: '' @ hex (unat (ih_ttl h)) @ [CHR 0x0a] @
     ''Protocol: '' @ hex (unat (ih_proto h)) @ [CHR 0x0a] @
     ''Checksum: '' @ hex (unat (ih_cksum h)) @ [CHR 0x0a] @
     ''Src addr: '' @ hex (unat (ih_src h)) @ [CHR 0x0a] @
     ''Dst addr: '' @ hex (unat (ih_dst h)) @ [CHR 0x0a]"

text \<open>\<^verbatim>\<open>inet_ntoa\<close> of an address in network order: four decimal numbers.\<close>

definition inet_ntoa :: "32 word \<Rightarrow> string" where
  "inet_ntoa a =
     dec (unat (drop_bit 24 a)) @ ''.'' @ dec (unat (drop_bit 16 a AND 0xff)) @ ''.'' @
     dec (unat (drop_bit 8 a AND 0xff)) @ ''.'' @ dec (unat (a AND 0xff))"

definition IPv4Header_summary :: "IPv4Header \<Rightarrow> string" where
  "IPv4Header_summary h =
     ''IPv'' @ hex (unat (ih_ver h)) @ '', '' @ ''len='' @ hex (unat (ih_len h)) @ '', '' @
     ''protocol='' @ hex (unat (ih_proto h)) @ '', '' @
     (if ih_ttl h \<ge> 10 then '''' else ''ttl='' @ dec (unat (ih_ttl h)) @ '', '') @
     ''src='' @ inet_ntoa (ih_src h) @ '', '' @ ''dst='' @ inet_ntoa (ih_dst h)"

definition EthernetAddress_to_string :: "EthernetAddress \<Rightarrow> string" where
  "EthernetAddress_to_string a =
     concat (map (\<lambda>(i, b). setw 2 (CHR ''0'') (hex (unat b)) @ (if i \<noteq> length (mac_bytes a) - 1 then '':'' else ''''))
       (enumerate 0 (mac_bytes a)))"

definition EthernetHeader_to_string :: "EthernetHeader \<Rightarrow> string" where
  "EthernetHeader_to_string h =
     ''dst='' @ EthernetAddress_to_string (eh_dst h) @ '', src='' @ EthernetAddress_to_string (eh_src h) @ '', type='' @
     (if eh_type h = EthernetHeader_TYPE_IPv4 then ''IPv4''
      else if eh_type h = EthernetHeader_TYPE_ARP then ''ARP''
      else ''[unknown type '' @ hex (unat (eh_type h)) @ ''!]'')"

definition ARPMessage_to_string :: "ARPMessage \<Rightarrow> string" where
  "ARPMessage_to_string m =
     (let opcode_str =
        (if arp_opcode m = ARPMessage_OPCODE_REPLY then ''REPLY''
         else if arp_opcode m = ARPMessage_OPCODE_REQUEST then ''REQUEST'' else ''(unknown type)'')
      in ''opcode='' @ opcode_str @ '', sender='' @ EthernetAddress_to_string (arp_sender_ethernet_address m) @ ''/'' @
         inet_ntoa (arp_sender_ip_address m) @ '', target='' @ EthernetAddress_to_string (arp_target_ethernet_address m) @
         ''/'' @ inet_ntoa (arp_target_ip_address m))"

section \<open>The summary of a frame\<close>

definition summary :: "EthernetFrame \<Rightarrow> string res" where
  "summary frame =
     (let ret = EthernetHeader_to_string (ef_header frame)
      in if eh_type (ef_header frame) = EthernetHeader_TYPE_IPv4 then
           bind_res (IPv4Datagram_parse (Buffer_of_string (BufferList_concatenate (ef_payload frame))) IPv4Datagram_default)
             (\<lambda>(r, dgram).
               if r = NoError then
                 let ret = ret @ '' '' @ IPv4Header_summary (ipd_header dgram)
                 in if ih_proto (ipd_header dgram) = IPv4Header_PROTO_TCP then
                      bind_res (TCPSegment_parse (Buffer_of_string (BufferList_concatenate (ipd_payload dgram)))
                                  (pseudo_cksum (ipd_header dgram)) TCPSegment_default)
                        (\<lambda>(r, tcp_seg).
                          Inr (if r = NoError then ret @ '' '' @ TCPHeader_summary (ts_header tcp_seg) else ret))
                    else Inr ret
               else Inr (ret @ '' (bad IPv4)''))
         else if eh_type (ef_header frame) = EthernetHeader_TYPE_ARP then
           bind_res (BufferList_to_Buffer (ef_payload frame)) (\<lambda>buffer.
           bind_res (ARPMessage_parse buffer ARPMessage_default) (\<lambda>(r, arp).
             Inr (if r = NoError then ret @ '' '' @ ARPMessage_to_string arp else ret @ '' (bad ARP)'')))
         else Inr ret)"

section \<open>The layout of a dump\<close>

text \<open>
  A line shows its offset, up to sixteen bytes in columns of two, and the bytes as characters. The last
  line is padded so that its characters stand below the others.
\<close>

fun hex_columns :: "nat \<Rightarrow> bytes \<Rightarrow> string" where
  "hex_columns k [] = []"
| "hex_columns k (b # bs) =
     (if k \<noteq> 0 \<and> even k then '' '' else []) @ setw 2 (CHR ''0'') (hex (unat b)) @ hex_columns (k + 1) bs"

definition dump_row :: "string \<Rightarrow> nat \<Rightarrow> bytes \<Rightarrow> string" where
  "dump_row indent_string offset bs = indent_string @ setw 8 (CHR ''0'') (hex offset) @ '':    '' @ hex_columns 0 bs"

function dump_rows :: "string \<Rightarrow> nat \<Rightarrow> bytes \<Rightarrow> string" where
  "dump_rows indent_string offset bs =
     (if length bs \<le> 16 then
        let missing = 16 - length bs
        in dump_row indent_string offset bs @ replicate (2 * missing + missing div 2) (CHR '' '') @ ''    '' @
             map printable bs @ [CHR 0x0a, CHR 0x0a]
      else
        dump_row indent_string offset (take 16 bs) @ ''    '' @ map printable (take 16 bs) @ [CHR 0x0a] @
          dump_rows indent_string (offset + 16) (drop 16 bs))"
  by auto
termination
  by (relation "measure (\<lambda>(_, _, bs). length bs)") auto

declare dump_rows.simps [simp del]

lemma hexdump_loop_append:
  "hexdump_loop ind (xs @ ys) printed pchars out =
     (let (printed, pchars, out) = hexdump_loop ind xs printed pchars out in hexdump_loop ind ys printed pchars out)"
  by (induction xs arbitrary: printed pchars out) (simp_all add: Let_def split: prod.split)

text \<open>The space that a fresh stream holds is overwritten by the first character.\<close>

lemma stringstream_put_all:
  assumes "ss_pos s = length (ss_str s)"
  shows "fold stringstream_put cs s = \<lparr>ss_str = ss_str s @ cs, ss_pos = length (ss_str s @ cs)\<rparr>"
  using assms by (induction cs arbitrary: s) (simp_all add: stringstream_put_def)

lemma stringstream_fresh:
  "cs \<noteq> [] \<Longrightarrow> fold stringstream_put cs (stringstream_of '' '') = \<lparr>ss_str = cs, ss_pos = length cs\<rparr>"
  by (cases cs) (simp_all add: stringstream_put_all stringstream_of_def stringstream_put_def)

lemma hexdump_loop_inner:
  assumes "0 < k" and "k + length bs \<le> 16"
  shows "hexdump_loop ind bs (16 * q + k) pchars out =
    (16 * q + k + length bs, fold stringstream_put (map printable bs) pchars, out @ hex_columns k bs)"
  using assms
proof (induction bs arbitrary: k pchars out)
  case (Cons b bs)
  have "(16 * q + k) mod 16 = k" "(16 * q + k) mod 2 = 0 \<longleftrightarrow> even k"
    using Cons.prems by (simp_all add: even_iff_mod_2_eq_zero [symmetric])
  then show ?case
    using Cons.IH [of "k + 1"] Cons.prems by simp
qed simp

lemma hexdump_loop_row:
  assumes "bs \<noteq> []" and "length bs \<le> 16" and "q = 0 \<Longrightarrow> pchars = stringstream_of '' ''"
  shows "hexdump_loop ind bs (16 * q) pchars out =
    (16 * q + length bs, \<lparr>ss_str = map printable bs, ss_pos = length bs\<rparr>,
     out @ (if q = 0 then [] else ''    '' @ ss_str pchars @ [CHR 0x0a]) @ dump_row ind (16 * q) bs)"
proof -
  obtain b cs where bs: "bs = b # cs"
    using assms(1) by (cases bs) auto
  have fresh: "fold stringstream_put (map printable cs) (stringstream_put (printable b) (stringstream_of '' '')) =
      \<lparr>ss_str = map printable bs, ss_pos = length bs\<rparr>"
    using stringstream_fresh [of "map printable bs"] bs by simp
  show ?thesis
    using hexdump_loop_inner [of 1 cs ind q] assms(2,3) fresh by (simp add: bs dump_row_def)
qed

definition hexdump_end :: "nat \<times> stringstream \<times> string \<Rightarrow> string" where
  "hexdump_end = (\<lambda>(printed, pchars, out).
     let print_rem = (16 - printed mod 16) mod 16
     in out @ replicate (2 * print_rem + print_rem div 2 + 4) (CHR '' '') @ ss_str pchars @ [CHR 0x0a, CHR 0x0a])"

lemma hexdump_rows:
  assumes "bs \<noteq> []" and "q = 0 \<Longrightarrow> pchars = stringstream_of '' ''"
  shows "hexdump_end (hexdump_loop ind bs (16 * q) pchars out) =
    out @ (if q = 0 then [] else ''    '' @ ss_str pchars @ [CHR 0x0a]) @ dump_rows ind (16 * q) bs"
  using assms
proof (induction "length bs" arbitrary: bs q pchars out rule: less_induct)
  case less
  show ?case
  proof (cases "length bs \<le> 16")
    case True
    have "(16 * q + length bs) mod 16 = length bs mod 16"
      by simp
    moreover have "(16 - length bs mod 16) mod 16 = 16 - length bs"
      using True less.prems(1) by (cases "length bs = 16") (auto simp: Suc_le_eq)
    moreover have "replicate (n + 4) (CHR '' '') = replicate n (CHR '' '') @ ''    ''" for n
      unfolding replicate_add by (simp add: numeral_eq_Suc)
    ultimately show ?thesis
      using True hexdump_loop_row [OF less.prems(1) True less.prems(2)]
      by (simp add: hexdump_end_def Let_def dump_rows.simps [of ind "16 * q" bs])
  next
    case False
    have row: "hexdump_loop ind (take 16 bs) (16 * q) pchars out =
      (16 * (q + 1), \<lparr>ss_str = map printable (take 16 bs), ss_pos = 16\<rparr>,
       out @ (if q = 0 then [] else ''    '' @ ss_str pchars @ [CHR 0x0a]) @ dump_row ind (16 * q) (take 16 bs))"
      using hexdump_loop_row [of "take 16 bs" q pchars ind out] less.prems False by simp
    have "hexdump_loop ind bs (16 * q) pchars out =
        hexdump_loop ind (drop 16 bs) (16 * (q + 1)) \<lparr>ss_str = map printable (take 16 bs), ss_pos = 16\<rparr>
          (out @ (if q = 0 then [] else ''    '' @ ss_str pchars @ [CHR 0x0a]) @ dump_row ind (16 * q) (take 16 bs))"
      using hexdump_loop_append [of ind "take 16 bs" "drop 16 bs" "16 * q" pchars out] row by simp
    moreover have "dump_rows ind (16 * q) bs = dump_row ind (16 * q) (take 16 bs) @ ''    '' @
        map printable (take 16 bs) @ [CHR 0x0a] @ dump_rows ind (16 * (q + 1)) (drop 16 bs)"
      using False by (subst dump_rows.simps) (simp add: add.commute)
    ultimately show ?thesis
      using less.hyps [of "drop 16 bs" "q + 1"] False by simp
  qed
qed

lemma hexdump_layout:
  assumes "data \<noteq> []" and "length data < 2 ^ 31"
  shows "hexdump data indent = Inr (dump_rows (replicate indent (CHR '' '')) 0 data)"
  using hexdump_rows [OF assms(1), of 0 "stringstream_of '' ''" "replicate indent (CHR '' '')" "[]"] assms(2)
  by (simp add: hexdump_def hexdump_end_def Let_def split: prod.splits)

section \<open>The summary never throws\<close>

lemma TCPSegment_parse_total:
  assumes "Buffer_wf b"
  shows "\<exists>r seg. TCPSegment_parse b cksum seg0 = Inr (r, seg)"
proof -
  have "np_wf (NetParser_init b)"
    using np_at_init [OF assms] by (simp add: np_at_def)
  from TCPHeader_parse_total [OF this, of "ts_header seg0"] show ?thesis
    by (auto simp: TCPSegment_parse_def Let_def)
qed

lemma summary_total:
  assumes "ef_payload f = [b]" and "Buffer_wf b"
  shows "\<exists>s. summary f = Inr s"
proof -
  obtain r d where "IPv4Datagram_parse (Buffer_of_string (BufferList_concatenate (ef_payload f))) IPv4Datagram_default = Inr (r, d)"
    using IPv4Datagram_parse_total [of "Buffer_of_string (BufferList_concatenate (ef_payload f))" IPv4Datagram_default] by auto
  moreover obtain r' seg where "TCPSegment_parse (Buffer_of_string (BufferList_concatenate (ipd_payload d)))
      (pseudo_cksum (ipd_header d)) TCPSegment_default = Inr (r', seg)"
    using TCPSegment_parse_total [of "Buffer_of_string (BufferList_concatenate (ipd_payload d))"
      "pseudo_cksum (ipd_header d)" TCPSegment_default] by auto
  moreover obtain r'' m where "ARPMessage_parse b ARPMessage_default = Inr (r'', m)"
    using ARPMessage_parse_total [OF assms(2)] by blast
  ultimately show ?thesis
    using assms(1) by (simp add: summary_def Let_def BufferList_to_Buffer_def)
qed

end
