(* ===== verification/Socket_Address.thy ===== *)
theory Socket_Address
  imports Adapters Formatting
begin

text \<open>
  \<^verbatim>\<open>util/address.cc\<close>: an address is what the kernel calls a \<^verbatim>\<open>sockaddr\<close>, bytes in a storage of fixed size
  with the length in use. The resolver of the C library is an argument. The rest of the development uses
  the number and the port of an address only; \<open>raw_of\<close> relates the two.
\<close>

section \<open>Raw addresses\<close>

text \<open>Sizes and constants of Linux; the family is stored in the order of the host, which is little-endian.\<close>

definition sizeof_sockaddr_storage :: nat where
  "sizeof_sockaddr_storage = 128"

definition sizeof_sockaddr_in :: nat where
  "sizeof_sockaddr_in = 16"

definition AF_INET :: "16 word" where
  "AF_INET = 2"

record RawAddress =
  ra_storage :: bytes
  ra_size :: nat

definition sockaddr_in :: "32 word \<Rightarrow> 16 word \<Rightarrow> bytes" where
  "sockaddr_in ip port = [ucast AF_INET, ucast (drop_bit 8 AF_INET)] @ be16 port @ be32 ip @ replicate 8 0"

text \<open>The storage is zero before the copy.\<close>

definition Address_of_sockaddr :: "bytes \<Rightarrow> nat \<Rightarrow> RawAddress res" where
  "Address_of_sockaddr addr sz =
     (if sz > sizeof_sockaddr_storage then Inl RuntimeError
      else if sz > length addr then Inl UndefinedBehaviour
      else Inr \<lparr>ra_storage = take sz addr @ replicate (sizeof_sockaddr_storage - sz) 0, ra_size = sz\<rparr>)"

section \<open>Resolution\<close>

record addrinfo =
  ai_flags :: int
  ai_family :: "16 word"

definition make_hints :: "int \<Rightarrow> 16 word \<Rightarrow> addrinfo" where
  "make_hints flags family = \<lparr>ai_flags = flags, ai_family = family\<rparr>"

definition AI_NUMERICHOST :: int where
  "AI_NUMERICHOST = 4"

definition AI_ALL :: int where
  "AI_ALL = 16"

definition AI_NUMERICSERV :: int where
  "AI_NUMERICSERV = 1024"

text \<open>\<open>getaddrinfo\<close> returns a code and the first entry of the list, if any.\<close>

type_synonym resolver = "string \<Rightarrow> string \<Rightarrow> addrinfo \<Rightarrow> int \<times> bytes option"

definition Address_of_node :: "resolver \<Rightarrow> string \<Rightarrow> string \<Rightarrow> addrinfo \<Rightarrow> RawAddress res" where
  "Address_of_node getaddrinfo node service hints =
     (let (gai_ret, resolved_address) = getaddrinfo node service hints
      in if gai_ret \<noteq> 0 then Inl RuntimeError
         else case resolved_address of
                None \<Rightarrow> Inl RuntimeError
              | Some addr \<Rightarrow> Address_of_sockaddr addr (length addr))"

definition Address_of_service :: "resolver \<Rightarrow> string \<Rightarrow> string \<Rightarrow> RawAddress res" where
  "Address_of_service getaddrinfo hostname service = Address_of_node getaddrinfo hostname service (make_hints AI_ALL AF_INET)"

definition Address_of_ip :: "resolver \<Rightarrow> string \<Rightarrow> 16 word \<Rightarrow> RawAddress res" where
  "Address_of_ip getaddrinfo ip port =
     Address_of_node getaddrinfo ip (dec (unat port)) (make_hints (or AI_NUMERICHOST AI_NUMERICSERV) AF_INET)"

section \<open>IPv4 numbers and comparison\<close>

definition Address_ipv4_numeric :: "RawAddress \<Rightarrow> 32 word res" where
  "Address_ipv4_numeric a =
     (if take 2 (ra_storage a) \<noteq> [ucast AF_INET, ucast (drop_bit 8 AF_INET)] \<or> ra_size a \<noteq> sizeof_sockaddr_in
      then Inl RuntimeError
      else Inr (of_nat (be_val (take 4 (drop 4 (take (ra_size a) (ra_storage a)))))))"

definition Address_from_ipv4_numeric :: "32 word \<Rightarrow> RawAddress res" where
  "Address_from_ipv4_numeric ip_address = Address_of_sockaddr (sockaddr_in ip_address 0) sizeof_sockaddr_in"

definition Address_eq :: "RawAddress \<Rightarrow> RawAddress \<Rightarrow> bool" where
  "Address_eq a b \<longleftrightarrow> ra_size a = ra_size b \<and> take (ra_size a) (ra_storage a) = take (ra_size a) (ra_storage b)"

section \<open>The abstraction\<close>

definition raw_of :: "Address \<Rightarrow> RawAddress" where
  "raw_of a =
     \<lparr>ra_storage = sockaddr_in (ad_ipv4_numeric a) (ad_port a) @ replicate 112 0, ra_size = sizeof_sockaddr_in\<rparr>"

lemmas address_sizes = sizeof_sockaddr_storage_def sizeof_sockaddr_in_def AF_INET_def

lemma sockaddr_in_length [simp]: "length (sockaddr_in ip port) = 16"
  by (simp add: sockaddr_in_def)

lemma be_val_be32: "be_val (be32 x) = unat x"
  using be_val_be_bytes [of 4 "unat x"] unat_lt [of x] by (simp add: be32_def)

lemma Address_of_sockaddr_in:
  "Address_of_sockaddr (sockaddr_in ip port) sizeof_sockaddr_in = Inr (raw_of \<lparr>ad_ipv4_numeric = ip, ad_port = port\<rparr>)"
  by (simp add: Address_of_sockaddr_def raw_of_def address_sizes)

lemma raw_of_numeric: "Address_ipv4_numeric (raw_of a) = Inr (ad_ipv4_numeric a)"
  by (simp add: Address_ipv4_numeric_def raw_of_def sockaddr_in_def address_sizes be_val_be32)

text \<open>A number survives the way into an address and back.\<close>

lemma ipv4_numeric_roundtrip: "bind_res (Address_from_ipv4_numeric ip) Address_ipv4_numeric = Inr ip"
  by (simp add: Address_from_ipv4_numeric_def Address_of_sockaddr_in raw_of_numeric)

text \<open>The comparison of the bytes is the comparison of number and port.\<close>

lemma Address_eq_raw_of: "Address_eq (raw_of a) (raw_of b) \<longleftrightarrow> a = b"
proof -
  have "sockaddr_in ip port = sockaddr_in ip' port' \<longleftrightarrow> ip = ip' \<and> port = port'" for ip port ip' port'
    using u16.put_inj [of port port'] u32.put_inj [of ip ip'] by (auto simp: sockaddr_in_def)
  then show ?thesis
    by (cases a; cases b) (simp add: Address_eq_def raw_of_def sizeof_sockaddr_in_def)
qed

text \<open>A resolver that answers with an IPv4 address gives the address that the rest of the development uses.\<close>

lemma Address_of_node_ipv4:
  assumes "getaddrinfo node service hints = (0, Some (sockaddr_in ip port))"
  shows "Address_of_node getaddrinfo node service hints = Inr (raw_of \<lparr>ad_ipv4_numeric = ip, ad_port = port\<rparr>)"
  using assms Address_of_sockaddr_in [of ip port] by (simp add: Address_of_node_def sizeof_sockaddr_in_def)

end
