(* ===== verification/Spec2Isabelle.thy ===== *)
theory Spec2Isabelle
  imports TCP_Benchmark Stream_Copy Packet_Tools Network_Thread Socket_Address
begin

text \<open>
  Verification of the sponge TCP/IP stack (\<^verbatim>\<open>src/libsponge\<close>) and of the programs around it
  (\<^verbatim>\<open>src/apps\<close>).

  \<^bold>\<open>The program.\<close> An application writes bytes to a \<^verbatim>\<open>ByteStream\<close>. The \<^verbatim>\<open>TCPSender\<close> cuts the stream into
  segments that fit the peer's window, keeps them until they are acknowledged and repeats them when its
  timer expires. The \<^verbatim>\<open>TCPReceiver\<close> of the peer unwraps 32-bit sequence numbers, hands the payloads to a
  \<^verbatim>\<open>StreamReassembler\<close>, which delivers them in order to another \<^verbatim>\<open>ByteStream\<close>, and computes acknowledgment
  and window. A \<^verbatim>\<open>TCPConnection\<close> joins one of each and decides when it is over. A \<^verbatim>\<open>TCPSpongeSocket\<close> runs a
  connection in an \<^verbatim>\<open>EventLoop\<close> between a pipe to the application and an adapter, which carries segments in
  UDP payloads, in IPv4 datagrams on a TUN device, or in Ethernet frames through a \<^verbatim>\<open>NetworkInterface\<close>
  with its ARP cache. A \<^verbatim>\<open>Router\<close> forwards datagrams between such interfaces. The wire formats are read
  by \<^verbatim>\<open>NetParser\<close> and written by \<^verbatim>\<open>NetUnparser\<close>, over reference-counted \<^verbatim>\<open>Buffer\<close>s, and protected by the
  \<^verbatim>\<open>InternetChecksum\<close>.

  \<^bold>\<open>Conventions.\<close> A member function \<^verbatim>\<open>Class::method\<close> is the definition \<open>Class_method\<close>, or \<open>method\<close> when that
  is unambiguous, and takes and returns the object as a record. Every exception, and every use of
  undefined behaviour that the code can reach, is a value of \<open>exn\<close> on the left of a sum; \<open>bind_res\<close>
  sequences such results. Strings are lists of bytes. \<^verbatim>\<open>size_t\<close> counts of bytes in memory are natural
  numbers, with wrapping operations \<open>add64\<close> and \<open>sub64\<close> where the code adds or subtracts; sequence
  numbers, header fields, timers and counters are words of their C++ width. A loop is a recursive
  function; a loop that may not end is a partial function whose value \<open>None\<close> means that it does not
  return. No fuel is used.

  \<^bold>\<open>Theories.\<close>
  \<^item> \<open>Sponge_Prelude\<close>: types, exceptions, wrapping arithmetic, shared lemmas.
  \<^item> \<open>Buffers\<close> (\<^verbatim>\<open>util/buffer\<close>): three containers that meet one contract, the locale \<open>prefix_buffer\<close>.
  \<^item> \<open>Byte_Stream\<close> (\<^verbatim>\<open>byte_stream\<close>): the stream refines a bounded queue over every sequence of calls.
  \<^item> \<open>Wrapping_Integers\<close> (\<^verbatim>\<open>wrapping_integers\<close>): \<open>unwrap\<close> finds the number closest to the checkpoint; both
    round trips.
  \<^item> \<open>Stream_Reassembler\<close> (\<^verbatim>\<open>stream_reassembler\<close>): refinement to a set of received indices, complete
    delivery, exact accounting, and independence of the order of arrival. What the code reads through
    the end iterator of its map is the parameter \<open>end_key\<close>; \<open>end_key_ok\<close> says what is needed of it.
  \<^item> \<open>Net_Parser\<close> (\<^verbatim>\<open>util/parser\<close>), \<open>Internet_Checksum\<close> (\<^verbatim>\<open>util/util\<close>): the fields of the wire formats share
    the locale \<open>wire_field\<close>; the checksum is the one's-complement sum over any split of the data.
  \<^item> \<open>TCP_Segment\<close>, \<open>IPv4_Datagram\<close>, \<open>Ethernet_Frame\<close> (\<^verbatim>\<open>tcp_helpers\<close>: headers, segments, datagrams, frames,
    ARP messages): round trips, what the parsers accept, and that they never throw.
  \<^item> \<open>Formatting\<close> (\<^verbatim>\<open>util/util\<close>, descriptions of headers): the dump of bytes has the layout of rows of
    sixteen; the summary of a frame never throws.
  \<^item> \<open>Socket_Address\<close> (\<^verbatim>\<open>util/address\<close>): raw addresses; on IPv4 their comparison is that of number and port,
    which is all the rest uses.
  \<^item> \<open>TCP_Receiver\<close>, \<open>TCP_Sender\<close>, \<open>TCP_State\<close>, \<open>TCP_Connection\<close> (\<^verbatim>\<open>tcp_receiver\<close>, \<^verbatim>\<open>tcp_sender\<close>,
    \<^verbatim>\<open>tcp_helpers/tcp_state\<close>, \<^verbatim>\<open>tcp_connection\<close>): the receiver refines the abstract reassembler, every segment
    of the sender belongs to its stream, its loop ends within the window, and each operation's effect;
    when a connection ends, also by a reset, and that it stays ended.
  \<^item> \<open>TCP_Pair\<close>: two connections and an unreliable network as a step relation, with its invariant. The
    properties of the whole system below rest on it.
  \<^item> \<open>Network_Interface\<close> (\<^verbatim>\<open>network_interface\<close>): no datagram is lost or duplicated, resolution, the limits
    on ARP traffic, and transfer of a datagram over a link.
  \<^item> \<open>Router\<close> (\<^verbatim>\<open>router\<close>): the table of routes, forwarding, and the queues of the interfaces.
  \<^item> \<open>Router_Table\<close>: the invariant of the table of routes. When no route is added after one that it
    encloses, adding them returns and a datagram takes the longest matching prefix; what happens
    otherwise, by example.
  \<^item> \<open>Adapters\<close> (\<^verbatim>\<open>tcp_helpers/fd_adapter\<close>, \<^verbatim>\<open>tcp_over_ip\<close>, \<^verbatim>\<open>tuntap_adapter\<close>, \<^verbatim>\<open>lossy_fd_adapter\<close>): three
    carriers of segments that meet the contract \<open>segment_carrier\<close>, and what the filter lets through.
  \<^item> \<open>Event_Loop\<close> (\<^verbatim>\<open>util/file_descriptor\<close>, \<^verbatim>\<open>util/socket\<close>, \<^verbatim>\<open>util/eventloop\<close>): bookkeeping of descriptors, the
    loop that writes everything, and the dispatch of callbacks over an arbitrary state, with what a
    callback may rely on during a round.
  \<^item> \<open>Sponge_Socket\<close> (\<^verbatim>\<open>tcp_helpers/tcp_sponge_socket\<close>): the rules of the socket, its loop and its calls;
    every round of the loop refines the endpoint of \<open>TCP_Pair\<close>, with the segments given to the adapter.
  \<^item> \<open>TCP_Benchmark\<close> (\<^verbatim>\<open>apps/tcp_benchmark\<close>): the rounds of the benchmark are runs of \<open>TCP_Pair\<close>, so the
    strings match.
  \<^item> \<open>Stream_Copy\<close> (\<^verbatim>\<open>apps/bidirectional_stream_copy\<close>): no byte is lost between a terminal and a socket.
  \<^item> \<open>Command_Line\<close> (\<^verbatim>\<open>apps/tcp_ipv4\<close>, \<^verbatim>\<open>tcp_udp\<close>, \<^verbatim>\<open>tcp_ip_ethernet\<close>, \<^verbatim>\<open>tcp_native\<close>, \<^verbatim>\<open>udp_tcpdump\<close>): the
    arguments of the programs, the program name in usage messages included.
  \<^item> \<open>Packet_Tools\<close> (\<^verbatim>\<open>apps/udp_tcpdump\<close>, \<^verbatim>\<open>tun\<close>, \<^verbatim>\<open>bouncer\<close>, \<^verbatim>\<open>webget\<close>): what is found in a captured packet, and
    exactly when the code reads past its end.
  \<^item> \<open>Network_Simulator\<close> (\<^verbatim>\<open>apps/network_simulator\<close>): hosts and cables around a router; a datagram reaches
    a host through the router.
  \<^item> \<open>Lab7\<close> (\<^verbatim>\<open>apps/lab7\<close>): a fourth carrier of segments, and where the two routers send.
  \<^item> \<open>Network_Thread\<close>: the thread that runs the router of \<open>Lab7\<close>, as a step relation, goes on under any
    traffic with one condition on datagrams, which an example shows to be needed.

  \<^bold>\<open>Bounds.\<close> Streams between two connections stay below \<open>2 ^ 31\<close> bytes, so that sequence numbers are
  never ambiguous; capacities stay below \<open>2 ^ 63\<close>. A single sender is verified up to \<open>2 ^ 64\<close> bytes.
  Segments that go through an adapter fit a datagram of 65535 bytes.

  \<^bold>\<open>The environment.\<close> Random values, the clock, the contents of devices, and the answers of \<^verbatim>\<open>read\<close>,
  \<^verbatim>\<open>writev\<close>, \<^verbatim>\<open>poll\<close> and their like are arguments of the definitions that use them. The natural logarithm
  that the router computes in floating point is a parameter.

  \<^bold>\<open>Not modelled.\<close> The printing of addresses and the opening of devices (\<^verbatim>\<open>util/address\<close>, \<^verbatim>\<open>util/tun\<close>)
  only wrap system calls. Debug output is dropped. Of the two threads of a socket the one that
  runs the connection is modelled; the other appears through what the kernel answers. Of the programs,
  the text of usage messages, hexdumps and other output, the calls of \<^verbatim>\<open>libpcap\<close>, and the threads of \<^verbatim>\<open>lab7\<close> are left
  out. The examples under \<^verbatim>\<open>src/doctests\<close> only call the library.
\<close>

section \<open>Two endpoints over an unreliable network\<close>

text \<open>
  C1. The streams of two connections over a network that loses, duplicates and reorders segments at
  will: at every moment, what each application has read and can read is a prefix of what the other one
  wrote, and when an inbound stream reports its end, it is all that the other wrote and the other has
  ended its stream.
\<close>

theorem tcp_pair_streams:
  assumes "pair_reachable end_key (pair_init ra ca rb cb) (e, f)" and "end_key_ok end_key"
    and "cfg_ok ca" and "cfg_ok cb"
  shows "prefix (ep_read f @ ByteStream_contents (TCPConnection_inbound_stream (ep_conn f))) (ep_written e) \<and>
    prefix (ep_read e @ ByteStream_contents (TCPConnection_inbound_stream (ep_conn e))) (ep_written f) \<and>
    (ByteStream_input_ended (TCPConnection_inbound_stream (ep_conn f)) \<longrightarrow> ep_ended e \<and>
       ep_read f @ ByteStream_contents (TCPConnection_inbound_stream (ep_conn f)) = ep_written e) \<and>
    (ByteStream_input_ended (TCPConnection_inbound_stream (ep_conn e)) \<longrightarrow> ep_ended f \<and>
       ep_read e @ ByteStream_contents (TCPConnection_inbound_stream (ep_conn e)) = ep_written f)"
  using ep_inv_delivered [OF pair_run_inv(1) [OF assms]] ep_inv_delivered [OF pair_run_inv(2) [OF assms]]
  by blast

theorem tcp_pair_streams_witness:
  "\<exists>e f. pair_reachable length (pair_init 0 TCPConfig_default 1 TCPConfig_default) (e, f) \<and>
    ep_written e = [7, 8] \<and>
    prefix (ep_read f @ ByteStream_contents (TCPConnection_inbound_stream (ep_conn f))) [7, 8]"
proof -
  obtain e f where ef: "pair_reachable length (pair_init 0 TCPConfig_default 1 TCPConfig_default) (e, f)"
    "ep_written e = [7, 8]"
    using pair_example by blast
  have "cfg_ok TCPConfig_default"
    by (simp add: cfg_ok_def TCPConfig_default_def TCPConfig_DEFAULT_CAPACITY_def)
  then show ?thesis
    using tcp_pair_streams [OF ef(1) end_key_ok_length] ef by auto
qed

text \<open>
  C2. In every reachable state of the two endpoints no call throws: connecting, the clock, ending the
  stream, reading, asking for the state, writing to an open stream, and taking any segment the peer
  ever sent, with ports and checksum filled in on the way.
\<close>

theorem tcp_pair_never_throws:
  assumes "pair_reachable end_key (pair_init ra ca rb cb) (e, f)" and "end_key_ok end_key"
    and "cfg_ok ca" and "cfg_ok cb"
  shows "(\<exists>c. TCPConnection_connect (ep_conn e) = Inr c) \<and> (\<exists>c. TCPConnection_tick ms (ep_conn e) = Inr c) \<and>
    (\<exists>c. TCPConnection_end_input_stream (ep_conn e) = Inr c) \<and>
    (\<exists>d r. TCPReceiver_read n (cn_receiver (ep_conn e)) = Inr (d, r)) \<and>
    (\<exists>st. TCPConnection_state (ep_conn e) = Inr st) \<and>
    (\<not> ep_ended e \<and> length (ep_written e @ data) + 2 < 2 ^ 31 \<longrightarrow>
       (\<exists>n c. TCPConnection_write data (ep_conn e) = Inr (n, c))) \<and>
    (seg \<in> set (ep_sent f) \<and> tcp_same seg seg' \<longrightarrow>
       (\<exists>c. TCPConnection_segment_received end_key seg' (ep_conn e) = Inr c))"
  using ep_inv_total [OF pair_run_inv [OF assms] assms(2)] by blast

theorem tcp_pair_never_throws_witness:
  "\<exists>e f. pair_reachable length (pair_init 0 TCPConfig_default 1 TCPConfig_default) (e, f) \<and>
    ep_written e = [7, 8] \<and> (\<exists>c. TCPConnection_tick 5 (ep_conn e) = Inr c)"
proof -
  obtain e f where ef: "pair_reachable length (pair_init 0 TCPConfig_default 1 TCPConfig_default) (e, f)"
    "ep_written e = [7, 8]"
    using pair_example by blast
  have "cfg_ok TCPConfig_default"
    by (simp add: cfg_ok_def TCPConfig_default_def TCPConfig_DEFAULT_CAPACITY_def)
  then show ?thesis
    using tcp_pair_never_throws [OF ef(1) end_key_ok_length] ef by blast
qed

end
